(* ===== verification/Prelude.thy ===== *)
theory Prelude
  imports Main "HOL-Library.AList"
begin

text \<open>
  Shared vocabulary of the development: the named collections the component theories add their
  facts to, and generic lemmas on lists and association lists. Nothing in this theory is about
  the program.

  \<^item> \<open>coro_simps\<close>: equations that run a coroutine one step further;
  \<^item> \<open>cfg_simps\<close>: the read-after-write equations of the entity configuration;
  \<^item> \<open>sched_simps\<close>: the definitions unfolded in one step of the client scheduler.
\<close>

named_theorems coro_simps
named_theorems cfg_simps
named_theorems sched_simps

section \<open>Separators in lists\<close>

text \<open>
  A list that is cut at its first (or last) separator has only one such cut. The topic layout
  of the program is injective because of these two lemmas.
\<close>

lemma cut_first_separator:
  assumes "x \<notin> set as" and "x \<notin> set cs" and "as @ x # bs = cs @ x # ds"
  shows "as = cs \<and> bs = ds"
  using assms
proof (induction as arbitrary: cs)
  case Nil
  then show ?case by (cases cs) auto
next
  case (Cons a as)
  then show ?case by (cases cs) auto
qed

lemma cut_last_separator:
  assumes "x \<notin> set bs" and "x \<notin> set ds" and "as @ x # bs = cs @ x # ds"
  shows "as = cs \<and> bs = ds"
proof -
  have "rev bs @ x # rev as = rev ds @ x # rev cs"
    using assms(3) by (metis append.assoc append_Cons append_Nil rev.simps(2) rev_append)
  with assms(1,2) have "rev bs = rev ds \<and> rev as = rev cs"
    by (intro cut_first_separator) auto
  then show ?thesis by simp
qed

section \<open>Association lists with unique keys\<close>

lemma map_of_update_same [simp]: "map_of (AList.update k v al) k = Some v"
  by (simp add: update_conv)

lemma map_of_update_other [simp]: "k \<noteq> k' \<Longrightarrow> map_of (AList.update k v al) k' = map_of al k'"
  by (simp add: update_conv)

section \<open>Lists that grow\<close>

text \<open>\<open>ext xs ys\<close>: the log \<open>ys\<close> continues the log \<open>xs\<close>.\<close>

definition grows :: "'a list \<Rightarrow> 'a list \<Rightarrow> bool" where
  "grows xs ys \<longleftrightarrow> (\<exists>zs. ys = xs @ zs)"

lemma grows_refl [simp, intro]: "grows xs xs"
  by (simp add: grows_def)

lemma grows_trans [trans]: "grows xs ys \<Longrightarrow> grows ys zs \<Longrightarrow> grows xs zs"
  by (auto simp: grows_def)

lemma grows_append [simp, intro]: "grows xs (xs @ ys)"
  by (simp add: grows_def)

end
