(* ===== verification/Errors.thy ===== *)
theory Errors
  imports Prelude
begin

text \<open>
  The error layer of the library (\<open>error.h\<close>): the enumeration of its own error codes, the error
  category with its messages, and \<open>map_err\<close>, which turns an error code of Boost.Asio or async_mqtt
  into one of the library's own. An error code is a number together with the category it belongs
  to, as in \<open>boost::system::error_code\<close>. The numbers that Asio, the platform and async_mqtt give
  their own codes are not in the repository: they are the record \<open>ext_codes\<close>, a parameter.
\<close>

section \<open>Error codes and categories\<close>

datatype ErrorCode =
    Success
  | NotAuthorized
  | HostNotFound
  | ConnectionRefused
  | PacketNotAllowedToSend
  | NotConnected
  | InvalidConfig
  | Disconnected
  | SessionReset
  | InternalError
  | InvalidPacket
  | UnknownError

text \<open>The category of an error code: the library's own, the five the source tests for, any other.\<close>

datatype category =
    Hacpp_Category
  | Connect_Reason_Category
  | Netdb_Category
  | Misc_Category
  | System_Category
  | Mqtt_Error_Category
  | Other_Category nat

datatype error_code = Error_Code (ec_value: int) (ec_category: category)

text \<open>\<open>if (ec)\<close>: an error code counts as a failure when its value is not zero.\<close>

definition failed :: "error_code \<Rightarrow> bool" where
  "failed ec \<longleftrightarrow> ec_value ec \<noteq> 0"

text \<open>The value \<open>static_cast<int>(e)\<close> of an enumerator: its position in the declaration.\<close>

fun error_number :: "ErrorCode \<Rightarrow> int" where
  "error_number Success = 0"
| "error_number NotAuthorized = 1"
| "error_number HostNotFound = 2"
| "error_number ConnectionRefused = 3"
| "error_number PacketNotAllowedToSend = 4"
| "error_number NotConnected = 5"
| "error_number InvalidConfig = 6"
| "error_number Disconnected = 7"
| "error_number SessionReset = 8"
| "error_number InternalError = 9"
| "error_number InvalidPacket = 10"
| "error_number UnknownError = 11"

definition make_error_code :: "ErrorCode \<Rightarrow> error_code" where
  "make_error_code e = Error_Code (error_number e) Hacpp_Category"

text \<open>
  \<open>ErrorCategory::message\<close>: a switch over the number with a default branch.
\<close>

definition error_message :: "int \<Rightarrow> string" where
  "error_message ev =
     (if ev = error_number Success then ''success''
      else if ev = error_number NotAuthorized then ''not_authorized''
      else if ev = error_number HostNotFound then ''host_not_found''
      else if ev = error_number ConnectionRefused then ''connection_refused''
      else if ev = error_number PacketNotAllowedToSend then ''packet_not_allowed_to_send''
      else if ev = error_number NotConnected then ''not_connected''
      else if ev = error_number InvalidConfig then ''invalid_config''
      else if ev = error_number Disconnected then ''disconnected''
      else if ev = error_number SessionReset then ''session_reset''
      else if ev = error_number InternalError then ''internal_error''
      else if ev = error_number InvalidPacket then ''invalid_packet''
      else if ev = error_number UnknownError then ''unknown_error''
      else ''TODO(pbiel): Handle error'')"

section \<open>Mapping foreign errors\<close>

text \<open>
  The foreign numbers the source compares with. They are fixed by MQTT v5, the C library and Asio,
  so each occurs here as a field and never as a literal.
\<close>

record ext_codes =
  not_authorized :: int
  host_not_found :: int
  host_not_found_try_again :: int
  eof_code :: int
  connection_refused :: int
  not_connected :: int
  packet_not_allowed_to_send :: int

definition map_connect_error :: "ext_codes \<Rightarrow> int \<Rightarrow> ErrorCode" where
  "map_connect_error E ev = (if ev = not_authorized E then NotAuthorized else UnknownError)"

definition map_netdb_error :: "ext_codes \<Rightarrow> int \<Rightarrow> ErrorCode" where
  "map_netdb_error E ev =
     (if ev = host_not_found E \<or> ev = host_not_found_try_again E then HostNotFound
      else UnknownError)"

definition map_misc_error :: "ext_codes \<Rightarrow> int \<Rightarrow> ErrorCode" where
  "map_misc_error E ev = (if ev = eof_code E then Disconnected else UnknownError)"

definition map_system_error :: "ext_codes \<Rightarrow> int \<Rightarrow> ErrorCode" where
  "map_system_error E ev =
     (if ev = connection_refused E then ConnectionRefused
      else if ev = not_connected E then NotConnected
      else UnknownError)"

definition map_mqtt_error :: "ext_codes \<Rightarrow> int \<Rightarrow> ErrorCode" where
  "map_mqtt_error E ev =
     (if ev = packet_not_allowed_to_send E then PacketNotAllowedToSend else UnknownError)"

definition map_err :: "ext_codes \<Rightarrow> error_code \<Rightarrow> error_code" where
  "map_err E ec =
     make_error_code
       (if \<not> failed ec then Success
        else if ec_category ec = Connect_Reason_Category then map_connect_error E (ec_value ec)
        else if ec_category ec = Netdb_Category then map_netdb_error E (ec_value ec)
        else if ec_category ec = Misc_Category then map_misc_error E (ec_value ec)
        else if ec_category ec = System_Category then map_system_error E (ec_value ec)
        else if ec_category ec = Mqtt_Error_Category then map_mqtt_error E (ec_value ec)
        else UnknownError)"

lemmas map_err_tables =
  map_connect_error_def map_netdb_error_def map_misc_error_def map_system_error_def
  map_mqtt_error_def

section \<open>Facts\<close>

lemma error_number_inject [simp]: "error_number a = error_number b \<longleftrightarrow> a = b"
  by (cases a; cases b) simp_all

lemma make_error_code_inject [simp]: "make_error_code a = make_error_code b \<longleftrightarrow> a = b"
  by (simp add: make_error_code_def)

lemma error_number_zero [simp]: "error_number e = 0 \<longleftrightarrow> e = Success"
  by (cases e) simp_all

text \<open>\<open>Error{}\<close>: value zero in the system category.\<close>

definition default_error :: error_code where
  "default_error = Error_Code 0 System_Category"

lemma default_error_simps [simp]:
  "\<not> failed default_error" "default_error \<noteq> make_error_code SessionReset"
  by (simp_all add: default_error_def failed_def make_error_code_def)

lemma failed_make [simp]: "failed (make_error_code e) \<longleftrightarrow> e \<noteq> Success"
  by (simp add: failed_def make_error_code_def)

lemma category_make [simp]: "ec_category (make_error_code e) = Hacpp_Category"
  by (simp add: make_error_code_def)

lemma map_tables_fail [simp]:
  "map_connect_error E ev \<noteq> Success" "map_netdb_error E ev \<noteq> Success"
  "map_misc_error E ev \<noteq> Success" "map_system_error E ev \<noteq> Success"
  "map_mqtt_error E ev \<noteq> Success"
  by (simp_all add: map_err_tables)

lemma map_err_failed [simp]: "failed (map_err E ec) \<longleftrightarrow> failed ec"
  by (simp add: map_err_def)

lemma map_err_range: "\<exists>e. map_err E ec = make_error_code e \<and> (e = Success \<longleftrightarrow> \<not> failed ec)"
  by (auto simp: map_err_def)

lemma map_tables_never_reset [simp]:
  "map_connect_error E ev \<noteq> SessionReset" "map_netdb_error E ev \<noteq> SessionReset"
  "map_misc_error E ev \<noteq> SessionReset" "map_system_error E ev \<noteq> SessionReset"
  "map_mqtt_error E ev \<noteq> SessionReset"
  by (simp_all add: map_err_tables)

lemma map_err_never_reset [simp]: "map_err E ec \<noteq> make_error_code SessionReset"
  by (simp add: map_err_def)

text \<open>
  C34: \<open>map_err\<close> loses no failure and invents none: its result is in the library's own category, is a
  failure exactly when the foreign error is one, and is never \<open>SessionReset\<close>, the code the
  library reserves for "reconnected".
\<close>

theorem map_err_sound:
  "ec_category (map_err E ec) = Hacpp_Category \<and> (failed (map_err E ec) \<longleftrightarrow> failed ec) \<and>
   map_err E ec \<noteq> make_error_code SessionReset"
proof -
  obtain e where "map_err E ec = make_error_code e" using map_err_range by blast
  then show ?thesis using map_err_failed map_err_never_reset by (metis category_make)
qed

end
