(* ===== verification/Topics.thy ===== *)
theory Topics
  imports Prelude
begin

text \<open>
  The default topic names of an entity (\<open>hacpp.h\<close>): \<open>homeassistant/<component>/<unique_id>/<leaf>\<close>,
  with one leaf for each of the discovery, state, command and availability topic.
\<close>

definition HomeAssistantPrefix :: string where
  "HomeAssistantPrefix = ''homeassistant''"

definition default_component_discovery_topic :: "string \<Rightarrow> string \<Rightarrow> string" where
  "default_component_discovery_topic component unique_id =
     HomeAssistantPrefix @ ''/'' @ component @ ''/'' @ unique_id @ ''/config''"

definition default_component_state_topic :: "string \<Rightarrow> string \<Rightarrow> string" where
  "default_component_state_topic component unique_id =
     HomeAssistantPrefix @ ''/'' @ component @ ''/'' @ unique_id @ ''/state''"

definition default_component_command_topic :: "string \<Rightarrow> string \<Rightarrow> string" where
  "default_component_command_topic component unique_id =
     HomeAssistantPrefix @ ''/'' @ component @ ''/'' @ unique_id @ ''/set''"

definition default_component_availability_topic :: "string \<Rightarrow> string \<Rightarrow> string" where
  "default_component_availability_topic component unique_id =
     HomeAssistantPrefix @ ''/'' @ component @ ''/'' @ unique_id @ ''/availability''"

text \<open>The four topic functions as one family, indexed by the kind of topic.\<close>

datatype topic_kind = Discovery | State | Command | Avail

fun default_topic :: "topic_kind \<Rightarrow> string \<Rightarrow> string \<Rightarrow> string" where
  "default_topic Discovery = default_component_discovery_topic"
| "default_topic State = default_component_state_topic"
| "default_topic Command = default_component_command_topic"
| "default_topic Avail = default_component_availability_topic"

fun leaf :: "topic_kind \<Rightarrow> string" where
  "leaf Discovery = ''config''"
| "leaf State = ''state''"
| "leaf Command = ''set''"
| "leaf Avail = ''availability''"

lemmas topic_defs =
  default_component_discovery_topic_def default_component_state_topic_def
  default_component_command_topic_def default_component_availability_topic_def

lemma default_topic_layout:
  "default_topic k c u = (HomeAssistantPrefix @ ''/'') @ c @ CHR ''/'' # (u @ CHR ''/'' # leaf k)"
  by (cases k) (simp_all add: topic_defs)

lemma leaf_no_separator [simp]: "CHR ''/'' \<notin> set (leaf k)"
  by (cases k) simp_all

lemma leaf_inject [simp]: "leaf k = leaf k' \<longleftrightarrow> k = k'"
  by (cases k; cases k') simp_all

text \<open>
  No two default topics collide. Whatever the unique ids are, also when they hold separators themselves,
  two entities share a topic only if it is the same topic of the same component with the same unique id.
  The only condition is on the component names, which the library fixes and which have no separator in
  them.
\<close>

lemma default_topics_differ:
  assumes "CHR ''/'' \<notin> set c" and "CHR ''/'' \<notin> set c'"
    and "default_topic k c u = default_topic k' c' u'"
  shows "k = k' \<and> c = c' \<and> u = u'"
proof -
  from assms(3) have
    "c @ CHR ''/'' # (u @ CHR ''/'' # leaf k) = c' @ CHR ''/'' # (u' @ CHR ''/'' # leaf k')"
    by (simp add: default_topic_layout)
  from cut_first_separator [OF assms(1,2) this]
  have c: "c = c'" and rest: "u @ CHR ''/'' # leaf k = u' @ CHR ''/'' # leaf k'" by auto
  from cut_last_separator [OF leaf_no_separator leaf_no_separator rest]
  show ?thesis using c by simp
qed

end
