(* ===== verification/Logging.thy ===== *)
theory Logging
  imports Prelude
begin

text \<open>
  The logger of the library (\<open>logger.h\<close>): which spdlog logger the messages of all other parts go to.
  spdlog is a parameter: the record \<open>spdlog_api\<close> has its operations on a state of any type, and the
  locale \<open>spdlog_laws\<close> what is relied on. The state of the library itself is one function-local
  static, the fallback logger, which is absent until it is first needed.
\<close>

section \<open>spdlog as a parameter\<close>

text \<open>
  \<open>sp_get\<close> and \<open>sp_default\<close> are \<open>spdlog::get\<close> and \<open>spdlog::default_logger\<close>; \<open>sp_make\<close> is the
  constructor from a name and sinks, the others are members of a logger.
\<close>

record ('s, 'l, 'k) spdlog_api =
  sp_get :: "'s \<Rightarrow> string \<Rightarrow> 'l option"
  sp_default :: "'s \<Rightarrow> 'l"
  sp_make :: "string \<Rightarrow> 'k list \<Rightarrow> 's \<Rightarrow> 'l \<times> 's"
  sp_name :: "'s \<Rightarrow> 'l \<Rightarrow> string"
  sp_sinks :: "'s \<Rightarrow> 'l \<Rightarrow> 'k list"
  sp_level :: "'s \<Rightarrow> 'l \<Rightarrow> nat"
  sp_flush_level :: "'s \<Rightarrow> 'l \<Rightarrow> nat"
  sp_set_level :: "'l \<Rightarrow> nat \<Rightarrow> 's \<Rightarrow> 's"
  sp_flush_on :: "'l \<Rightarrow> nat \<Rightarrow> 's \<Rightarrow> 's"

definition settings :: "('s, 'l, 'k) spdlog_api \<Rightarrow> 's \<Rightarrow> 'l \<Rightarrow> string \<times> 'k list \<times> nat \<times> nat" where
  "settings S s l = (sp_name S s l, sp_sinks S s l, sp_level S s l, sp_flush_level S s l)"

text \<open>The registry: names and the default logger.\<close>

definition registry :: "('s, 'l, 'k) spdlog_api \<Rightarrow> 's \<Rightarrow> (string \<Rightarrow> 'l option) \<times> 'l" where
  "registry S s = (sp_get S s, sp_default S s)"

locale spdlog_laws =
  fixes S :: "('s, 'l, 'k) spdlog_api"
  assumes make_new: "sp_make S n ks s = (l, s') \<Longrightarrow> sp_name S s' l = n \<and> sp_sinks S s' l = ks"
    and make_fresh: "sp_make S n ks s = (l, s') \<Longrightarrow> l \<noteq> sp_default S s \<and> (\<forall>m. sp_get S s m \<noteq> Some l)"
    and make_others: "sp_make S n ks s = (l, s') \<Longrightarrow>
      registry S s' = registry S s \<and> (\<forall>l'. l' \<noteq> l \<longrightarrow> settings S s' l' = settings S s l')"
    and set_level: "registry S (sp_set_level S l v s) = registry S s"
      "settings S (sp_set_level S l v s) l' =
         (if l' = l then (sp_name S s l, sp_sinks S s l, v, sp_flush_level S s l) else settings S s l')"
    and flush_on: "registry S (sp_flush_on S l v s) = registry S s"
      "settings S (sp_flush_on S l v s) l' =
         (if l' = l then (sp_name S s l, sp_sinks S s l, sp_level S s l, v) else settings S s l')"

section \<open>Choosing the logger\<close>

definition Logger :: string where
  "Logger = ''hacpp::mqtt''"

definition default_named_logger :: "('s, 'l, 'k) spdlog_api \<Rightarrow> string \<Rightarrow> 's \<Rightarrow> 'l \<times> 's" where
  "default_named_logger S name s =
     (let default = sp_default S s;
          (log, s) = sp_make S name (sp_sinks S s default) s;
          s = sp_set_level S log (sp_level S s default) s;
          s = sp_flush_on S log (sp_flush_level S s default) s
      in (log, s))"

text \<open>The static of \<open>fallback_logger\<close> is initialized by its first call.\<close>

definition fallback_logger ::
  "('s, 'l, 'k) spdlog_api \<Rightarrow> 's \<times> 'l option \<Rightarrow> 'l \<times> 's \<times> 'l option" where
  "fallback_logger S st =
     (case st of
        (s, Some log) \<Rightarrow> (log, s, Some log)
      | (s, None) \<Rightarrow> (let (log, s) = default_named_logger S Logger s in (log, s, Some log)))"

definition logger :: "('s, 'l, 'k) spdlog_api \<Rightarrow> 's \<times> 'l option \<Rightarrow> 'l \<times> 's \<times> 'l option" where
  "logger S st =
     (case sp_get S (fst st) Logger of
        Some log \<Rightarrow> (log, st)
      | None \<Rightarrow> fallback_logger S st)"

context spdlog_laws
begin

text \<open>A new logger is a copy of the default one, under its own name.\<close>

lemma named_logger:
  assumes "default_named_logger S n s = (l, s')"
  shows "settings S s' l = (n, sp_sinks S s (sp_default S s), sp_level S s (sp_default S s),
      sp_flush_level S s (sp_default S s))"
    and "registry S s' = registry S s" and "l' \<noteq> l \<Longrightarrow> settings S s' l' = settings S s l'"
    and "l \<noteq> sp_default S s" and "sp_get S s m \<noteq> Some l"
proof -
  let ?d = "sp_default S s"
  obtain s1 where made: "sp_make S n (sp_sinks S s ?d) s = (l, s1)"
    and s': "s' = sp_flush_on S l (sp_flush_level S (sp_set_level S l (sp_level S s1 ?d) s1) ?d)
      (sp_set_level S l (sp_level S s1 ?d) s1)"
    using assms by (auto simp: default_named_logger_def Let_def split: prod.splits)
  let ?s2 = "sp_set_level S l (sp_level S s1 ?d) s1"
  show fresh: "l \<noteq> ?d" and "sp_get S s m \<noteq> Some l" using make_fresh [OF made] by blast+
  have d1: "settings S s1 ?d = settings S s ?d" using make_others [OF made] fresh by auto
  have d2: "settings S ?s2 ?d = settings S s ?d" using set_level(2) [of l _ s1 ?d] fresh d1 by simp
  have "settings S ?s2 l = (n, sp_sinks S s ?d, sp_level S s1 ?d, sp_flush_level S s1 l)"
    using set_level(2) [of l _ s1 l] make_new [OF made] by simp
  then show "settings S s' l = (n, sp_sinks S s ?d, sp_level S s ?d, sp_flush_level S s ?d)"
    using flush_on(2) [of l _ ?s2 l] d1 d2 by (simp add: s' settings_def)
  show "registry S s' = registry S s"
    unfolding s' flush_on(1) set_level(1) using make_others [OF made] by blast
  show "settings S s' l' = settings S s l'" if "l' \<noteq> l"
    using that flush_on(2) set_level(2) make_others [OF made] by (simp add: s')
qed

lemma registry_eq: "registry S s' = registry S s \<Longrightarrow> sp_get S s' = sp_get S s \<and> sp_default S s' = sp_default S s"
  by (simp add: registry_def)

lemma logger_again:
  assumes "logger S (s, fb) = (l, s', fb')"
  shows "logger S (s', fb') = (l, s', fb')"
proof (cases "sp_get S s Logger")
  case (Some log)
  with assms show ?thesis by (auto simp: logger_def)
next
  case None
  show ?thesis
  proof (cases fb)
    case (Some log)
    with assms None show ?thesis by (auto simp: logger_def fallback_logger_def)
  next
    case new: None
    with assms None have run: "default_named_logger S Logger s = (l, s')" and "fb' = Some l"
      by (auto simp: logger_def fallback_logger_def split: prod.splits)
    with None registry_eq [OF named_logger(2) [OF run]] show ?thesis
      by (simp add: logger_def fallback_logger_def)
  qed
qed

end

section \<open>A reference registry\<close>

text \<open>
  Loggers are numbers, 0 is the default one; the state has their settings, the registered names and
  the last number given away. A new logger gets a number above all of these.
\<close>

record spd =
  spd_last :: nat
  spd_settings :: "nat \<Rightarrow> string \<times> nat list \<times> nat \<times> nat"
  spd_names :: "(string \<times> nat) list"

definition spd_new :: "spd \<Rightarrow> nat" where
  "spd_new s = Suc (spd_last s + sum_list (map snd (spd_names s)))"

definition spd_set :: "nat \<Rightarrow> string \<times> nat list \<times> nat \<times> nat \<Rightarrow> spd \<Rightarrow> spd" where
  "spd_set l x s = s\<lparr>spd_settings := (spd_settings s)(l := x)\<rparr>"

definition spd_api :: "(spd, nat, nat) spdlog_api" where
  "spd_api =
     \<lparr>sp_get = (\<lambda>s. map_of (spd_names s)), sp_default = (\<lambda>s. 0),
      sp_make = (\<lambda>n ks s. (spd_new s, spd_set (spd_new s) (n, ks, 2, 6) (s\<lparr>spd_last := spd_new s\<rparr>))),
      sp_name = (\<lambda>s l. fst (spd_settings s l)), sp_sinks = (\<lambda>s l. fst (snd (spd_settings s l))),
      sp_level = (\<lambda>s l. fst (snd (snd (spd_settings s l)))),
      sp_flush_level = (\<lambda>s l. snd (snd (snd (spd_settings s l)))),
      sp_set_level = (\<lambda>l v s. spd_set l (case spd_settings s l of (n, ks, x, y) \<Rightarrow> (n, ks, v, y)) s),
      sp_flush_on = (\<lambda>l v s. spd_set l (case spd_settings s l of (n, ks, x, y) \<Rightarrow> (n, ks, x, v)) s)\<rparr>"

lemma spd_new_fresh: "map_of (spd_names s) m \<noteq> Some (spd_new s)"
proof
  assume "map_of (spd_names s) m = Some (spd_new s)"
  then have "spd_new s \<in> set (map snd (spd_names s))" by (force dest: map_of_SomeD)
  then have "spd_new s \<le> sum_list (map snd (spd_names s))" by (intro member_le_sum_list) simp_all
  then show False by (simp add: spd_new_def)
qed

lemma spd_new_pos [simp]: "0 < spd_new s"
  by (simp_all add: spd_new_def)

interpretation spd: spdlog_laws spd_api
  by unfold_locales
    (auto simp: spd_api_def settings_def registry_def spd_set_def spd_new_fresh spd_new_pos split: prod.splits)

section \<open>The chosen logger\<close>

text \<open>
  C40: A logger registered as \<open>hacpp::mqtt\<close> is used as it is. Without one, the first call makes a
  logger of that name with the sinks, level and flush level the default logger has at this moment;
  later calls use the same one, and changing the default logger afterwards does not reach it. No
  other logger and no registration is touched.
\<close>

theorem logger_chosen:
  assumes "spdlog_laws S" and "logger S (s, fb) = (l, s', fb')"
  shows "(sp_get S s Logger \<noteq> None \<longrightarrow> sp_get S s Logger = Some l \<and> s' = s \<and> fb' = fb) \<and>
    (sp_get S s Logger = None \<longrightarrow> fb' = Some l \<and>
       (fb \<noteq> None \<longrightarrow> fb = Some l \<and> s' = s) \<and>
       (fb = None \<longrightarrow>
          settings S s' l = (Logger, sp_sinks S s (sp_default S s), sp_level S s (sp_default S s),
            sp_flush_level S s (sp_default S s)) \<and>
          settings S (sp_set_level S (sp_default S s') v s') l = settings S s' l)) \<and>
    registry S s' = registry S s \<and>
    (\<forall>l'. l' \<noteq> l \<longrightarrow> settings S s' l' = settings S s l') \<and>
    logger S (s', fb') = (l, s', fb')"
proof (cases "sp_get S s Logger = None \<and> fb = None")
  case True
  with assms(2) have run: "default_named_logger S Logger s = (l, s')" and "fb' = Some l"
    by (auto simp: logger_def fallback_logger_def split: prod.splits)
  note new = spdlog_laws.named_logger [OF assms(1) run]
  have "sp_default S s' \<noteq> l" using new(2,4) by (auto simp: registry_def)
  then have "settings S (sp_set_level S (sp_default S s') v s') l = settings S s' l"
    using spdlog_laws.set_level(2) [OF assms(1)] by simp
  with True new \<open>fb' = Some l\<close> spdlog_laws.logger_again [OF assms] show ?thesis by simp
next
  case False
  with assms(2) spdlog_laws.logger_again [OF assms] show ?thesis
    by (cases "sp_get S s Logger"; cases fb) (auto simp: logger_def fallback_logger_def)
qed

text \<open>A fresh process, whose default logger writes to sink 7 at level 1.\<close>

definition spd_start :: spd where
  "spd_start = \<lparr>spd_last = 0, spd_settings = (\<lambda>_. ('''', [7], 1, 6)), spd_names = []\<rparr>"

theorem logger_chosen_witness:
  "\<exists>l s'. logger spd_api (spd_start, None) = (l, s', Some l) \<and>
     settings spd_api s' l = (''hacpp::mqtt'', [7], 1, 6) \<and> logger spd_api (s', Some l) = (l, s', Some l)"
proof -
  obtain l s' fb' where run: "logger spd_api (spd_start, None) = (l, s', fb')" by (metis prod_cases3)
  have "sp_get spd_api spd_start Logger = None" "sp_sinks spd_api spd_start (sp_default spd_api spd_start) = [7]"
    "sp_level spd_api spd_start (sp_default spd_api spd_start) = 1"
    "sp_flush_level spd_api spd_start (sp_default spd_api spd_start) = 6"
    by (simp_all add: spd_api_def spd_start_def)
  with logger_chosen [OF spd.spdlog_laws_axioms run] run show ?thesis by (auto simp: Logger_def)
qed

end
