(* ===== verification/Coro.thy ===== *)
theory Coro
  imports Errors
begin

text \<open>
  Coroutines. A \<open>boost::asio::awaitable<T>\<close> that runs on a state of type \<open>'s\<close> is a function from the
  state to \<open>None\<close>, when the coroutine is never resumed again after some suspension, or to
  its outcome and the state it leaves. The outcome is the value given to \<open>co_return\<close> or the
  exception that leaves the coroutine body.

  The state is everything the coroutine can reach: the object it is a member of, the third-party
  client, and the rest of the world. A suspension point is a call of another coroutine;
  a third-party operation is a parameter of type \<open>coro\<close> over the same state, so what other
  coroutines of the strand do while this one is suspended is part of what that parameter does.
\<close>

text \<open>Exceptions: a missing key or a wrong kind of JSON value, and \<open>boost::system::system_error\<close>.\<close>

datatype exn = Out_Of_Range | Wrong_Kind | System_Error error_code

datatype 'a res = Ret 'a | Exn exn

type_synonym ('a, 's) coro = "'s \<Rightarrow> ('a res \<times> 's) option"

definition co_return :: "'a \<Rightarrow> ('a, 's) coro" where
  "co_return a s = Some (Ret a, s)"

definition raise_exn :: "exn \<Rightarrow> ('a, 's) coro" where
  "raise_exn e s = Some (Exn e, s)"

text \<open>\<open>co_await m\<close>, with the rest of the body as a function of the awaited value.\<close>

definition await :: "('a, 's) coro \<Rightarrow> ('a \<Rightarrow> ('b, 's) coro) \<Rightarrow> ('b, 's) coro" where
  "await m k s = Option.bind (m s) (\<lambda>(r, s'). case r of Ret a \<Rightarrow> k a s' | Exn e \<Rightarrow> Some (Exn e, s'))"

text \<open>Evaluation of an expression that may throw, inside a coroutine body.\<close>

definition eval_res :: "'a res \<Rightarrow> ('a \<Rightarrow> ('b, 's) coro) \<Rightarrow> ('b, 's) coro" where
  "eval_res r k = (case r of Ret a \<Rightarrow> k a | Exn e \<Rightarrow> raise_exn e)"

text \<open>Assignments to members, then the rest of the body.\<close>

definition assign :: "('s \<Rightarrow> 's) \<Rightarrow> ('b, 's) coro \<Rightarrow> ('b, 's) coro" where
  "assign g k s = k (g s)"

text \<open>Reading members.\<close>

definition reading :: "('s \<Rightarrow> ('b, 's) coro) \<Rightarrow> ('b, 's) coro" where
  "reading k s = k s s"

section \<open>Running a coroutine\<close>

lemma co_return_run [coro_simps]: "co_return a s = Some (Ret a, s)"
  by (simp add: co_return_def)

lemma raise_exn_run [coro_simps]: "raise_exn e s = Some (Exn e, s)"
  by (simp add: raise_exn_def)

lemma await_Ret [coro_simps]: "m s = Some (Ret a, s') \<Longrightarrow> await m k s = k a s'"
  by (simp add: await_def)

lemma await_Exn [coro_simps]: "m s = Some (Exn e, s') \<Longrightarrow> await m k s = Some (Exn e, s')"
  by (simp add: await_def)

lemma await_None [coro_simps]: "m s = None \<Longrightarrow> await m k s = None"
  by (simp add: await_def)

lemma eval_Ret [coro_simps]: "eval_res (Ret a) k = k a"
  by (simp add: eval_res_def)

lemma eval_Exn [coro_simps]: "eval_res (Exn e) k = raise_exn e"
  by (simp add: eval_res_def)

lemma assign_run [coro_simps]: "assign g k s = k (g s)"
  by (simp add: assign_def)

lemma reading_run [coro_simps]: "reading k s = k s s"
  by (simp add: reading_def)

text \<open>Awaiting a coroutine and returning its value is that coroutine.\<close>

lemma await_co_return [simp]: "await m co_return = m"
  by (rule ext) (auto simp: await_def co_return_def Option.bind_eq_Some_conv
      split: Option.bind_split res.split)

lemma await_assoc: "await (await m k) l = await m (\<lambda>a. await (k a) l)"
  by (rule ext) (auto simp: await_def split: Option.bind_split res.split prod.split)

lemma await_Some_iff:
  "await m k s = Some (r, s') \<longleftrightarrow>
     (\<exists>a s1. m s = Some (Ret a, s1) \<and> k a s1 = Some (r, s')) \<or>
     (\<exists>e. m s = Some (Exn e, s') \<and> r = Exn e)"
proof (cases "m s")
  case (Some p)
  then show ?thesis by (cases p; cases "fst p") (auto simp: await_def)
qed (simp add: await_def)

lemma await_Some_cases [consumes 1, case_names Ret Exn]:
  assumes "await m k s = Some (r, s')"
  obtains a s1 where "m s = Some (Ret a, s1)" and "k a s1 = Some (r, s')"
  | e where "m s = Some (Exn e, s')" and "r = Exn e"
  using assms by (auto simp: await_Some_iff)

text \<open>Loops over coroutines are least fixpoints: \<open>None\<close> when the loop runs for ever.\<close>

lemma await_mono [partial_function_mono]:
  fixes k :: "('x \<Rightarrow> 'y option) \<Rightarrow> 'a \<Rightarrow> ('b, 's) coro"
  assumes "\<And>a s'. mono_option (\<lambda>f. k f a s')"
  shows "mono_option (\<lambda>f. await m (k f) s)"
proof (rule monotoneI)
  fix f g :: "'x \<Rightarrow> 'y option"
  assume le: "fun_ord option_ord f g"
  have "option_ord (k f a s') (k g a s')" for a s'
    using assms le by (auto dest: monotoneD)
  then show "option_ord (await m (k f) s) (await m (k g) s)"
    by (auto simp: await_def flat_ord_def split: Option.bind_split res.split prod.split)
qed

section \<open>Coroutines that always come back\<close>

text \<open>\<open>returns m\<close>: from every state \<open>m\<close> completes with a value (it neither hangs nor throws).\<close>

definition returns :: "('a, 's) coro \<Rightarrow> bool" where
  "returns m \<longleftrightarrow> (\<forall>s. \<exists>a s'. m s = Some (Ret a, s'))"

lemma returnsE [elim]:
  assumes "returns m" obtains a s' where "m s = Some (Ret a, s')"
  using assms unfolding returns_def by blast

text \<open>\<open>keeps f m\<close>: whatever \<open>m\<close> does, the part \<open>f\<close> of the state is the same afterwards.\<close>

definition keeps :: "('s \<Rightarrow> 'x) \<Rightarrow> ('a, 's) coro \<Rightarrow> bool" where
  "keeps f m \<longleftrightarrow> (\<forall>s r s'. m s = Some (r, s') \<longrightarrow> f s' = f s)"

lemma keepsD: "keeps f m \<Longrightarrow> m s = Some (r, s') \<Longrightarrow> f s' = f s"
  by (simp add: keeps_def)

lemma keeps_await:
  assumes "keeps f m" and "\<And>a. keeps f (k a)"
  shows "keeps f (await m k)"
  unfolding keeps_def
proof (intro allI impI)
  fix s r s' assume "await m k s = Some (r, s')"
  then show "f s' = f s"
    by (cases rule: await_Some_cases) (metis assms keepsD)+
qed

end
