(* ===== verification/Mqtt_Client.thy ===== *)
theory Mqtt_Client
  imports Coro "HOL-Library.Word"
begin

text \<open>
  \<open>AsyncMqttClient\<close> (\<open>async_mqtt_client.h\<close>): connecting, publishing, subscribing, receiving and
  the receive-driven automatic reconnect. Each member coroutine is one definition over the
  client's members; the \<open>async_mqtt::client\<close> and the Asio timers it drives are the record
  \<open>transport\<close>, a parameter.
\<close>

section \<open>Data\<close>

datatype qos = at_most_once | at_least_once | exactly_once

instantiation qos :: linorder
begin

fun qos_number :: "qos \<Rightarrow> nat" where
  "qos_number at_most_once = 0"
| "qos_number at_least_once = 1"
| "qos_number exactly_once = 2"

definition less_eq_qos :: "qos \<Rightarrow> qos \<Rightarrow> bool" where
  "less_eq_qos p q \<longleftrightarrow> qos_number p \<le> qos_number q"

definition less_qos :: "qos \<Rightarrow> qos \<Rightarrow> bool" where
  "less_qos p q \<longleftrightarrow> qos_number p < qos_number q"

instance
proof
  fix p q :: qos
  show "p \<le> q \<Longrightarrow> q \<le> p \<Longrightarrow> p = q" by (cases p; cases q) (simp_all add: less_eq_qos_def)
qed (auto simp: less_eq_qos_def less_qos_def)

end

lemma qos_above_zero [simp]: "at_most_once < q \<longleftrightarrow> q \<noteq> at_most_once"
  by (cases q) (simp_all add: less_qos_def)

type_synonym packet_id = "16 word"

record publish_packet =
  pk_id :: packet_id
  pk_topic :: string
  pk_payload :: string
  pk_qos :: qos
  pk_retain :: bool

text \<open>\<open>packet_variant\<close>: a publish packet or a packet of any other kind.\<close>

datatype packet = Publish publish_packet | Other_Packet nat

record topic_subopts =
  sub_topic :: string
  sub_qos :: qos

text \<open>\<open>RecvResult = std::expected<packet_variant, Error>\<close>: \<open>Inr\<close> the packet, \<open>Inl\<close> the error.\<close>

type_synonym recv_result = "error_code + packet"

section \<open>State of the client\<close>

datatype conn_state = Closed | Connected | Reconnecting

record client_config =
  cfg_host :: string
  cfg_port :: string
  cfg_username :: string
  cfg_password :: string
  cfg_unique_id :: string
  cfg_keep_alive :: "16 word"
  cfg_clean_start :: bool

definition default_config :: client_config where
  "default_config =
     \<lparr>cfg_host = ''localhost'', cfg_port = ''1883'', cfg_username = '''', cfg_password = '''',
      cfg_unique_id = '''', cfg_keep_alive = 0, cfg_clean_start = True\<rparr>"

text \<open>
  The members of \<open>AsyncMqttClient\<close>, each without the trailing underscore of the source: \<open>impl_\<close> (the state of the third-party client and of everything
  behind it), \<open>config_\<close>, and the fields of \<open>conn_\<close>. The record is extensible: a larger object that
  holds a client adds its own members.
\<close>

record 'w client =
  impl :: 'w
  config :: client_config
  state :: conn_state
  attempt :: int
  max_attempts :: int

definition DefaultMaxAutoreconnectAttempts :: int where
  "DefaultMaxAutoreconnectAttempts = 10"

definition AsyncMqttClient :: "'w \<Rightarrow> client_config \<Rightarrow> 'w client" where
  "AsyncMqttClient exe cfg =
     \<lparr>impl = exe, config = cfg, state = Closed, attempt = 0,
      max_attempts = DefaultMaxAutoreconnectAttempts\<rparr>"

section \<open>Third-party operations\<close>

text \<open>
  What the client calls of async_mqtt and Asio, over the full state \<open>'s\<close>. Operations awaited with
  \<open>redirect_error\<close> give the error code as (part of) their value; the acknowledgement packets
  the source only prints are left out. The three timer operations with \<open>autorec\<close> in their name are
  those of \<open>conn_.autorec_wait_timer\<close>; \<open>t_sleep\<close> is a wait of so many seconds on a fresh timer.
\<close>

record 's transport =
  t_codes :: ext_codes
  t_handshake :: "string \<Rightarrow> string \<Rightarrow> (error_code, 's) coro"
  t_start :: "bool \<Rightarrow> 16 word \<Rightarrow> string \<Rightarrow> string \<Rightarrow> string \<Rightarrow> (error_code, 's) coro"
  t_disconnect :: "(error_code, 's) coro"
  t_close :: "(error_code, 's) coro"
  t_acquire_packet_id :: "(packet_id, 's) coro"
  t_publish :: "publish_packet \<Rightarrow> (error_code, 's) coro"
  t_subscribe :: "packet_id \<Rightarrow> topic_subopts list \<Rightarrow> (error_code, 's) coro"
  t_recv :: "(error_code \<times> packet option, 's) coro"
  t_sleep :: "int \<Rightarrow> (unit, 's) coro"
  t_autorec_wait :: "(error_code, 's) coro"
  t_autorec_cancel :: "'s \<Rightarrow> 's"
  t_autorec_expires_never :: "'s \<Rightarrow> 's"

section \<open>Connecting and closing\<close>

definition async_connect ::
  "('w, 'z) client_scheme transport \<Rightarrow> (error_code, ('w, 'z) client_scheme) coro" where
  "async_connect T =
     reading (\<lambda>s. await (t_handshake T (cfg_host (config s)) (cfg_port (config s))) (\<lambda>err.
     if failed err then co_return (map_err (t_codes T) err)
     else reading (\<lambda>s. await (t_start T (cfg_clean_start (config s)) (cfg_keep_alive (config s))
            (cfg_unique_id (config s)) (cfg_username (config s)) (cfg_password (config s))) (\<lambda>err.
     if failed err then co_return (map_err (t_codes T) err)
     else assign (\<lambda>s. s\<lparr>state := Connected, attempt := 0\<rparr>)
       (co_return (make_error_code Success))))))"

definition async_disconnect ::
  "('w, 'z) client_scheme transport \<Rightarrow> (error_code, ('w, 'z) client_scheme) coro" where
  "async_disconnect T =
     await (t_disconnect T) (\<lambda>err.
     assign (\<lambda>s. t_autorec_cancel T (s\<lparr>state := Closed\<rparr>))
       (co_return (map_err (t_codes T) err)))"

definition async_close ::
  "('w, 'z) client_scheme transport \<Rightarrow> (error_code, ('w, 'z) client_scheme) coro" where
  "async_close T =
     await (t_close T) (\<lambda>err.
     assign (\<lambda>s. t_autorec_cancel T (s\<lparr>state := Closed\<rparr>))
       (co_return (map_err (t_codes T) err)))"

section \<open>Publishing and subscribing\<close>

text \<open>\<open>async_wait_autoreconnect\<close> only logs how the wait ended.\<close>

definition async_wait_autoreconnect ::
  "('w, 'z) client_scheme transport \<Rightarrow> (unit, ('w, 'z) client_scheme) coro" where
  "async_wait_autoreconnect T = await (t_autorec_wait T) (\<lambda>err. co_return ())"

text \<open>The opening of publish and subscribe: wait out a reconnect, then insist on a connection.\<close>

definition when_connected ::
  "('w, 'z) client_scheme transport \<Rightarrow> (error_code, ('w, 'z) client_scheme) coro \<Rightarrow>
   (error_code, ('w, 'z) client_scheme) coro" where
  "when_connected T body =
     await (reading (\<lambda>s. if state s = Reconnecting then async_wait_autoreconnect T else co_return ()))
       (\<lambda>_. reading (\<lambda>s. if state s \<noteq> Connected then co_return (make_error_code NotConnected)
              else body))"

definition async_publish ::
  "('w, 'z) client_scheme transport \<Rightarrow> string \<Rightarrow> string \<Rightarrow> qos \<Rightarrow> bool \<Rightarrow>
   (error_code, ('w, 'z) client_scheme) coro" where
  "async_publish T topic payload qos retain =
     when_connected T
       (await (if qos > at_most_once then t_acquire_packet_id T else co_return 0) (\<lambda>pid.
        await (t_publish T \<lparr>pk_id = pid, pk_topic = topic, pk_payload = payload, pk_qos = qos,
                 pk_retain = retain\<rparr>) (\<lambda>err.
        if failed err then co_return (map_err (t_codes T) err)
        else co_return (make_error_code Success))))"

definition async_subscribe ::
  "('w, 'z) client_scheme transport \<Rightarrow> topic_subopts list \<Rightarrow>
   (error_code, ('w, 'z) client_scheme) coro" where
  "async_subscribe T sub_entry =
     when_connected T
       (await (t_acquire_packet_id T) (\<lambda>pid_sub.
        await (t_subscribe T pid_sub sub_entry) (\<lambda>err.
        if failed err then co_return (map_err (t_codes T) err)
        else co_return (make_error_code Success))))"

section \<open>Receiving and reconnecting\<close>

text \<open>
  The loop of \<open>async_handle_reconnect\<close>. \<open>conn_.attempt++ < conn_.max_attempts\<close> increments the counter
  also when the test fails. The pause doubles up to 30 seconds.
\<close>

definition max_delay :: int where
  "max_delay = 30"

partial_function (option) reconnect_loop ::
  "('w, 'z) client_scheme transport \<Rightarrow> int \<Rightarrow> error_code \<Rightarrow> ('w, 'z) client_scheme \<Rightarrow>
   (error_code res \<times> ('w, 'z) client_scheme) option" where
  "reconnect_loop T delay err s =
     (if attempt s < max_attempts s then
        await (t_sleep T delay) (\<lambda>_.
        await (async_connect T) (\<lambda>err s.
          if \<not> failed err then
            assign (\<lambda>s. t_autorec_cancel T (s\<lparr>state := Connected\<rparr>))
              (co_return (make_error_code SessionReset)) s
          else reconnect_loop T (min (delay * 2) max_delay) err s))
          (s\<lparr>attempt := attempt s + 1\<rparr>)
      else
        assign (\<lambda>s. t_autorec_cancel T (s\<lparr>state := Closed\<rparr>)) (co_return err)
          (s\<lparr>attempt := attempt s + 1\<rparr>))"

definition async_handle_reconnect ::
  "('w, 'z) client_scheme transport \<Rightarrow> (error_code, ('w, 'z) client_scheme) coro" where
  "async_handle_reconnect T =
     reading (\<lambda>s.
       if state s = Closed then co_return (make_error_code Disconnected)
       else if state s = Reconnecting then co_return (make_error_code InternalError)
       else assign (\<lambda>s. t_autorec_expires_never T (s\<lparr>state := Reconnecting\<rparr>))
              (reconnect_loop T 1 default_error))"

definition async_recv ::
  "('w, 'z) client_scheme transport \<Rightarrow> (recv_result, ('w, 'z) client_scheme) coro" where
  "async_recv T =
     await (t_recv T) (\<lambda>(err, packet).
       if failed err then
         await (async_handle_reconnect T) (\<lambda>err_rc. co_return (Inl err_rc))
       else (case packet of
               None \<Rightarrow> co_return (Inl (make_error_code InvalidPacket))
             | Some p \<Rightarrow> co_return (Inr p)))"

end
