(* ===== verification/Transport_Laws.thy ===== *)
theory Transport_Laws
  imports Mqtt_Client
begin

text \<open>
  The interface between the client and the third-party code below it. Two contracts on a
  \<open>transport\<close> are stated as locales:

  \<^item> \<open>logged_transport\<close>: the world keeps a log of what was done on the wire, and an operation that
    completes has put its own entry into it, between whatever other coroutines did meanwhile;
  \<^item> \<open>quiet_transport\<close>: no other coroutine of the strand runs while the client is suspended, so an
    operation adds exactly its own entry and leaves the members of the client alone. Only a
    receive may wait for ever.

  The second contract gives the first. Both hold of \<open>sim_transport\<close>, a scripted broker that
  the witnesses of the development run on.
\<close>

section \<open>The wire log\<close>

datatype event =
    Slept int
  | Handshake error_code
  | Start error_code
  | Published publish_packet error_code
  | Subscribed "topic_subopts list" error_code
  | Received "error_code \<times> packet option"
  | Hung_Up error_code

definition conn_part :: "('w, 'z) client_scheme \<Rightarrow> client_config \<times> conn_state \<times> int \<times> int" where
  "conn_part s = (config s, state s, attempt s, max_attempts s)"

lemma conn_part_eq_iff [simp]:
  "conn_part s = conn_part t \<longleftrightarrow>
     config s = config t \<and> state s = state t \<and> attempt s = attempt t \<and> max_attempts s = max_attempts t"
  by (auto simp: conn_part_def)

text \<open>\<open>logs events m ev\<close>: a run of \<open>m\<close> that completes with \<open>a\<close> has logged \<open>ev a\<close>.\<close>

definition logs ::
  "('w \<Rightarrow> event list) \<Rightarrow> ('a, ('w, 'z) client_scheme) coro \<Rightarrow> ('a \<Rightarrow> event list) \<Rightarrow> bool" where
  "logs events m ev \<longleftrightarrow>
     (\<forall>s a s'. m s = Some (Ret a, s') \<longrightarrow>
        (\<exists>xs ys. events (impl s') = events (impl s) @ xs @ ev a @ ys))"

text \<open>\<open>does events m ev\<close>: \<open>m\<close> always completes, logs \<open>ev a\<close> and does nothing else to the client.\<close>

definition does ::
  "('w \<Rightarrow> event list) \<Rightarrow> ('a, ('w, 'z) client_scheme) coro \<Rightarrow> ('a \<Rightarrow> event list) \<Rightarrow> bool" where
  "does events m ev \<longleftrightarrow>
     (\<forall>s. \<exists>a s'. m s = Some (Ret a, s') \<and> conn_part s' = conn_part s \<and>
        events (impl s') = events (impl s) @ ev a)"

lemma doesE [elim]:
  assumes "does events m ev"
  obtains a s' where "m s = Some (Ret a, s')" and "conn_part s' = conn_part s"
    and "events (impl s') = events (impl s) @ ev a"
  using assms unfolding does_def by blast

lemma does_logs: "does events m ev \<Longrightarrow> logs events m ev"
  unfolding logs_def
proof (intro allI impI)
  fix s a s'
  assume "does events m ev" and run: "m s = Some (Ret a, s')"
  then have "events (impl s') = events (impl s) @ [] @ ev a @ []"
    by (auto elim!: doesE [of events m ev s])
  then show "\<exists>xs ys. events (impl s') = events (impl s) @ xs @ ev a @ ys" by blast
qed

locale logged_transport =
  fixes T :: "('w, 'z) client_scheme transport"
    and events :: "'w \<Rightarrow> event list"
  assumes handshake_logs: "logs events (t_handshake T h p) (\<lambda>e. [Handshake e])"
    and start_logs: "logs events (t_start T cl ka cid u pw) (\<lambda>e. [Start e])"
    and acquire_logs: "logs events (t_acquire_packet_id T) (\<lambda>_. [])"
    and publish_logs: "logs events (t_publish T pk) (\<lambda>e. [Published pk e])"
    and subscribe_logs: "logs events (t_subscribe T pid ts) (\<lambda>e. [Subscribed ts e])"
    and autorec_wait_logs: "logs events (t_autorec_wait T) (\<lambda>_. [])"
    and recv_logs: "logs events (t_recv T) (\<lambda>r. [Received r])"
    and sleep_logs: "logs events (t_sleep T d) (\<lambda>_. [Slept d])"
    and disconnect_logs: "logs events (t_disconnect T) (\<lambda>e. [Hung_Up e])"
    and close_logs: "logs events (t_close T) (\<lambda>e. [Hung_Up e])"
    and cancel_logs: "events (impl (t_autorec_cancel T s)) = events (impl s)"
    and never_logs: "events (impl (t_autorec_expires_never T s)) = events (impl s)"

locale quiet_transport =
  fixes T :: "('w, 'z) client_scheme transport"
    and events :: "'w \<Rightarrow> event list"
  assumes handshake_does: "does events (t_handshake T h p) (\<lambda>e. [Handshake e])"
    and start_does: "does events (t_start T cl ka cid u pw) (\<lambda>e. [Start e])"
    and acquire_does: "does events (t_acquire_packet_id T) (\<lambda>_. [])"
    and publish_does: "does events (t_publish T pk) (\<lambda>e. [Published pk e])"
    and subscribe_does: "does events (t_subscribe T pid ts) (\<lambda>e. [Subscribed ts e])"
    and autorec_wait_does: "does events (t_autorec_wait T) (\<lambda>_. [])"
    and sleep_does: "does events (t_sleep T d) (\<lambda>_. [Slept d])"
    and disconnect_does: "does events (t_disconnect T) (\<lambda>e. [Hung_Up e])"
    and close_does: "does events (t_close T) (\<lambda>e. [Hung_Up e])"
    and recv_does: "t_recv T s = Some (r, s') \<Longrightarrow>
      (\<exists>a. r = Ret a \<and> conn_part s' = conn_part s \<and>
        events (impl s') = events (impl s) @ [Received a])"
    and cancel_does: "conn_part (t_autorec_cancel T s) = conn_part s"
      "events (impl (t_autorec_cancel T s)) = events (impl s)"
    and never_does: "conn_part (t_autorec_expires_never T s) = conn_part s"
      "events (impl (t_autorec_expires_never T s)) = events (impl s)"

sublocale quiet_transport \<subseteq> logged_transport
proof unfold_locales
  show "logs events (t_recv T) (\<lambda>r. [Received r])"
    unfolding logs_def by (metis append.right_neutral append_Nil recv_does res.inject(1))
qed (rule does_logs handshake_does start_does acquire_does publish_does subscribe_does
       autorec_wait_does sleep_does disconnect_does close_does cancel_does never_does)+

section \<open>A scripted broker\<close>

text \<open>
  The results of successive operations are given by lists; an exhausted list means success, an
  exhausted list of receives means that nothing ever arrives. Packet ids count up from 1.
\<close>

record sim =
  sim_handshakes :: "error_code list"
  sim_starts :: "error_code list"
  sim_publishes :: "error_code list"
  sim_subscribes :: "error_code list"
  sim_recvs :: "(error_code \<times> packet option) list"
  sim_last_id :: packet_id
  sim_log :: "event list"

definition no_error :: error_code where
  "no_error = Error_Code 0 System_Category"

definition idle_sim :: sim where
  "idle_sim = \<lparr>sim_handshakes = [], sim_starts = [], sim_publishes = [], sim_subscribes = [],
     sim_recvs = [], sim_last_id = 0, sim_log = []\<rparr>"

definition on_world :: "('a, 'w) coro \<Rightarrow> ('a, ('w, 'z) client_scheme) coro" where
  "on_world m s = map_option (\<lambda>(r, w). (r, s\<lparr>impl := w\<rparr>)) (m (impl s))"

fun first_result :: "error_code list \<Rightarrow> error_code" where
  "first_result [] = no_error"
| "first_result (e # es) = e"

definition sim_note :: "event \<Rightarrow> sim \<Rightarrow> sim" where
  "sim_note ev w = w\<lparr>sim_log := sim_log w @ [ev]\<rparr>"

definition sim_recv :: "(error_code \<times> packet option, sim) coro" where
  "sim_recv w =
     (case sim_recvs w of
        [] \<Rightarrow> None
      | r # rs \<Rightarrow> Some (Ret r, sim_note (Received r) (w\<lparr>sim_recvs := rs\<rparr>)))"

definition sim_transport :: "ext_codes \<Rightarrow> (sim, 'z) client_scheme transport" where
  "sim_transport E =
     \<lparr>t_codes = E,
      t_handshake = (\<lambda>h p. on_world (\<lambda>w. let e = first_result (sim_handshakes w) in
        Some (Ret e, sim_note (Handshake e) (w\<lparr>sim_handshakes := tl (sim_handshakes w)\<rparr>)))),
      t_start = (\<lambda>cl ka cid u pw. on_world (\<lambda>w. let e = first_result (sim_starts w) in
        Some (Ret e, sim_note (Start e) (w\<lparr>sim_starts := tl (sim_starts w)\<rparr>)))),
      t_disconnect = on_world (\<lambda>w. Some (Ret no_error, sim_note (Hung_Up no_error) w)),
      t_close = on_world (\<lambda>w. Some (Ret no_error, sim_note (Hung_Up no_error) w)),
      t_acquire_packet_id = on_world (\<lambda>w.
        Some (Ret (sim_last_id w + 1), w\<lparr>sim_last_id := sim_last_id w + 1\<rparr>)),
      t_publish = (\<lambda>pk. on_world (\<lambda>w. let e = first_result (sim_publishes w) in
        Some (Ret e, sim_note (Published pk e) (w\<lparr>sim_publishes := tl (sim_publishes w)\<rparr>)))),
      t_subscribe = (\<lambda>pid ts. on_world (\<lambda>w. let e = first_result (sim_subscribes w) in
        Some (Ret e, sim_note (Subscribed ts e) (w\<lparr>sim_subscribes := tl (sim_subscribes w)\<rparr>)))),
      t_recv = on_world sim_recv,
      t_sleep = (\<lambda>d. on_world (\<lambda>w. Some (Ret (), sim_note (Slept d) w))),
      t_autorec_wait = on_world (\<lambda>w. Some (Ret no_error, w)),
      t_autorec_cancel = (\<lambda>s. s),
      t_autorec_expires_never = (\<lambda>s. s)\<rparr>"

definition sim_codes :: ext_codes where
  "sim_codes = \<lparr>not_authorized = 135, host_not_found = 1, host_not_found_try_again = 2,
     eof_code = 2, connection_refused = 111, not_connected = 107, packet_not_allowed_to_send = 33\<rparr>"

lemmas sim_defs =
  sim_transport_def sim_recv_def sim_note_def on_world_def idle_sim_def no_error_def

lemma does_on_world:
  assumes "\<And>w. \<exists>a w'. m w = Some (Ret a, w') \<and> events w' = events w @ ev a"
  shows "does events (on_world m) ev"
  unfolding does_def
proof
  fix s
  obtain a w' where "m (impl s) = Some (Ret a, w')" and "events w' = events (impl s) @ ev a"
    using assms by blast
  then show "\<exists>a s'. on_world m s = Some (Ret a, s') \<and> conn_part s' = conn_part s \<and>
      events (impl s') = events (impl s) @ ev a"
    by (simp add: on_world_def)
qed

lemma sim_transport_codes [simp]: "t_codes (sim_transport E) = E"
  by (simp add: sim_transport_def)

interpretation sim: quiet_transport "sim_transport E" sim_log for E
proof unfold_locales
  fix s r s' assume "t_recv (sim_transport E) s = Some (r, s')"
  then show "\<exists>a. r = Ret a \<and> conn_part s' = conn_part s \<and>
      sim_log (impl s') = sim_log (impl s) @ [Received a]"
    by (auto simp: sim_defs split: list.splits)
qed (simp_all add: sim_transport_def sim_note_def Let_def does_on_world)

end
