(* ===== verification/Reconnect.thy ===== *)
theory Reconnect
  imports Transport_Laws
begin

text \<open>
  Correctness of \<open>AsyncMqttClient\<close>: the automatic reconnect against an abstract specification of
  its wire protocol, the gate in front of publish and subscribe, and the invariant of the client's
  members over every sequence of operations.
\<close>

section \<open>The reconnect protocol\<close>

text \<open>The pause before the \<open>k\<close>-th attempt, in seconds.\<close>

definition backoff :: "nat \<Rightarrow> int" where
  "backoff k = min (2 ^ k) 30"

text \<open>
  \<open>reconnect_trace E n k err evs out\<close>: with \<open>n\<close> attempts left, the next of them the \<open>k\<close>-th, and the
  last error \<open>err\<close>, the log may show \<open>evs\<close> and the client may report \<open>out\<close>. Each attempt is a
  pause, a transport handshake, and an MQTT connect if the handshake worked.
\<close>

inductive reconnect_trace ::
  "ext_codes \<Rightarrow> nat \<Rightarrow> nat \<Rightarrow> error_code \<Rightarrow> event list \<Rightarrow> error_code \<Rightarrow> bool" for E where
  exhausted: "reconnect_trace E 0 k err [] err"
| refused: "failed h \<Longrightarrow> reconnect_trace E n (Suc k) (map_err E h) evs out \<Longrightarrow>
    reconnect_trace E (Suc n) k err (Slept (backoff k) # Handshake h # evs) out"
| rejected: "\<not> failed h \<Longrightarrow> failed c \<Longrightarrow> reconnect_trace E n (Suc k) (map_err E c) evs out \<Longrightarrow>
    reconnect_trace E (Suc n) k err (Slept (backoff k) # Handshake h # Start c # evs) out"
| connected: "\<not> failed h \<Longrightarrow> \<not> failed c \<Longrightarrow>
    reconnect_trace E (Suc n) k err [Slept (backoff k), Handshake h, Start c]
      (make_error_code SessionReset)"

fun pauses :: "event list \<Rightarrow> int list" where
  "pauses [] = []"
| "pauses (Slept d # evs) = d # pauses evs"
| "pauses (_ # evs) = pauses evs"

lemma backoff_range_Cons:
  "map backoff [k..<k + Suc m] = backoff k # map backoff [Suc k..<Suc k + m]"
  by (subst upt_conv_Cons) simp_all

lemma reconnect_trace_pauses:
  "reconnect_trace E n k err evs out \<Longrightarrow> \<exists>m\<le>n. pauses evs = map backoff [k..<k + m]"
proof (induction rule: reconnect_trace.induct)
  case (refused h n k evs out err)
  then obtain m where "m \<le> n" and "pauses evs = map backoff [Suc k..<Suc k + m]" by blast
  then show ?case by (intro exI [of _ "Suc m"]) (simp only: backoff_range_Cons pauses.simps, simp)
next
  case (rejected h c n k evs out err)
  then obtain m where "m \<le> n" and "pauses evs = map backoff [Suc k..<Suc k + m]" by blast
  then show ?case by (intro exI [of _ "Suc m"]) (simp only: backoff_range_Cons pauses.simps, simp)
next
  case (connected h c n k err)
  show ?case by (intro exI [of _ 1]) simp
qed simp

lemma reconnect_trace_error:
  "reconnect_trace E n k err evs out \<Longrightarrow> 0 < n \<or> failed err \<Longrightarrow> failed out"
  by (induction rule: reconnect_trace.induct) auto

lemma backoff_step: "min (backoff k * 2) max_delay = backoff (Suc k)"
  by (simp add: backoff_def max_delay_def min_def)

section \<open>One connection attempt\<close>

context quiet_transport
begin

lemma connect_cases:
  obtains (refused) h s' where "failed h"
    and "async_connect T s = Some (Ret (map_err (t_codes T) h), s')"
    and "conn_part s' = conn_part s" and "events (impl s') = events (impl s) @ [Handshake h]"
  | (rejected) h c s' where "\<not> failed h" and "failed c"
    and "async_connect T s = Some (Ret (map_err (t_codes T) c), s')"
    and "conn_part s' = conn_part s"
    and "events (impl s') = events (impl s) @ [Handshake h, Start c]"
  | (connected) h c s' where "\<not> failed h" and "\<not> failed c"
    and "async_connect T s = Some (Ret (make_error_code Success), s')"
    and "config s' = config s" and "state s' = Connected" and "attempt s' = 0"
    and "max_attempts s' = max_attempts s"
    and "events (impl s') = events (impl s) @ [Handshake h, Start c]"
proof -
  obtain h s1 where h: "t_handshake T (cfg_host (config s)) (cfg_port (config s)) s = Some (Ret h, s1)"
      "conn_part s1 = conn_part s" "events (impl s1) = events (impl s) @ [Handshake h]"
    using handshake_does by (rule doesE)
  obtain c s2 where c: "t_start T (cfg_clean_start (config s1)) (cfg_keep_alive (config s1))
        (cfg_unique_id (config s1)) (cfg_username (config s1)) (cfg_password (config s1)) s1 =
        Some (Ret c, s2)"
      "conn_part s2 = conn_part s1" "events (impl s2) = events (impl s1) @ [Start c]"
    using start_does by (rule doesE)
  note run = async_connect_def coro_simps
  show thesis
  proof (cases "failed h")
    case True
    with h show thesis by (intro refused [of h s1]) (simp_all add: run)
  next
    case h_ok: False
    show thesis
    proof (cases "failed c")
      case True
      with h_ok h c show thesis by (intro rejected [of h c s2]) (simp_all add: run)
    next
      case False
      with h_ok h c show thesis
        by (intro connected [of h c "s2\<lparr>state := Connected, attempt := 0\<rparr>"]) (simp_all add: run)
    qed
  qed
qed

section \<open>The reconnect loop\<close>

lemma reconnect_loop_stop:
  assumes "\<not> attempt s < max_attempts s"
  shows "\<exists>s'. reconnect_loop T d err s = Some (Ret err, s') \<and> state s' = Closed \<and>
    config s' = config s \<and> max_attempts s' = max_attempts s \<and> attempt s' = attempt s + 1 \<and>
    events (impl s') = events (impl s)"
  using assms cancel_does by (simp add: reconnect_loop.simps coro_simps)

lemma reconnect_loop_connected:
  assumes "attempt s < max_attempts s"
    and "t_sleep T d (s\<lparr>attempt := attempt s + 1\<rparr>) = Some (Ret (), s1)"
    and "async_connect T s1 = Some (Ret (make_error_code Success), s2)"
  shows "reconnect_loop T d err s =
    Some (Ret (make_error_code SessionReset), t_autorec_cancel T (s2\<lparr>state := Connected\<rparr>))"
  using assms by (simp add: reconnect_loop.simps coro_simps)

lemma reconnect_loop_again:
  assumes "attempt s < max_attempts s"
    and "t_sleep T d (s\<lparr>attempt := attempt s + 1\<rparr>) = Some (Ret (), s1)"
    and "async_connect T s1 = Some (Ret e, s2)" and "failed e"
  shows "reconnect_loop T d err s = reconnect_loop T (min (d * 2) max_delay) e s2"
  using assms by (simp add: reconnect_loop.simps [of T d err s] coro_simps)

lemma reconnect_loop_trace:
  assumes "n = nat (max_attempts s - attempt s)" and "attempt s \<le> max_attempts s"
    and "err \<noteq> make_error_code SessionReset"
  shows "\<exists>out s' evs. reconnect_loop T (backoff k) err s = Some (Ret out, s') \<and>
    events (impl s') = events (impl s) @ evs \<and>
    reconnect_trace (t_codes T) n k err evs out \<and>
    config s' = config s \<and> max_attempts s' = max_attempts s \<and>
    (out = make_error_code SessionReset \<and> state s' = Connected \<and> attempt s' = 0 \<or>
     out \<noteq> make_error_code SessionReset \<and> length (pauses evs) = n \<and> state s' = Closed \<and>
     attempt s' = max_attempts s + 1)"
  using assms
proof (induction n arbitrary: s k err)
  case 0
  then have "\<not> attempt s < max_attempts s" by simp
  from reconnect_loop_stop [OF this, of "backoff k" err] obtain s' where
    run: "reconnect_loop T (backoff k) err s = Some (Ret err, s')"
    and s': "state s' = Closed" "config s' = config s" "max_attempts s' = max_attempts s"
      "attempt s' = attempt s + 1" "events (impl s') = events (impl s) @ []"
    by auto
  with 0 show ?case
    by (intro exI [of _ err] exI [of _ s'] exI [of _ "[]"]) (simp add: reconnect_trace.exhausted)
next
  case (Suc n)
  let ?s0 = "s\<lparr>attempt := attempt s + 1\<rparr>"
  from Suc.prems have more: "attempt s < max_attempts s" by simp
  obtain u s1 where "t_sleep T (backoff k) ?s0 = Some (Ret u, s1)"
    and s1: "conn_part s1 = conn_part ?s0" "events (impl s1) = events (impl s) @ [Slept (backoff k)]"
    using doesE [OF sleep_does, of "backoff k" ?s0] by auto
  then have sleep: "t_sleep T (backoff k) ?s0 = Some (Ret (), s1)" by simp
  have retry: ?case
    if run: "async_connect T s1 = Some (Ret (map_err (t_codes T) e), s2)" and "failed e"
      and s2: "conn_part s2 = conn_part s1" "events (impl s2) = events (impl s1) @ ws"
      and pauses_ws: "\<And>evs. pauses (ws @ evs) = pauses evs"
      and trace: "\<And>evs out. reconnect_trace (t_codes T) n (Suc k) (map_err (t_codes T) e) evs out \<Longrightarrow>
        reconnect_trace (t_codes T) (Suc n) k err (Slept (backoff k) # ws @ evs) out"
    for e s2 ws
  proof -
    from s1 s2 Suc.prems have "n = nat (max_attempts s2 - attempt s2)"
      and "attempt s2 \<le> max_attempts s2" and max2: "max_attempts s2 = max_attempts s"
      and cfg2: "config s2 = config s" by simp_all
    from Suc.IH [where k = "Suc k" and err = "map_err (t_codes T) e", OF this(1,2) map_err_never_reset] obtain out s' evs where IH:
      "reconnect_loop T (backoff (Suc k)) (map_err (t_codes T) e) s2 = Some (Ret out, s')"
      "events (impl s') = events (impl s2) @ evs"
      "reconnect_trace (t_codes T) n (Suc k) (map_err (t_codes T) e) evs out"
      "config s' = config s" "max_attempts s' = max_attempts s"
      "out = make_error_code SessionReset \<and> state s' = Connected \<and> attempt s' = 0 \<or>
       out \<noteq> make_error_code SessionReset \<and> length (pauses evs) = n \<and> state s' = Closed \<and>
       attempt s' = max_attempts s + 1"
      using max2 cfg2 map_err_never_reset [of "t_codes T" e] by auto
    have "reconnect_loop T (backoff k) err s = Some (Ret out, s')"
      using reconnect_loop_again [OF more sleep run, of err] \<open>failed e\<close> IH(1) backoff_step [of k]
      by simp
    with IH(2-6) trace [OF IH(3)] s1 s2 pauses_ws show ?thesis
      by (intro exI [of _ out] exI [of _ s'] exI [of _ "Slept (backoff k) # ws @ evs"]) auto
  qed
  show ?case
  proof (cases rule: connect_cases [of s1])
    case (refused h s2)
    then show ?thesis
      by (intro retry [of h s2 "[Handshake h]"]) (auto intro: reconnect_trace.refused)
  next
    case (rejected h c s2)
    then show ?thesis
      by (intro retry [of c s2 "[Handshake h, Start c]"]) (auto intro: reconnect_trace.rejected)
  next
    case (connected h c s2)
    let ?s' = "t_autorec_cancel T (s2\<lparr>state := Connected\<rparr>)"
    have run: "reconnect_loop T (backoff k) err s = Some (Ret (make_error_code SessionReset), ?s')"
      using reconnect_loop_connected [OF more sleep connected(3)] .
    show ?thesis
      using run connected s1 cancel_does [of "s2\<lparr>state := Connected\<rparr>"]
        reconnect_trace.connected [OF connected(1,2), of "t_codes T" n k err]
      by (intro exI [of _ "make_error_code SessionReset"] exI [of _ ?s']
            exI [of _ "[Slept (backoff k), Handshake h, Start c]"]) simp
  qed
qed

lemma handle_reconnect_trace:
  assumes "state s = Connected" and "attempt s \<le> max_attempts s"
  shows "\<exists>out s' evs. async_handle_reconnect T s = Some (Ret out, s') \<and>
    events (impl s') = events (impl s) @ evs \<and>
    reconnect_trace (t_codes T) (nat (max_attempts s - attempt s)) 0 default_error evs out \<and>
    config s' = config s \<and> max_attempts s' = max_attempts s \<and>
    (out = make_error_code SessionReset \<and> state s' = Connected \<and> attempt s' = 0 \<or>
     out \<noteq> make_error_code SessionReset \<and>
     length (pauses evs) = nat (max_attempts s - attempt s) \<and>
     state s' = Closed \<and> attempt s' = max_attempts s + 1)"
proof -
  let ?s0 = "t_autorec_expires_never T (s\<lparr>state := Reconnecting\<rparr>)"
  have "backoff 0 = 1" by (simp add: backoff_def)
  then have "async_handle_reconnect T s = reconnect_loop T (backoff 0) default_error ?s0"
    using assms(1) by (simp add: async_handle_reconnect_def coro_simps)
  with reconnect_loop_trace [OF refl, where s = ?s0 and k = 0 and err = default_error]
    never_does [of "s\<lparr>state := Reconnecting\<rparr>"] assms(2)
  show ?thesis by simp
qed

section \<open>Publish and subscribe\<close>

lemma publish_connected:
  assumes "state s = Connected"
  obtains pid e s' where
    "async_publish T tp pl q r s = Some (Ret (map_err (t_codes T) e), s')"
    and "conn_part s' = conn_part s" and "q = at_most_once \<Longrightarrow> pid = 0"
    and "events (impl s') = events (impl s) @
      [Published \<lparr>pk_id = pid, pk_topic = tp, pk_payload = pl, pk_qos = q, pk_retain = r\<rparr> e]"
proof -
  let ?acq = "if q > at_most_once then t_acquire_packet_id T else co_return 0"
  obtain a sa where acq: "t_acquire_packet_id T s = Some (Ret a, sa)" "conn_part sa = conn_part s"
      "events (impl sa) = events (impl s) @ []"
    using acquire_does by (rule doesE)
  then have "\<exists>pid s1. ?acq s = Some (Ret pid, s1) \<and> conn_part s1 = conn_part s \<and>
      events (impl s1) = events (impl s) \<and> (q = at_most_once \<longrightarrow> pid = 0)"
    by (cases "q = at_most_once") (auto simp: co_return_run)
  then obtain pid s1 where pid: "?acq s = Some (Ret pid, s1)" "conn_part s1 = conn_part s"
      "events (impl s1) = events (impl s)" "q = at_most_once \<Longrightarrow> pid = 0"
    by blast
  let ?pk = "\<lparr>pk_id = pid, pk_topic = tp, pk_payload = pl, pk_qos = q, pk_retain = r\<rparr>"
  obtain e s2 where e: "t_publish T ?pk s1 = Some (Ret e, s2)" "conn_part s2 = conn_part s1"
      "events (impl s2) = events (impl s1) @ [Published ?pk e]"
    using publish_does by (rule doesE)
  have "map_err (t_codes T) e = make_error_code Success" if "\<not> failed e"
    using that by (simp add: map_err_def)
  with pid e assms have "async_publish T tp pl q r s = Some (Ret (map_err (t_codes T) e), s2)"
    by (simp add: async_publish_def when_connected_def await_def coro_simps)
  with pid e show thesis by (intro that [of e s2 pid]) simp_all
qed

lemma subscribe_connected:
  assumes "state s = Connected"
  obtains e s' where "async_subscribe T ts s = Some (Ret (map_err (t_codes T) e), s')"
    and "conn_part s' = conn_part s" and "events (impl s') = events (impl s) @ [Subscribed ts e]"
proof -
  obtain pid s1 where pid: "t_acquire_packet_id T s = Some (Ret pid, s1)" "conn_part s1 = conn_part s"
      "events (impl s1) = events (impl s) @ []"
    using acquire_does by (rule doesE)
  obtain e s2 where e: "t_subscribe T pid ts s1 = Some (Ret e, s2)" "conn_part s2 = conn_part s1"
      "events (impl s2) = events (impl s1) @ [Subscribed ts e]"
    using subscribe_does by (rule doesE)
  have "map_err (t_codes T) e = make_error_code Success" if "\<not> failed e"
    using that by (simp add: map_err_def)
  with pid e assms have "async_subscribe T ts s = Some (Ret (map_err (t_codes T) e), s2)"
    by (simp add: async_subscribe_def when_connected_def await_def coro_simps)
  with pid e show thesis by (intro that [of e s2]) simp_all
qed

end

lemma when_connected_closed:
  "state s = Closed \<Longrightarrow> when_connected T body s = Some (Ret (make_error_code NotConnected), s)"
  by (simp add: when_connected_def await_def coro_simps)

lemma when_connected_ready: "state s = Connected \<Longrightarrow> when_connected T body s = body s"
  by (simp add: when_connected_def await_def coro_simps)

lemma when_connected_waits:
  "state s = Reconnecting \<Longrightarrow> t_autorec_wait T s = Some (Ret e, s1) \<Longrightarrow>
   when_connected T body s =
     (if state s1 = Connected then body s1 else Some (Ret (make_error_code NotConnected), s1))"
  by (simp add: when_connected_def async_wait_autoreconnect_def await_def coro_simps)

end
