(* ===== verification/Client_Invariant.thy ===== *)
theory Client_Invariant
  imports Reconnect
begin

text \<open>
  What holds of an \<open>AsyncMqttClient\<close> after any sequence of its operations, and the
  properties of single operations that the layers above rest on.
\<close>

section \<open>Sequences of operations\<close>

datatype client_op =
    Do_Connect
  | Do_Disconnect
  | Do_Close
  | Do_Publish string string qos bool
  | Do_Subscribe "topic_subopts list"
  | Do_Recv

fun run_op :: "('w, 'z) client_scheme transport \<Rightarrow> client_op \<Rightarrow> ('w, 'z) client_scheme \<Rightarrow>
    ('w, 'z) client_scheme option" where
  "run_op T Do_Connect s = map_option snd (async_connect T s)"
| "run_op T Do_Disconnect s = map_option snd (async_disconnect T s)"
| "run_op T Do_Close s = map_option snd (async_close T s)"
| "run_op T (Do_Publish tp pl q r) s = map_option snd (async_publish T tp pl q r s)"
| "run_op T (Do_Subscribe ts) s = map_option snd (async_subscribe T ts s)"
| "run_op T Do_Recv s = map_option snd (async_recv T s)"

fun run_ops :: "('w, 'z) client_scheme transport \<Rightarrow> client_op list \<Rightarrow> ('w, 'z) client_scheme \<Rightarrow>
    ('w, 'z) client_scheme option" where
  "run_ops T [] s = Some s"
| "run_ops T (op # ops) s = Option.bind (run_op T op s) (run_ops T ops)"

text \<open>
  Between operations the client is never left in \<open>Reconnecting\<close>, its attempt counter stays within
  one step of its limit, and a connected client has its counter at zero: each outage gets the full
  number of attempts.
\<close>

definition client_inv :: "('w, 'z) client_scheme \<Rightarrow> bool" where
  "client_inv s \<longleftrightarrow> state s \<noteq> Reconnecting \<and> 0 \<le> attempt s \<and> attempt s \<le> max_attempts s + 1 \<and>
     0 < max_attempts s \<and> (state s = Connected \<longrightarrow> attempt s = 0)"

lemma client_inv_init: "client_inv (AsyncMqttClient w cfg)"
  by (simp add: client_inv_def AsyncMqttClient_def DefaultMaxAutoreconnectAttempts_def)

lemma client_inv_conn_part: "conn_part s' = conn_part s \<Longrightarrow> client_inv s' = client_inv s"
  by (simp add: client_inv_def)

context quiet_transport
begin

lemma recv_cases:
  assumes "client_inv s" and "async_recv T s = Some (r, s')"
  shows "\<exists>a. r = Ret a \<and> client_inv s' \<and> config s' = config s \<and> max_attempts s' = max_attempts s \<and>
    (\<forall>e. a = Inl e \<longrightarrow> failed e \<and>
       (e = make_error_code SessionReset \<longrightarrow> state s' = Connected) \<and>
       (e \<noteq> make_error_code SessionReset \<and> e \<noteq> make_error_code InvalidPacket \<longrightarrow> state s' = Closed))"
proof -
  from assms(2) obtain x s1 where recv: "t_recv T s = Some (x, s1)"
    by (auto simp: async_recv_def await_def split: Option.bind_splits)
  from recv_does [OF recv] obtain a where a: "x = Ret a" and s1: "conn_part s1 = conn_part s"
    by blast
  obtain err p where "a = (err, p)" by (cases a)
  with a have x: "x = Ret (err, p)" by simp
  from s1 assms(1) have inv1: "client_inv s1" using client_inv_conn_part by blast
  consider (packet) "\<not> failed err" | (closed) "failed err" "state s1 = Closed"
    | (connected) "failed err" "state s1 = Connected"
    using inv1 by (cases "state s1") (auto simp: client_inv_def)
  then show ?thesis
  proof cases
    case packet
    with assms(2) recv x s1 inv1 show ?thesis
      by (cases p) (auto simp: async_recv_def coro_simps)
  next
    case closed
    with assms(2) recv x s1 inv1 show ?thesis
      by (auto simp: async_recv_def async_handle_reconnect_def await_def coro_simps)
  next
    case connected
    with inv1 have zero: "attempt s1 \<le> max_attempts s1" and pos: "0 < nat (max_attempts s1 - attempt s1)"
      by (auto simp: client_inv_def)
    from handle_reconnect_trace [OF connected(2) zero] obtain out s2 evs where
      run: "async_handle_reconnect T s1 = Some (Ret out, s2)"
      and trace: "reconnect_trace (t_codes T) (nat (max_attempts s1 - attempt s1)) 0
             default_error evs out"
      and s2: "config s2 = config s1" "max_attempts s2 = max_attempts s1"
        "out = make_error_code SessionReset \<and> state s2 = Connected \<and> attempt s2 = 0 \<or>
         out \<noteq> make_error_code SessionReset \<and> state s2 = Closed \<and> attempt s2 = max_attempts s1 + 1"
      by blast
    from reconnect_trace_error [OF trace] pos have "failed out" by simp
    moreover from s2 inv1 have "client_inv s2" by (auto simp: client_inv_def)
    moreover from assms(2) recv x connected(1) run have "r = Ret (Inl out)" and "s' = s2"
      by (simp_all add: async_recv_def coro_simps)
    moreover have "config s2 = config s" and "max_attempts s2 = max_attempts s"
      using s1 s2(1,2) by simp_all
    moreover have "out = make_error_code SessionReset \<longrightarrow> state s2 = Connected"
      and "out \<noteq> make_error_code SessionReset \<longrightarrow> state s2 = Closed"
      using s2(3) by auto
    ultimately show ?thesis by simp
  qed
qed

lemma reconnect_outcome:
  assumes "client_inv s" and "state s = Connected"
  shows "\<exists>out s' evs. async_handle_reconnect T s = Some (Ret out, s') \<and>
    events (impl s') = events (impl s) @ evs \<and>
    reconnect_trace (t_codes T) (nat (max_attempts s)) 0 default_error evs out \<and>
    (if out = make_error_code SessionReset then state s' = Connected \<and> attempt s' = 0
     else failed out \<and> state s' = Closed \<and> length (pauses evs) = nat (max_attempts s))"
proof -
  from assms have zero: "attempt s = 0" and pos: "0 < nat (max_attempts s)"
    by (simp_all add: client_inv_def)
  then have "attempt s \<le> max_attempts s" by simp
  from handle_reconnect_trace [OF assms(2) this] zero obtain out s' evs where
    run: "async_handle_reconnect T s = Some (Ret out, s')"
      "events (impl s') = events (impl s) @ evs"
    and trace: "reconnect_trace (t_codes T) (nat (max_attempts s)) 0 default_error evs out"
    and s': "out = make_error_code SessionReset \<and> state s' = Connected \<and> attempt s' = 0 \<or>
      out \<noteq> make_error_code SessionReset \<and> length (pauses evs) = nat (max_attempts s) \<and>
      state s' = Closed"
    by auto
  from reconnect_trace_error [OF trace] pos have "failed out" by simp
  with run trace s' show ?thesis by auto
qed

lemma disconnect_quiet:
  "\<exists>e s'. async_disconnect T s = Some (Ret (map_err (t_codes T) e), s') \<and> state s' = Closed \<and>
     config s' = config s \<and> attempt s' = attempt s \<and> max_attempts s' = max_attempts s \<and>
     events (impl s') = events (impl s) @ [Hung_Up e]"
proof -
  obtain e s1 where "t_disconnect T s = Some (Ret e, s1)" "conn_part s1 = conn_part s"
      "events (impl s1) = events (impl s) @ [Hung_Up e]"
    using disconnect_does by (rule doesE)
  with cancel_does [of "s1\<lparr>state := Closed\<rparr>"] show ?thesis
    by (simp add: async_disconnect_def coro_simps)
qed

lemma close_quiet:
  "\<exists>e s'. async_close T s = Some (Ret (map_err (t_codes T) e), s') \<and> state s' = Closed \<and>
     config s' = config s \<and> attempt s' = attempt s \<and> max_attempts s' = max_attempts s \<and>
     events (impl s') = events (impl s) @ [Hung_Up e]"
proof -
  obtain e s1 where "t_close T s = Some (Ret e, s1)" "conn_part s1 = conn_part s"
      "events (impl s1) = events (impl s) @ [Hung_Up e]"
    using close_does by (rule doesE)
  with cancel_does [of "s1\<lparr>state := Closed\<rparr>"] show ?thesis
    by (simp add: async_close_def coro_simps)
qed

lemma run_op_inv:
  assumes "client_inv s" and "run_op T op s = Some s'"
  shows "client_inv s' \<and> config s' = config s \<and> max_attempts s' = max_attempts s"
proof (cases op)
  case Do_Connect
  with assms show ?thesis
    by (cases rule: connect_cases [of s]) (auto simp: client_inv_def)
next
  case Do_Disconnect
  with assms disconnect_quiet [of s] show ?thesis by (auto simp: client_inv_def)
next
  case Do_Close
  with assms close_quiet [of s] show ?thesis by (auto simp: client_inv_def)
next
  case (Do_Publish tp pl q r)
  show ?thesis
  proof (cases "state s = Connected")
    case True
    then show ?thesis using assms Do_Publish
      by (cases rule: publish_connected [of s tp pl q r]) (auto simp: client_inv_def)
  next
    case False
    with assms(1) have "state s = Closed" by (cases "state s") (auto simp: client_inv_def)
    with assms Do_Publish show ?thesis by (auto simp: async_publish_def when_connected_closed)
  qed
next
  case (Do_Subscribe ts)
  show ?thesis
  proof (cases "state s = Connected")
    case True
    then show ?thesis using assms Do_Subscribe
      by (cases rule: subscribe_connected [of s ts]) (auto simp: client_inv_def)
  next
    case False
    with assms(1) have "state s = Closed" by (cases "state s") (auto simp: client_inv_def)
    with assms Do_Subscribe show ?thesis by (auto simp: async_subscribe_def when_connected_closed)
  qed
next
  case Do_Recv
  with assms(2) obtain r where "async_recv T s = Some (r, s')" by auto
  from recv_cases [OF assms(1) this] show ?thesis by blast
qed

lemma run_ops_inv:
  "client_inv s \<Longrightarrow> run_ops T ops s = Some s' \<Longrightarrow>
   client_inv s' \<and> config s' = config s \<and> max_attempts s' = max_attempts s"
proof (induction ops arbitrary: s)
  case (Cons op ops)
  from Cons.prems(2) obtain s1 where "run_op T op s = Some s1" and "run_ops T ops s1 = Some s'"
    by (auto simp: Option.bind_eq_Some_conv)
  with Cons.IH [of s1] run_op_inv [OF Cons.prems(1)] show ?case by metis
qed simp

end

section \<open>Properties of the client\<close>

abbreviation sim_client :: "sim \<Rightarrow> sim client" where
  "sim_client w \<equiv> AsyncMqttClient w default_config"

text \<open>A connected client whose next two handshakes will be refused.\<close>

definition refused_by_host :: error_code where
  "refused_by_host = Error_Code (connection_refused sim_codes) System_Category"

definition flaky_client :: "sim client" where
  "flaky_client = (sim_client (idle_sim\<lparr>sim_handshakes := [refused_by_host, refused_by_host]\<rparr>))
     \<lparr>state := Connected\<rparr>"

lemmas sim_quiet = sim.quiet_transport_axioms

text \<open>
  C7: The automatic reconnect of a connected client implements the reconnect protocol. It always
  comes back; what it has done on the wire is a run of \<open>reconnect_trace\<close> with as many attempts as
  the client allows; it reports \<open>SessionReset\<close> exactly when the last attempt has gone through, and
  then the client is connected with its counter reset; otherwise it reports a real error, the one
  of the last attempt, and the client is closed.
\<close>

theorem reconnect_implements_protocol:
  assumes "quiet_transport T events" and "client_inv s" and "state s = Connected"
  shows "\<exists>out s' evs. async_handle_reconnect T s = Some (Ret out, s') \<and>
    events (impl s') = events (impl s) @ evs \<and>
    reconnect_trace (t_codes T) (nat (max_attempts s)) 0 default_error evs out \<and>
    (if out = make_error_code SessionReset then state s' = Connected \<and> attempt s' = 0
     else failed out \<and> state s' = Closed \<and> length (pauses evs) = nat (max_attempts s))"
  using quiet_transport.reconnect_outcome [OF assms] .

theorem reconnect_implements_protocol_witness:
  "\<exists>out s' evs. async_handle_reconnect (sim_transport sim_codes) flaky_client = Some (Ret out, s') \<and>
    sim_log (impl s') = sim_log (impl flaky_client) @ evs \<and>
    reconnect_trace (t_codes (sim_transport sim_codes :: sim client transport))
      (nat (max_attempts flaky_client)) 0 default_error evs out \<and>
    (if out = make_error_code SessionReset then state s' = Connected \<and> attempt s' = 0
     else failed out \<and> state s' = Closed \<and> length (pauses evs) = nat (max_attempts flaky_client))"
  by (rule reconnect_implements_protocol [OF sim_quiet])
     (simp_all add: flaky_client_def client_inv_def AsyncMqttClient_def
       DefaultMaxAutoreconnectAttempts_def)

lemma backoff_range: "1 \<le> backoff k \<and> backoff k \<le> 30"
  by (simp add: backoff_def)

lemma backoff_total:
  assumes "m \<le> 10"
  shows "sum_list (map backoff [0..<m]) \<le> 181"
proof -
  have "[0..<10] = [0..<m] @ [m..<10]"
    using assms by (metis le_add_diff_inverse upt_add_eq_append zero_le)
  then have "sum_list (map backoff [0..<10]) =
      sum_list (map backoff [0..<m]) + sum_list (map backoff [m..<10])" by simp
  moreover have "0 \<le> sum_list (map backoff [m..<10])"
    by (rule sum_list_nonneg) (auto simp: backoff_def)
  moreover have "sum_list (map backoff [0..<10]) = 181" by code_simp
  ultimately show ?thesis by linarith
qed

text \<open>
  C25: The backoff is bounded. After any operations, the reconnect of a client with the default
  limit pauses 1, 2, 4, 8, 16 and then 30 seconds before its attempts, makes at most ten of them,
  all ten before it gives up, and so waits at most 181 seconds in all.
\<close>

theorem reconnect_backoff_bounded:
  assumes "quiet_transport T events" and "run_ops T ops (AsyncMqttClient w cfg) = Some s"
    and "state s = Connected"
  shows "\<exists>out s' evs m. async_handle_reconnect T s = Some (Ret out, s') \<and>
    events (impl s') = events (impl s) @ evs \<and>
    pauses evs = map backoff [0..<m] \<and> m \<le> 10 \<and>
    (out \<noteq> make_error_code SessionReset \<longrightarrow> m = 10) \<and> sum_list (pauses evs) \<le> 181"
proof -
  from quiet_transport.run_ops_inv [OF assms(1) client_inv_init assms(2)]
  have inv: "client_inv s" and max: "max_attempts s = 10"
    by (simp_all add: AsyncMqttClient_def DefaultMaxAutoreconnectAttempts_def)
  from quiet_transport.reconnect_outcome [OF assms(1) inv assms(3)] max obtain out s' evs where
    run: "async_handle_reconnect T s = Some (Ret out, s')"
      "events (impl s') = events (impl s) @ evs"
    and trace: "reconnect_trace (t_codes T) 10 0 default_error evs out"
    and all: "out \<noteq> make_error_code SessionReset \<longrightarrow> length (pauses evs) = 10"
    by (auto split: if_splits)
  from reconnect_trace_pauses [OF trace] obtain m where "m \<le> 10" and "pauses evs = map backoff [0..<m]"
    by auto
  with run all backoff_total show ?thesis
    by (intro exI [of _ out] exI [of _ s'] exI [of _ evs] exI [of _ m]) simp
qed

theorem reconnect_backoff_bounded_witness:
  "\<exists>out s' evs m. async_handle_reconnect (sim_transport sim_codes)
        ((sim_client idle_sim)\<lparr>impl := sim_note (Start no_error) (sim_note (Handshake no_error) idle_sim),
           state := Connected\<rparr>) = Some (Ret out, s') \<and>
    sim_log (impl s') = [Handshake no_error, Start no_error] @ evs \<and>
    pauses evs = map backoff [0..<m] \<and> m \<le> 10 \<and>
    (out \<noteq> make_error_code SessionReset \<longrightarrow> m = 10) \<and> sum_list (pauses evs) \<le> 181"
proof -
  let ?s = "(sim_client idle_sim)\<lparr>impl := sim_note (Start no_error) (sim_note (Handshake no_error) idle_sim),
           state := Connected\<rparr>"
  have "run_ops (sim_transport sim_codes) [Do_Connect] (sim_client idle_sim) = Some ?s"
    by (simp add: async_connect_def AsyncMqttClient_def sim_defs coro_simps failed_def Let_def await_def)
  from reconnect_backoff_bounded [OF sim_quiet this] show ?thesis
    by (simp add: AsyncMqttClient_def sim_note_def idle_sim_def)
qed

text \<open>
  C15: Whatever is done with a fresh client, in any order, its members stay consistent: it is
  never left reconnecting, the attempt counter stays between 0 and one past its limit, it is zero
  while connected, and neither the configuration nor the limit is ever written.
\<close>

theorem client_invariant:
  assumes "quiet_transport T events" and "run_ops T ops (AsyncMqttClient w cfg) = Some s"
  shows "client_inv s \<and> config s = cfg \<and> max_attempts s = DefaultMaxAutoreconnectAttempts"
  using quiet_transport.run_ops_inv [OF assms(1) client_inv_init assms(2)]
  by (simp add: AsyncMqttClient_def)

theorem client_invariant_witness:
  "\<exists>s. run_ops (sim_transport sim_codes) [Do_Close, Do_Publish ''t'' ''p'' at_least_once False]
        (sim_client idle_sim) = Some s \<and>
     client_inv s \<and> config s = default_config \<and> max_attempts s = DefaultMaxAutoreconnectAttempts"
proof -
  have "\<exists>s. run_ops (sim_transport sim_codes) [Do_Close, Do_Publish ''t'' ''p'' at_least_once False]
        (sim_client idle_sim) = Some s"
    by (simp add: async_close_def async_publish_def when_connected_closed AsyncMqttClient_def sim_defs
        coro_simps await_def)
  then show ?thesis using client_invariant [OF sim_quiet] by blast
qed

text \<open>
  C32: An error that \<open>async_recv\<close> reports is never the success code: a caller that tests it as a
  condition, as the receive loops of the entities do, sees it. \<open>SessionReset\<close> is reported only
  by a client that is connected again; any other error but an invalid packet leaves it closed.
\<close>

theorem recv_error_is_error:
  assumes "quiet_transport T events" and "client_inv s"
    and "async_recv T s = Some (r, s')" and "r = Ret (Inl e)"
  shows "failed e \<and> (e = make_error_code SessionReset \<longrightarrow> state s' = Connected) \<and>
    (e \<noteq> make_error_code SessionReset \<and> e \<noteq> make_error_code InvalidPacket \<longrightarrow> state s' = Closed)"
  using quiet_transport.recv_cases [OF assms(1-3)] assms(4) by blast

definition eof_recv_client :: "sim client" where
  "eof_recv_client = sim_client (idle_sim\<lparr>sim_recvs := [(Error_Code 2 Misc_Category, None)]\<rparr>)"

theorem recv_error_is_error_witness:
  "\<exists>s'. async_recv (sim_transport sim_codes) eof_recv_client =
       Some (Ret (Inl (make_error_code Disconnected)), s') \<and> state s' = Closed"
proof -
  have inv: "client_inv eof_recv_client"
    by (simp add: eof_recv_client_def client_inv_init)
  have "\<exists>s'. async_recv (sim_transport sim_codes) eof_recv_client =
       Some (Ret (Inl (make_error_code Disconnected)), s')"
    by (simp add: eof_recv_client_def async_recv_def async_handle_reconnect_def AsyncMqttClient_def
        sim_defs coro_simps await_def failed_def)
  then obtain s' where "async_recv (sim_transport sim_codes) eof_recv_client =
       Some (Ret (Inl (make_error_code Disconnected)), s')" by blast
  with recv_error_is_error [OF sim_quiet inv this refl] show ?thesis by auto
qed

text \<open>
  C33: What publishing does, state by state. A closed client reports \<open>NotConnected\<close> and touches nothing. A
  reconnecting client waits once, and then publishes if the wait has ended with the client connected and
  reports \<open>NotConnected\<close> if not. A connected client puts exactly one publish packet on the wire, with the
  topic, payload, quality of service and retain flag it was given, and with packet id 0 when the quality of
  service is at most once; the result is the mapped result of that one transmission.
\<close>

theorem publish_gate:
  assumes "quiet_transport T events"
  shows "(state s = Closed \<longrightarrow> async_publish T tp pl q r s = Some (Ret (make_error_code NotConnected), s)) \<and>
   (\<forall>e s1. state s = Reconnecting \<and> t_autorec_wait T s = Some (Ret e, s1) \<longrightarrow>
      async_publish T tp pl q r s =
        (if state s1 = Connected then async_publish T tp pl q r s1
         else Some (Ret (make_error_code NotConnected), s1))) \<and>
   (state s = Connected \<longrightarrow> (\<exists>pid e s'. async_publish T tp pl q r s = Some (Ret (map_err (t_codes T) e), s') \<and>
      (q = at_most_once \<longrightarrow> pid = 0) \<and> conn_part s' = conn_part s \<and>
      events (impl s') = events (impl s) @
        [Published \<lparr>pk_id = pid, pk_topic = tp, pk_payload = pl, pk_qos = q, pk_retain = r\<rparr> e]))"
proof (intro conjI impI)
  assume "state s = Connected"
  then show "\<exists>pid e s'. async_publish T tp pl q r s = Some (Ret (map_err (t_codes T) e), s') \<and>
      (q = at_most_once \<longrightarrow> pid = 0) \<and> conn_part s' = conn_part s \<and>
      events (impl s') = events (impl s) @
        [Published \<lparr>pk_id = pid, pk_topic = tp, pk_payload = pl, pk_qos = q, pk_retain = r\<rparr> e]"
    by (rule quiet_transport.publish_connected [OF assms, of s tp pl q r]) blast
qed (auto simp: async_publish_def when_connected_closed when_connected_ready when_connected_waits)

theorem publish_gate_witness:
  "async_publish (sim_transport sim_codes) ''t'' ''p'' at_most_once True (sim_client idle_sim) =
     Some (Ret (make_error_code NotConnected), sim_client idle_sim) \<and>
   (\<exists>pid e s'. async_publish (sim_transport sim_codes) ''t'' ''p'' at_most_once True flaky_client =
       Some (Ret (map_err sim_codes e), s') \<and>
     sim_log (impl s') = sim_log (impl flaky_client) @
       [Published \<lparr>pk_id = pid, pk_topic = ''t'', pk_payload = ''p'', pk_qos = at_most_once, pk_retain = True\<rparr> e])"
proof -
  note gate = publish_gate [OF sim_quiet [of sim_codes], where tp = "''t''" and pl = "''p''" and q = at_most_once and r = True]
  show ?thesis
    using gate [of "sim_client idle_sim"] gate [of flaky_client] by (auto simp: AsyncMqttClient_def flaky_client_def)
qed

end
