(* ===== verification/Client_Sched.thy ===== *)
theory Client_Sched
  imports Client_Invariant
begin

text \<open>
  Coroutines of one \<open>AsyncMqttClient\<close> on its strand. \<open>Mqtt_Client\<close> has each coroutine as a whole; here
  the same bodies are cut at their suspension points, and any number of coroutines run
  interleaved, one piece at a time. A piece is one definition; the step relation \<open>strand_step\<close>
  says which pieces may run next and leaves the results of the third-party operations open.
\<close>

section \<open>State\<close>

text \<open>
  Where a coroutine is suspended. A publish or subscribe waits for a reconnect (\<open>Waiting\<close>, then
  \<open>Woken\<close> when the timer has been cancelled) or is inside the third-party client (\<open>Sending\<close>). A
  receive is inside the third-party client or in the reconnect loop, there in the pause, the
  handshake or the MQTT connect, with the next pause as parameter.
\<close>

datatype pc =
    Waiting
  | Woken
  | Sending
  | Receiving
  | Sleeping int
  | Handshaking int
  | Starting int
  | Connect_Handshake
  | Connect_Start
  | Closing
  | Returned error_code
  | Received recv_result

record 'w strand = "'w client" +
  pcs :: "nat \<Rightarrow> pc option"

type_synonym ('w, 'z) piece = "nat \<Rightarrow> ('w, 'z) strand_scheme \<Rightarrow> ('w, 'z) strand_scheme"

definition goto :: "pc \<Rightarrow> ('w, 'z) piece" where
  "goto l p s = s\<lparr>pcs := (pcs s)(p := Some l)\<rparr>"

text \<open>Cancelling \<open>autorec_wait_timer\<close>, by \<open>cancel\<close> or by setting a new expiry: all waits end.\<close>

definition wake_all :: "('w, 'z) strand_scheme \<Rightarrow> ('w, 'z) strand_scheme" where
  "wake_all s = s\<lparr>pcs := (\<lambda>p. if pcs s p = Some Waiting then Some Woken else pcs s p)\<rparr>"

section \<open>The pieces\<close>

text \<open>Publish and subscribe: up to the wait, from the wait to the call, and the end.\<close>

definition pass_gate :: "('w, 'z) piece" where
  "pass_gate p s =
     (if state s \<noteq> Connected then goto (Returned (make_error_code NotConnected)) p s else goto Sending p s)"

definition send_begin :: "('w, 'z) piece" where
  "send_begin p s = (if state s = Reconnecting then goto Waiting p s else pass_gate p s)"

definition send_end :: "ext_codes \<Rightarrow> error_code \<Rightarrow> ('w, 'z) piece" where
  "send_end E err p s =
     goto (Returned (if failed err then map_err E err else make_error_code Success)) p s"

text \<open>The head of the reconnect loop: the test with its increment, and the exit when it fails.\<close>

definition loop_head :: "int \<Rightarrow> error_code \<Rightarrow> ('w, 'z) piece" where
  "loop_head delay err p s =
     (if attempt s < max_attempts s then goto (Sleeping delay) p (s\<lparr>attempt := attempt s + 1\<rparr>)
      else goto (Received (Inl err)) p (wake_all (s\<lparr>attempt := attempt s + 1, state := Closed\<rparr>)))"

definition recv_end :: "error_code \<Rightarrow> packet option \<Rightarrow> ('w, 'z) piece" where
  "recv_end err packet p s =
     (if failed err then
        (if state s = Closed then goto (Received (Inl (make_error_code Disconnected))) p s
         else if state s = Reconnecting then goto (Received (Inl (make_error_code InternalError))) p s
         else loop_head 1 default_error p (wake_all (s\<lparr>state := Reconnecting\<rparr>)))
      else (case packet of
              None \<Rightarrow> goto (Received (Inl (make_error_code InvalidPacket))) p s
            | Some pk \<Rightarrow> goto (Received (Inr pk)) p s))"

definition pause_end :: "int \<Rightarrow> ('w, 'z) piece" where
  "pause_end delay p s = goto (Handshaking (min (delay * 2) max_delay)) p s"

text \<open>\<open>async_connect\<close> inside the loop: its two suspensions, and the loop body after it.\<close>

definition handshake_end :: "ext_codes \<Rightarrow> error_code \<Rightarrow> int \<Rightarrow> ('w, 'z) piece" where
  "handshake_end E err delay p s =
     (if failed err then loop_head delay (map_err E err) p s else goto (Starting delay) p s)"

definition start_end :: "ext_codes \<Rightarrow> error_code \<Rightarrow> int \<Rightarrow> ('w, 'z) piece" where
  "start_end E err delay p s =
     (if failed err then loop_head delay (map_err E err) p s
      else goto (Received (Inl (make_error_code SessionReset))) p
        (wake_all (s\<lparr>state := Connected, attempt := 0\<rparr>)))"

text \<open>\<open>async_connect\<close> called by the program, and \<open>async_close\<close> or \<open>async_disconnect\<close>.\<close>

definition connect_handshake_end :: "ext_codes \<Rightarrow> error_code \<Rightarrow> ('w, 'z) piece" where
  "connect_handshake_end E err p s =
     (if failed err then goto (Returned (map_err E err)) p s else goto Connect_Start p s)"

definition connect_start_end :: "ext_codes \<Rightarrow> error_code \<Rightarrow> ('w, 'z) piece" where
  "connect_start_end E err p s =
     (if failed err then goto (Returned (map_err E err)) p s
      else goto (Returned (make_error_code Success)) p (s\<lparr>state := Connected, attempt := 0\<rparr>))"

definition close_end :: "ext_codes \<Rightarrow> error_code \<Rightarrow> ('w, 'z) piece" where
  "close_end E err p s = goto (Returned (map_err E err)) p (wake_all (s\<lparr>state := Closed\<rparr>))"

section \<open>Steps\<close>

inductive strand_step ::
  "ext_codes \<Rightarrow> ('w, 'z) strand_scheme \<Rightarrow> ('w, 'z) strand_scheme \<Rightarrow> bool" for E where
  begin_send: "pcs s p = None \<Longrightarrow> strand_step E s (send_begin p s)"
| begin_recv: "pcs s p = None \<Longrightarrow> strand_step E s (goto Receiving p s)"
| begin_connect: "pcs s p = None \<Longrightarrow> strand_step E s (goto Connect_Handshake p s)"
| begin_close: "pcs s p = None \<Longrightarrow> strand_step E s (goto Closing p s)"
| resume: "pcs s p = Some Woken \<Longrightarrow> strand_step E s (pass_gate p s)"
| end_send: "pcs s p = Some Sending \<Longrightarrow> strand_step E s (send_end E err p s)"
| end_recv: "pcs s p = Some Receiving \<Longrightarrow> strand_step E s (recv_end err packet p s)"
| end_pause: "pcs s p = Some (Sleeping d) \<Longrightarrow> strand_step E s (pause_end d p s)"
| end_handshake: "pcs s p = Some (Handshaking d) \<Longrightarrow> strand_step E s (handshake_end E err d p s)"
| end_start: "pcs s p = Some (Starting d) \<Longrightarrow> strand_step E s (start_end E err d p s)"
| end_connect_handshake: "pcs s p = Some Connect_Handshake \<Longrightarrow>
    strand_step E s (connect_handshake_end E err p s)"
| end_connect_start: "pcs s p = Some Connect_Start \<Longrightarrow> strand_step E s (connect_start_end E err p s)"
| end_close: "pcs s p = Some Closing \<Longrightarrow> strand_step E s (close_end E err p s)"

definition strand_init :: "'w \<Rightarrow> client_config \<Rightarrow> 'w strand" where
  "strand_init w cfg =
     \<lparr>impl = w, config = cfg, state = Closed, attempt = 0,
      max_attempts = DefaultMaxAutoreconnectAttempts, pcs = Map.empty\<rparr>"

inductive strand_reachable :: "ext_codes \<Rightarrow> ('w, unit) strand_scheme \<Rightarrow> bool" for E where
  start: "strand_reachable E (strand_init w cfg)"
| step: "strand_reachable E s \<Longrightarrow> strand_step E s s' \<Longrightarrow> strand_reachable E s'"

inductive_cases strand_stepE: "strand_step E s s'"

section \<open>No lost wake-up\<close>

fun in_loop :: "pc option \<Rightarrow> bool" where
  "in_loop (Some (Sleeping d)) = True"
| "in_loop (Some (Handshaking d)) = True"
| "in_loop (Some (Starting d)) = True"
| "in_loop _ = False"

definition loop_active :: "('w, 'z) strand_scheme \<Rightarrow> bool" where
  "loop_active s \<longleftrightarrow> (\<exists>p. in_loop (pcs s p))"

text \<open>
  A reconnecting client has a coroutine in the reconnect loop, and as long as anything waits for a
  reconnect there is one.
\<close>

definition strand_inv :: "('w, 'z) strand_scheme \<Rightarrow> bool" where
  "strand_inv s \<longleftrightarrow>
     (state s = Reconnecting \<longrightarrow> loop_active s) \<and> ((\<exists>p. pcs s p = Some Waiting) \<longrightarrow> loop_active s)"

lemmas piece_defs =
  pass_gate_def send_begin_def send_end_def recv_end_def pause_end_def handshake_end_def
  start_end_def connect_handshake_end_def connect_start_end_def close_end_def loop_head_def

lemma goto_simps [simp]:
  "state (goto l p s) = state s" "attempt (goto l p s) = attempt s"
  "max_attempts (goto l p s) = max_attempts s" "pcs (goto l p s) = (pcs s)(p := Some l)"
  by (simp_all add: goto_def)

lemma wake_simps [simp]:
  "state (wake_all s) = state s" "attempt (wake_all s) = attempt s"
  "max_attempts (wake_all s) = max_attempts s"
  "pcs (wake_all s) p = (if pcs s p = Some Waiting then Some Woken else pcs s p)"
  by (simp_all add: wake_all_def)

lemma loop_active_goto: "\<not> in_loop (pcs s p) \<Longrightarrow> loop_active s \<Longrightarrow> loop_active (goto l p s)"
  unfolding loop_active_def by (metis fun_upd_other goto_simps(4))

lemma inv_goto: "strand_inv s \<Longrightarrow> \<not> in_loop (pcs s p) \<Longrightarrow> l \<noteq> Waiting \<Longrightarrow> strand_inv (goto l p s)"
  unfolding strand_inv_def using loop_active_goto [of s p l] by (auto split: if_splits)

lemma inv_wait: "strand_inv s \<Longrightarrow> \<not> in_loop (pcs s p) \<Longrightarrow> state s = Reconnecting \<Longrightarrow>
    strand_inv (goto Waiting p s)"
  unfolding strand_inv_def using loop_active_goto [of s p Waiting] by auto

lemma inv_loop: "in_loop (Some l) \<Longrightarrow> strand_inv (goto l p s)"
  unfolding strand_inv_def loop_active_def by (metis fun_upd_same goto_simps(4))

lemma inv_wake: "state s \<noteq> Reconnecting \<Longrightarrow> l \<noteq> Waiting \<Longrightarrow> strand_inv (goto l p (wake_all s))"
  unfolding strand_inv_def by simp

lemma inv_loop_head: "strand_inv (loop_head d err p s)"
  by (simp add: loop_head_def inv_loop inv_wake)

lemma inv_connected:
  assumes "strand_inv s" and "\<not> in_loop (pcs s p)" and "l \<noteq> Waiting"
  shows "strand_inv (goto l p (s\<lparr>state := Connected, attempt := n\<rparr>))"
proof (rule inv_goto [OF _ _ assms(3)])
  show "strand_inv (s\<lparr>state := Connected, attempt := n\<rparr>)"
    using assms(1) by (simp add: strand_inv_def loop_active_def)
qed (use assms(2) in simp)

lemma strand_step_inv:
  assumes "strand_step E s s'" and "strand_inv s"
  shows "strand_inv s'"
  using assms(1)
proof (cases rule: strand_step.cases)
  case (begin_send p)
  with assms(2) show ?thesis by (auto simp: send_begin_def pass_gate_def intro: inv_goto inv_wait)
next
  case (end_recv p err packet)
  with assms(2) show ?thesis
    by (auto simp: recv_end_def intro: inv_goto inv_loop_head split: option.split)
next
  case (end_handshake p d err)
  then show ?thesis by (simp add: handshake_end_def inv_loop inv_loop_head)
next
  case (end_start p d err)
  then show ?thesis by (simp add: start_end_def inv_loop_head inv_wake)
next
  case (end_connect_start p err)
  with assms(2) show ?thesis by (auto simp: connect_start_end_def intro: inv_goto inv_connected)
qed (use assms(2) in \<open>auto simp: pass_gate_def send_end_def pause_end_def connect_handshake_end_def
       close_end_def intro: inv_goto inv_loop inv_wake\<close>)

lemma strand_reachable_inv: "strand_reachable E s \<Longrightarrow> strand_inv s"
proof (induction rule: strand_reachable.induct)
  case (start w cfg)
  show ?case by (simp add: strand_inv_def strand_init_def)
next
  case (step s s')
  then show ?case by (blast intro: strand_step_inv)
qed

text \<open>A waiting coroutine moves only by being woken.\<close>

lemma waiting_step:
  assumes "strand_step E s s'" and "pcs s p = Some Waiting"
  shows "pcs s' p = Some Waiting \<or> pcs s' p = Some Woken"
  using assms(1)
  by (cases rule: strand_step.cases) (use assms(2) in \<open>auto simp: piece_defs split: if_splits option.splits\<close>)

text \<open>
  C1: In every reachable state a reconnecting client has a coroutine in the reconnect loop, and as
  long as any publish or subscribe waits for the reconnect there is one; the step that ends the
  last loop wakes all that wait. This is for any interleaving of any number of coroutines.
\<close>

theorem no_lost_wakeup:
  assumes "strand_reachable E s" and "strand_step E s s'"
  shows "(state s = Reconnecting \<longrightarrow> loop_active s) \<and> (pcs s p = Some Waiting \<longrightarrow> loop_active s) \<and>
    (pcs s p = Some Waiting \<and> \<not> loop_active s' \<longrightarrow> pcs s' p = Some Woken)"
proof -
  note inv = strand_reachable_inv [OF assms(1)]
  from inv assms(2) have "strand_inv s'" by (blast intro: strand_step_inv)
  with inv waiting_step [OF assms(2), of p] show ?thesis unfolding strand_inv_def by blast
qed

text \<open>
  A run: coroutine 1 connects, 2 receives, the connection breaks and 2 enters the reconnect loop;
  3 closes the client.
\<close>

definition net_ok :: error_code where
  "net_ok = Error_Code 0 System_Category"

definition net_eof :: error_code where
  "net_eof = Error_Code 2 Misc_Category"

definition run_connected :: "ext_codes \<Rightarrow> sim strand" where
  "run_connected E = connect_start_end E net_ok 1 (connect_handshake_end E net_ok 1
     (goto Connect_Handshake 1 (strand_init idle_sim default_config)))"

definition run_closing :: "ext_codes \<Rightarrow> sim strand" where
  "run_closing E = goto Closing 3 (recv_end net_eof None 2 (goto Receiving 2 (run_connected E)))"

definition run_closed :: "ext_codes \<Rightarrow> sim strand" where
  "run_closed E = close_end E net_ok 3 (run_closing E)"

definition run_back :: "ext_codes \<Rightarrow> sim strand" where
  "run_back E = start_end E net_ok 2 2 (handshake_end E net_ok 2 2 (pause_end 1 2 (run_closed E)))"

lemmas run_defs =
  run_connected_def run_closing_def run_closed_def run_back_def net_ok_def net_eof_def
  strand_init_def goto_def wake_all_def piece_defs failed_def max_delay_def
  DefaultMaxAutoreconnectAttempts_def

lemma map_net_ok: "map_err E net_ok = make_error_code Success"
  using map_err_range [of E net_ok] by (auto simp: net_ok_def failed_def)

lemma run_connected_reachable: "strand_reachable E (run_connected E)"
  unfolding run_connected_def
  by (intro strand_reachable.step [OF _ strand_step.end_connect_start]
      strand_reachable.step [OF _ strand_step.end_connect_handshake]
      strand_reachable.step [OF _ strand_step.begin_connect] strand_reachable.start)
    (simp_all add: run_defs)

lemma run_closing_reachable: "strand_reachable E (run_closing E)"
  unfolding run_closing_def
  by (intro strand_reachable.step [OF _ strand_step.begin_close]
      strand_reachable.step [OF _ strand_step.end_recv]
      strand_reachable.step [OF _ strand_step.begin_recv] run_connected_reachable)
    (simp_all add: run_defs)

theorem no_lost_wakeup_witness:
  "state (goto Waiting 4 (recv_end net_eof None 2 (goto Receiving 2 (run_connected sim_codes)))) = Reconnecting \<and>
   loop_active (goto Waiting 4 (recv_end net_eof None 2 (goto Receiving 2 (run_connected sim_codes))))"
proof -
  let ?s1 = "recv_end net_eof None 2 (goto Receiving 2 (run_connected sim_codes))"
  have s1: "strand_reachable sim_codes ?s1"
    by (intro strand_reachable.step [OF _ strand_step.end_recv]
        strand_reachable.step [OF _ strand_step.begin_recv] run_connected_reachable)
      (simp_all add: run_defs)
  have wait: "send_begin 4 ?s1 = goto Waiting 4 ?s1" by (simp add: run_defs)
  have "strand_step sim_codes ?s1 (send_begin 4 ?s1)"
    by (rule strand_step.begin_send) (simp add: run_defs)
  then have s: "strand_reachable sim_codes (goto Waiting 4 ?s1)"
    using s1 unfolding wait by (blast intro: strand_reachable.step)
  have "strand_step sim_codes (goto Waiting 4 ?s1) (pause_end 1 2 (goto Waiting 4 ?s1))"
    by (rule strand_step.end_pause) (simp add: run_defs)
  from no_lost_wakeup [OF s this, of 4] show ?thesis by (simp add: run_defs)
qed

text \<open>
  C26: Closing a client does not stop a reconnect that has begun: there is a run in which the close
  returns with success, the client is closed, no coroutine is started afterwards, and yet the
  client ends connected, because the reconnect loop does not look at the state when its pause ends.
\<close>

theorem close_does_not_stop_reconnect:
  "\<exists>s0 s t :: sim strand. strand_reachable E s0 \<and> pcs s0 3 = Some Closing \<and> strand_step E s0 s \<and>
     pcs s 3 = Some (Returned (make_error_code Success)) \<and> state s = Closed \<and>
     (strand_step E)\<^sup>*\<^sup>* s t \<and> {p. pcs t p \<noteq> None} = {p. pcs s p \<noteq> None} \<and> state t = Connected"
proof (intro exI conjI)
  show "strand_reachable E (run_closing E)" by (rule run_closing_reachable)
  show "pcs (run_closing E) 3 = Some Closing" by (simp add: run_closing_def)
  show "strand_step E (run_closing E) (run_closed E)"
    unfolding run_closed_def by (rule strand_step.end_close) (simp add: run_closing_def)
  show "pcs (run_closed E) 3 = Some (Returned (make_error_code Success))"
    by (simp add: run_closed_def close_end_def map_net_ok)
  show "state (run_closed E) = Closed" by (simp add: run_closed_def close_end_def)
  have "strand_step E (run_closed E) (pause_end 1 2 (run_closed E))"
    by (rule strand_step.end_pause) (simp add: run_defs)
  moreover have "strand_step E (pause_end 1 2 (run_closed E))
      (handshake_end E net_ok 2 2 (pause_end 1 2 (run_closed E)))"
    by (rule strand_step.end_handshake) (simp add: run_defs)
  moreover have "strand_step E (handshake_end E net_ok 2 2 (pause_end 1 2 (run_closed E))) (run_back E)"
    unfolding run_back_def by (rule strand_step.end_start) (simp add: run_defs)
  ultimately show "(strand_step E)\<^sup>*\<^sup>* (run_closed E) (run_back E)"
    by (meson converse_rtranclp_into_rtranclp rtranclp.rtrancl_refl)
  show "{p. pcs (run_back E) p \<noteq> None} = {p. pcs (run_closed E) p \<noteq> None}"
    by (auto simp: run_defs)
  show "state (run_back E) = Connected" by (simp add: run_defs)
qed

fun connecting :: "pc option \<Rightarrow> bool" where
  "connecting (Some Connect_Handshake) = True"
| "connecting (Some Connect_Start) = True"
| "connecting _ = False"

definition at_rest :: "('w, 'z) strand_scheme \<Rightarrow> bool" where
  "at_rest s \<longleftrightarrow> state s = Closed \<and> (\<forall>p. \<not> in_loop (pcs s p) \<and> \<not> connecting (pcs s p))"

lemma at_rest_goto:
  "at_rest s \<Longrightarrow> \<not> in_loop (Some l) \<Longrightarrow> \<not> connecting (Some l) \<Longrightarrow> at_rest (goto l p s)"
  by (simp add: at_rest_def)

lemma at_rest_wake: "at_rest s \<Longrightarrow> at_rest (wake_all (s\<lparr>state := Closed\<rparr>))"
  by (auto simp: at_rest_def)

text \<open>
  C27: A closed client with no reconnect loop and no connect under way comes back only when the
  program calls \<open>async_connect\<close>: every other step leaves it closed, without a loop.
\<close>

theorem closed_stays_closed:
  assumes "at_rest s" and "strand_step E s s'"
  shows "at_rest s' \<or> (\<exists>p. pcs s p = None \<and> pcs s' p = Some Connect_Handshake)"
proof -
  have rest: "state s = Closed" "\<And>p. \<not> in_loop (pcs s p)" "\<And>p. \<not> connecting (pcs s p)"
    using assms(1) by (simp_all add: at_rest_def)
  from assms(2) show ?thesis
  proof (cases rule: strand_step.cases)
    case (begin_connect p)
    then show ?thesis by auto
  next
    case (end_recv p err packet)
    with assms(1) rest(1) show ?thesis
      by (auto simp: recv_end_def intro: at_rest_goto split: option.split)
  next
    case (end_close p err)
    with assms(1) show ?thesis by (auto simp: close_end_def intro: at_rest_goto at_rest_wake)
  next
    case (end_pause p d)
    with rest(2) [of p] show ?thesis by simp
  next
    case (end_handshake p d err)
    with rest(2) [of p] show ?thesis by simp
  next
    case (end_start p d err)
    with rest(2) [of p] show ?thesis by simp
  next
    case (end_connect_handshake p err)
    with rest(3) [of p] show ?thesis by simp
  next
    case (end_connect_start p err)
    with rest(3) [of p] show ?thesis by simp
  qed (use assms(1) rest(1) in \<open>auto simp: send_begin_def pass_gate_def send_end_def intro: at_rest_goto\<close>)
qed

theorem closed_stays_closed_witness:
  "at_rest (goto Receiving 1 (strand_init idle_sim default_config)) \<and>
   at_rest (recv_end net_eof None 1 (goto Receiving 1 (strand_init idle_sim default_config)))"
proof -
  let ?s = "goto Receiving 1 (strand_init idle_sim default_config)"
  have s: "at_rest ?s" by (simp add: at_rest_def strand_init_def)
  have "strand_step sim_codes ?s (recv_end net_eof None 1 ?s)" by (rule strand_step.end_recv) simp
  from closed_stays_closed [OF s this] s show ?thesis
    by (auto simp: recv_end_def strand_init_def net_eof_def failed_def split: if_splits)
qed

section \<open>The sequential model is one of the interleavings\<close>

text \<open>The members of the two models agree.\<close>

definition agrees :: "('w, 'z) client_scheme \<Rightarrow> ('v, 'y) strand_scheme \<Rightarrow> bool" where
  "agrees s g \<longleftrightarrow> state s = state g \<and> attempt s = attempt g \<and> max_attempts s = max_attempts g"

lemma strand_two: "strand_step E a b \<Longrightarrow> strand_step E b c \<Longrightarrow> (strand_step E)\<^sup>*\<^sup>* c d \<Longrightarrow> (strand_step E)\<^sup>*\<^sup>* a d"
  by (meson converse_rtranclp_into_rtranclp)

lemma strand_three: "strand_step E a b \<Longrightarrow> strand_step E b c \<Longrightarrow> strand_step E c d \<Longrightarrow>
    (strand_step E)\<^sup>*\<^sup>* d e \<Longrightarrow> (strand_step E)\<^sup>*\<^sup>* a e"
  by (meson converse_rtranclp_into_rtranclp)

context quiet_transport
begin

text \<open>
  A run of the reconnect loop, alone on the strand, is a sequence of steps from the head of the
  loop to its result.
\<close>

lemma loop_simulated:
  fixes g :: "('v, 'y) strand_scheme"
  assumes "n = nat (max_attempts s - attempt s)" and "agrees s g"
    and "reconnect_loop T d err s = Some (r, s')"
  shows "\<exists>e g'. r = Ret e \<and> (strand_step (t_codes T))\<^sup>*\<^sup>* (loop_head d err p g) g' \<and> agrees s' g' \<and>
    pcs g' p = Some (Received (Inl e))"
  using assms
proof (induction n arbitrary: s g d err)
  case 0
  then have stop: "\<not> attempt s < max_attempts s" by simp
  from reconnect_loop_stop [OF this, of d err] 0(3) have "r = Ret err" "state s' = Closed"
    "max_attempts s' = max_attempts s" "attempt s' = attempt s + 1" by auto
  with stop 0(2) show ?case
    by (intro exI [of _ err] exI [of _ "loop_head d err p g"]) (simp add: agrees_def loop_head_def)
next
  case (Suc n)
  then have go: "attempt s < max_attempts s" by simp
  let ?d = "min (d * 2) max_delay"
  let ?g1 = "goto (Sleeping d) p (g\<lparr>attempt := attempt g + 1\<rparr>)"
  let ?g2 = "pause_end d p ?g1"
  have head: "loop_head d err p g = ?g1" using go Suc.prems(2) by (simp add: loop_head_def agrees_def)
  have pause: "strand_step (t_codes T) ?g1 ?g2" by (rule strand_step.end_pause) simp
  have at2: "pcs ?g2 p = Some (Handshaking ?d)" by (simp add: pause_end_def)
  obtain s1 where sleep: "t_sleep T d (s\<lparr>attempt := attempt s + 1\<rparr>) = Some (Ret (), s1)"
    and s1: "conn_part s1 = conn_part (s\<lparr>attempt := attempt s + 1\<rparr>)"
    using sleep_does [of d] by (auto elim!: doesE [of events _ _ "s\<lparr>attempt := attempt s + 1\<rparr>"])
  have again: "\<exists>e g'. r = Ret e \<and> (strand_step (t_codes T))\<^sup>*\<^sup>* (loop_head ?d e1 p g3) g' \<and> agrees s' g' \<and>
      pcs g' p = Some (Received (Inl e))"
    if "async_connect T s1 = Some (Ret e1, s2)" and "failed e1" and "conn_part s2 = conn_part s1"
      and "state g3 = state g" "attempt g3 = attempt g + 1" "max_attempts g3 = max_attempts g"
    for e1 s2 and g3 :: "('v, 'y) strand_scheme"
  proof (rule Suc.IH)
    show "reconnect_loop T ?d e1 s2 = Some (r, s')"
      using reconnect_loop_again [OF go sleep that(1,2)] Suc.prems(3) by simp
  qed (use that s1 Suc.prems(1,2) in \<open>simp_all add: agrees_def\<close>)
  show ?case
  proof (cases rule: connect_cases [of s1])
    case (refused h s2)
    let ?g3 = "handshake_end (t_codes T) h ?d p ?g2"
    have "strand_step (t_codes T) ?g2 ?g3" by (rule strand_step.end_handshake) (fact at2)
    moreover have "?g3 = loop_head ?d (map_err (t_codes T) h) p ?g2" using refused by (simp add: handshake_end_def)
    moreover note again [OF refused(2) _ refused(3), of ?g2]
    ultimately show ?thesis using refused(1) pause unfolding head
      by (auto simp: pause_end_def intro: strand_two)
  next
    case (rejected h c s2)
    let ?g3 = "handshake_end (t_codes T) h ?d p ?g2"
    let ?g4 = "start_end (t_codes T) c ?d p ?g3"
    have step3: "strand_step (t_codes T) ?g2 ?g3" by (rule strand_step.end_handshake) (fact at2)
    have step4: "strand_step (t_codes T) ?g3 ?g4"
      by (rule strand_step.end_start) (use rejected in \<open>simp add: handshake_end_def\<close>)
    have g4: "?g4 = loop_head ?d (map_err (t_codes T) c) p ?g3"
      using rejected by (simp add: start_end_def)
    have "\<exists>e g'. r = Ret e \<and> (strand_step (t_codes T))\<^sup>*\<^sup>* ?g4 g' \<and> agrees s' g' \<and>
        pcs g' p = Some (Received (Inl e))"
      unfolding g4 by (rule again [OF rejected(3) _ rejected(4)])
        (use rejected(1,2) in \<open>simp_all add: pause_end_def handshake_end_def\<close>)
    with strand_three [OF pause step3 step4] show ?thesis unfolding head by blast
  next
    case (connected h c s2)
    let ?g3 = "handshake_end (t_codes T) h ?d p ?g2"
    let ?g4 = "start_end (t_codes T) c ?d p ?g3"
    have "strand_step (t_codes T) ?g2 ?g3" by (rule strand_step.end_handshake) (fact at2)
    moreover have "strand_step (t_codes T) ?g3 ?g4"
      by (rule strand_step.end_start) (use connected in \<open>simp add: handshake_end_def\<close>)
    ultimately have steps: "(strand_step (t_codes T))\<^sup>*\<^sup>* ?g1 ?g4"
      using pause by (meson converse_rtranclp_into_rtranclp rtranclp.rtrancl_refl)
    have res: "r = Ret (make_error_code SessionReset)" "s' = t_autorec_cancel T (s2\<lparr>state := Connected\<rparr>)"
      using reconnect_loop_connected [OF go sleep connected(3), of err] Suc.prems(3) by simp_all
    have "agrees s' ?g4" and "pcs ?g4 p = Some (Received (Inl (make_error_code SessionReset)))"
      using connected res(2) s1 Suc.prems(2) cancel_does(1) [of "s2\<lparr>state := Connected\<rparr>"]
      by (simp_all add: agrees_def start_end_def handshake_end_def pause_end_def)
    with steps res(1) show ?thesis unfolding head by blast
  qed
qed

lemma recv_simulated:
  fixes g :: "('v, 'y) strand_scheme"
  assumes "agrees s g" and "pcs g p = Some Receiving" and "async_recv T s = Some (r, s')"
  shows "\<exists>x g'. r = Ret x \<and> (strand_step (t_codes T))\<^sup>*\<^sup>* g g' \<and> agrees s' g' \<and>
    pcs g' p = Some (Received x)"
proof -
  obtain e pk s1 where got: "t_recv T s = Some (Ret (e, pk), s1)" and part: "conn_part s1 = conn_part s"
    and rest: "(if failed e then await (async_handle_reconnect T) (\<lambda>err_rc. co_return (Inl err_rc))
       else (case pk of None \<Rightarrow> co_return (Inl (make_error_code InvalidPacket))
             | Some p \<Rightarrow> co_return (Inr p))) s1 = Some (r, s')"
    using assms(3) recv_does unfolding async_recv_def
    by (cases rule: await_Some_cases) (fastforce split: prod.splits)+
  let ?g1 = "recv_end e pk p g"
  have step: "strand_step (t_codes T) g ?g1" by (rule strand_step.end_recv) (fact assms(2))
  have s1: "agrees s1 g" using assms(1) part by (simp add: agrees_def)
  have arrived: ?thesis if "r = Ret x" "s' = s1" "?g1 = goto (Received x) p g" for x
    using that step s1 by (intro exI [of _ x] exI [of _ ?g1]) (auto simp: agrees_def)
  show ?thesis
  proof (cases "failed e")
    case False
    with rest arrived show ?thesis by (cases pk) (auto simp: co_return_run recv_end_def)
  next
    case failed: True
    with rest have run: "await (async_handle_reconnect T) (\<lambda>err_rc. co_return (Inl err_rc)) s1 = Some (r, s')"
      by simp
    show ?thesis
    proof (cases "state s1 = Connected")
      case False
      with run failed s1 arrived show ?thesis
        by (cases "state s1") (auto simp: async_handle_reconnect_def reading_run co_return_run await_def
            recv_end_def agrees_def)
    next
      case True
      let ?s2 = "t_autorec_expires_never T (s1\<lparr>state := Reconnecting\<rparr>)"
      let ?g2 = "wake_all (g\<lparr>state := Reconnecting\<rparr>)"
      have loop: "async_handle_reconnect T s1 = reconnect_loop T 1 default_error ?s2"
        using True by (simp add: async_handle_reconnect_def reading_run assign_run)
      have agree: "agrees ?s2 ?g2" using s1 never_does(1) [of "s1\<lparr>state := Reconnecting\<rparr>"]
        by (simp add: agrees_def)
      have g1: "?g1 = loop_head 1 default_error p ?g2"
        using failed True s1 by (simp add: recv_end_def agrees_def)
      from run obtain r1 where "reconnect_loop T 1 default_error ?s2 = Some (r1, s')"
        and r: "r1 = Ret e1 \<Longrightarrow> r = Ret (Inl e1)" for e1
        unfolding await_Some_iff loop by (auto simp: co_return_run)
      from loop_simulated [OF refl agree this(1), of p] r step show ?thesis unfolding g1
        by (blast intro: converse_rtranclp_into_rtranclp)
    qed
  qed
qed

end

text \<open>
  C28: The sequential model of \<open>async_recv\<close>, on a transport without interference, is one of the
  interleavings: whatever it returns and leaves in the members, the coroutine on the strand
  returns and leaves by some sequence of steps.
\<close>

theorem recv_is_interleaving:
  assumes "quiet_transport T events" and "agrees s g" and "pcs g p = Some Receiving"
    and "async_recv T s = Some (r, s')"
  shows "\<exists>x g'. r = Ret x \<and> (strand_step (t_codes T))\<^sup>*\<^sup>* g g' \<and> agrees s' g' \<and> pcs g' p = Some (Received x)"
  by (rule quiet_transport.recv_simulated [OF assms])

theorem recv_is_interleaving_witness:
  "\<exists>s' g'. async_recv (sim_transport sim_codes) eof_recv_client =
       Some (Ret (Inl (make_error_code Disconnected)), s') \<and>
     (strand_step sim_codes)\<^sup>*\<^sup>* (goto Receiving 1 (strand_init idle_sim default_config)) g' \<and>
     pcs g' 1 = Some (Received (Inl (make_error_code Disconnected)))"
proof -
  let ?g = "goto Receiving 1 (strand_init idle_sim default_config)"
  have "\<exists>s'. async_recv (sim_transport sim_codes) eof_recv_client =
       Some (Ret (Inl (make_error_code Disconnected)), s')"
    by (simp add: eof_recv_client_def async_recv_def async_handle_reconnect_def AsyncMqttClient_def
        sim_defs coro_simps await_def failed_def)
  then obtain s' where run: "async_recv (sim_transport sim_codes) eof_recv_client =
       Some (Ret (Inl (make_error_code Disconnected)), s')" by blast
  have "agrees eof_recv_client ?g"
    by (simp add: agrees_def eof_recv_client_def AsyncMqttClient_def strand_init_def)
  from recv_is_interleaving [OF sim_quiet this _ run, of 1] run show ?thesis by auto
qed

end
