(* ===== verification/Client_Progress.thy ===== *)
theory Client_Progress
  imports Client_Sched
begin

text \<open>
  Progress of the reconnect loop on the strand: a measure of the pauses, handshakes and connects a
  coroutine in the loop has left, which no step of any other coroutine increases unless it connects.
\<close>

section \<open>A measure of the loop\<close>

fun loop_rank :: "pc option \<Rightarrow> nat" where
  "loop_rank (Some (Sleeping d)) = 3"
| "loop_rank (Some (Handshaking d)) = 2"
| "loop_rank (Some (Starting d)) = 1"
| "loop_rank _ = 0"

definition loop_measure :: "nat \<Rightarrow> ('w, 'z) strand_scheme \<Rightarrow> nat" where
  "loop_measure p s =
     (if in_loop (pcs s p) then 3 * nat (max_attempts s - attempt s) + loop_rank (pcs s p) else 0)"

text \<open>The step from \<open>s\<close> to \<open>s'\<close> is a connect that succeeds: the client is connected and the attempts start over.\<close>

definition connects :: "('w, 'z) strand_scheme \<Rightarrow> ('w, 'z) strand_scheme \<Rightarrow> bool" where
  "connects s s' \<longleftrightarrow> state s' = Connected \<and> attempt s' = 0 \<and> (state s \<noteq> Connected \<or> attempt s \<noteq> 0)"

lemma step_limits:
  assumes "strand_step E s s'"
  shows "max_attempts s' = max_attempts s" and "connects s s' \<or> attempt s \<le> attempt s'"
  using assms
  by (cases rule: strand_step.cases; auto simp: piece_defs connects_def split: option.splits)+

lemma loop_step:
  assumes "strand_step E s s'" and "in_loop (pcs s p)"
  shows "(pcs s' p = pcs s p \<and> loop_rank (pcs s' p) = loop_rank (pcs s p)) \<or>
    (\<exists>x. pcs s' p = Some (Received x)) \<or>
    (in_loop (pcs s' p) \<and> loop_measure p s' < loop_measure p s)"
  using assms(1)
  by (cases rule: strand_step.cases)
    (use assms(2) in \<open>auto simp: piece_defs loop_measure_def split: option.splits\<close>)

lemma loop_progress:
  assumes "strand_step E s s'" and "in_loop (pcs s p)" and "in_loop (pcs s' p) \<Longrightarrow> \<not> connects s s'"
  shows "(\<exists>x. pcs s' p = Some (Received x)) \<or>
    (in_loop (pcs s' p) \<and> loop_measure p s' \<le> loop_measure p s \<and>
      (pcs s' p \<noteq> pcs s p \<longrightarrow> loop_measure p s' < loop_measure p s))"
  using loop_step [OF assms(1,2)]
proof (elim disjE conjE)
  assume same: "pcs s' p = pcs s p"
  with assms(2,3) step_limits [OF assms(1)] have "attempt s \<le> attempt s'" "max_attempts s' = max_attempts s"
    by auto
  then have "loop_measure p s' \<le> loop_measure p s" using assms(2) by (simp add: loop_measure_def same)
  with same assms(2) show ?thesis by simp
qed auto

text \<open>What a receive returns from the loop is a failure: that the session is new, or why the last attempt failed.\<close>

lemma loop_result:
  assumes "strand_step E s s'" and "in_loop (pcs s p)" and "pcs s' p = Some (Received x)"
  shows "\<exists>e. x = Inl e \<and> failed e"
  using assms(1)
  by (cases rule: strand_step.cases)
    (use assms(2,3) in \<open>auto simp: piece_defs failed_make map_err_failed split: option.splits if_splits\<close>)

section \<open>The loop ends\<close>

text \<open>For runs that may also stand still while the coroutine is in the loop.\<close>

lemma loop_returns:
  assumes "\<forall>n. in_loop (pcs (run n) p) \<longrightarrow> strand_step E (run n) (run (Suc n)) \<or> run (Suc n) = run n" and "in_loop (pcs (run k) p)"
    and "\<forall>n. in_loop (pcs (run n) p) \<longrightarrow> (\<exists>m\<ge>n. pcs (run (Suc m)) p \<noteq> pcs (run m) p)"
    and "\<forall>n. in_loop (pcs (run n) p) \<longrightarrow> in_loop (pcs (run (Suc n)) p) \<longrightarrow> \<not> connects (run n) (run (Suc n))"
  shows "\<exists>m>k. \<exists>x. pcs (run m) p = Some (Received x)"
  using assms(2)
proof (induction "loop_measure p (run k)" arbitrary: k rule: less_induct)
  case less
  have step: "(\<exists>x. pcs (run (Suc n)) p = Some (Received x)) \<or>
      (in_loop (pcs (run (Suc n)) p) \<and> loop_measure p (run (Suc n)) \<le> loop_measure p (run n) \<and>
        (pcs (run (Suc n)) p \<noteq> pcs (run n) p \<longrightarrow> loop_measure p (run (Suc n)) < loop_measure p (run n)))"
    if "in_loop (pcs (run n) p)" for n
    using assms(1,4) that loop_progress [of E "run n" "run (Suc n)" p] by auto
  show ?case
  proof (rule ccontr)
    assume "\<not> ?case"
    then have never: "pcs (run m) p \<noteq> Some (Received x)" if "m > k" for m x using that by blast
    have stays: "in_loop (pcs (run (k + n)) p) \<and> loop_measure p (run (k + n)) \<le> loop_measure p (run k)" for n
    proof (induction n)
      case (Suc n)
      moreover from never [of "Suc (k + n)"] have "\<not> (\<exists>x. pcs (run (Suc (k + n))) p = Some (Received x))" by simp
      ultimately show ?case using step [of "k + n"] by force
    qed (use less.prems in simp)
    obtain m where m: "m \<ge> k" "pcs (run (Suc m)) p \<noteq> pcs (run m) p" using assms(3) less.prems by blast
    have "\<not> (\<exists>x. pcs (run (Suc m)) p = Some (Received x))" using never [of "Suc m"] m(1) by simp
    with stays [of "m - k"] step [of m] m
    have "in_loop (pcs (run (Suc m)) p)" "loop_measure p (run (Suc m)) < loop_measure p (run k)" by auto
    from less.hyps [OF this(2,1)] obtain m' x where "m' > Suc m" "pcs (run m') p = Some (Received x)" by blast
    with never [of m' x] m(1) show False by simp
  qed
qed

text \<open>
  C16: In an infinite run in which a coroutine in the reconnect loop is resumed again and again, and
  no other coroutine connects the client meanwhile, the loop ends: the receive that entered it
  returns, whatever the network answers and whatever else runs on the strand.
\<close>

theorem reconnect_loop_ends:
  assumes "\<forall>n. strand_step E (run n) (run (Suc n))" and "in_loop (pcs (run k) p)"
    and "\<forall>n. in_loop (pcs (run n) p) \<longrightarrow> (\<exists>m\<ge>n. pcs (run (Suc m)) p \<noteq> pcs (run m) p)"
    and "\<forall>n. in_loop (pcs (run n) p) \<longrightarrow> in_loop (pcs (run (Suc n)) p) \<longrightarrow> \<not> connects (run n) (run (Suc n))"
  shows "\<exists>m>k. \<exists>x. pcs (run m) p = Some (Received x)"
  using loop_returns [of run p E k] assms by blast

text \<open>Coroutine 2 reconnects while others begin to receive, one after the other.\<close>

primrec back_run :: "nat \<Rightarrow> sim strand" where
  "back_run 0 = recv_end net_eof None 2 (goto Receiving 2 (run_connected sim_codes))"
| "back_run (Suc n) =
     (if n = 0 then pause_end 1 2 (back_run n)
      else if n = 1 then handshake_end sim_codes net_ok 2 2 (back_run n)
      else if n = 2 then start_end sim_codes net_ok 2 2 (back_run n)
      else goto Receiving (n + 7) (back_run n))"

lemma back_run_start:
  "pcs (back_run 0) 2 = Some (Sleeping 1)" "pcs (back_run 1) 2 = Some (Handshaking 2)"
  "pcs (back_run 2) 2 = Some (Starting 2)" "state (back_run 1) = Reconnecting" "state (back_run 2) = Reconnecting"
  by (simp_all add: numeral_eq_Suc piece_defs run_connected_def net_ok_def net_eof_def strand_init_def
      failed_def max_delay_def DefaultMaxAutoreconnectAttempts_def)

lemma back_run_end:
  "pcs (back_run (n + 3)) 2 = Some (Received (Inl (make_error_code SessionReset))) \<and>
   (\<forall>q \<ge> n + 10. pcs (back_run (n + 3)) q = None)"
proof (induction n)
  case 0
  show ?case
    by (simp add: numeral_eq_Suc piece_defs run_connected_def net_ok_def net_eof_def strand_init_def
        failed_def max_delay_def DefaultMaxAutoreconnectAttempts_def)
qed (auto simp: numeral_eq_Suc)

lemma back_run_ended:
  "n \<ge> 3 \<Longrightarrow> pcs (back_run n) 2 = Some (Received (Inl (make_error_code SessionReset)))"
  "n \<ge> 3 \<Longrightarrow> pcs (back_run n) (n + 7) = None"
  using back_run_end [of "n - 3"] by simp_all

lemma back_run_steps: "strand_step sim_codes (back_run n) (back_run (Suc n))"
proof -
  consider "n = 0" | "n = 1" | "n = 2" | "n \<ge> 3" by linarith
  then show ?thesis unfolding back_run.simps(2)
    by cases (use strand_step.end_pause [OF back_run_start(1)] strand_step.end_handshake [OF back_run_start(2)]
        strand_step.end_start [OF back_run_start(3)] strand_step.begin_recv [OF back_run_ended(2)]
        in \<open>simp_all del: back_run.simps\<close>)
qed

theorem reconnect_loop_ends_witness:
  "(\<forall>n. strand_step sim_codes (back_run n) (back_run (Suc n))) \<and>
   (\<exists>m>0. \<exists>x. pcs (back_run m) 2 = Some (Received x))"
proof -
  note ended = back_run_ended and steps = back_run_steps
  have at: "in_loop (pcs (back_run n) 2) \<longleftrightarrow> n < 3" for n
  proof -
    consider "n = 0" | "n = 1" | "n = 2" | "n \<ge> 3" by linarith
    then show ?thesis by cases (use back_run_start ended in auto)
  qed
  have fair: "\<forall>n. in_loop (pcs (back_run n) 2) \<longrightarrow> (\<exists>m\<ge>n. pcs (back_run (Suc m)) 2 \<noteq> pcs (back_run m) 2)"
  proof (intro allI impI)
    fix n assume "in_loop (pcs (back_run n) 2)"
    then have "n \<le> 2" using at by simp
    moreover have "pcs (back_run (Suc 2)) 2 \<noteq> pcs (back_run 2) 2"
      using back_run_start(3) ended(1) [of 3] by (simp add: numeral_3_eq_3 numeral_2_eq_2)
    ultimately show "\<exists>m\<ge>n. pcs (back_run (Suc m)) 2 \<noteq> pcs (back_run m) 2" by blast
  qed
  have "\<not> connects (back_run n) (back_run (Suc n))" if "n < 2" for n
  proof -
    consider "n = 0" | "n = 1" using \<open>n < 2\<close> by linarith
    then show ?thesis
      by cases (use back_run_start(4,5) in \<open>auto simp: connects_def numeral_2_eq_2 simp del: back_run.simps\<close>)
  qed
  then have quiet: "\<forall>n. in_loop (pcs (back_run n) 2) \<longrightarrow> in_loop (pcs (back_run (Suc n)) 2) \<longrightarrow>
      \<not> connects (back_run n) (back_run (Suc n))" by (simp add: at del: back_run.simps)
  from reconnect_loop_ends [OF _ _ fair quiet, of sim_codes 0] steps at show ?thesis by (simp del: back_run.simps)
qed

end
