(* ===== verification/Entity_Cfg.thy ===== *)
theory Entity_Cfg
  imports Coro
begin

text \<open>
  The configuration of an entity (\<open>Property\<close>, \<open>Device\<close>, \<open>Availability\<close>, \<open>EntityCfg\<close> of
  \<open>entity.h\<close>): a JSON object that is filled by the factories, read by the entities and
  published as the discovery payload. The object type and its operations are Boost.JSON's: they are
  the record \<open>json_api\<close>, a parameter of every operation, and the locale \<open>json_laws\<close> states what the
  code relies on: the object is a map from keys to values, and the kinds of value are told apart.
\<close>

section \<open>Boost.JSON as a parameter\<close>

text \<open>
  \<open>j_find\<close> is the lookup behind \<open>contains\<close>, \<open>at\<close> and \<open>operator[]\<close>, \<open>j_put\<close> is the
  assignment \<open>obj[key] = value\<close>; \<open>j_as_object\<close> and \<open>j_as_string\<close> are \<open>as_object\<close> and
  \<open>value_to<std::string>\<close>, with \<open>None\<close> where these throw because the value is of another kind.
\<close>

record ('o, 'v) json_api =
  j_empty :: 'o
  j_find :: "'o \<Rightarrow> string \<Rightarrow> 'v option"
  j_put :: "'o \<Rightarrow> string \<Rightarrow> 'v \<Rightarrow> 'o"
  j_null :: 'v
  j_string :: "string \<Rightarrow> 'v"
  j_array :: "'v list \<Rightarrow> 'v"
  j_object :: "'o \<Rightarrow> 'v"
  j_as_object :: "'v \<Rightarrow> 'o option"
  j_as_string :: "'v \<Rightarrow> string option"
  j_serialize :: "'o \<Rightarrow> string"

locale json_laws =
  fixes J :: "('o, 'v) json_api"
  assumes find_empty [simp]: "j_find J (j_empty J) k = None"
    and find_put [simp]: "j_find J (j_put J ob k v) k' = (if k' = k then Some v else j_find J ob k')"
    and object_as_object [simp]: "j_as_object J (j_object J ob) = Some ob"
    and null_as_object [simp]: "j_as_object J (j_null J) = None"
    and string_as_object [simp]: "j_as_object J (j_string J x) = None"
    and string_as_string [simp]: "j_as_string J (j_string J x) = Some x"
    and null_as_string [simp]: "j_as_string J (j_null J) = None"
    and object_as_string [simp]: "j_as_string J (j_object J ob) = None"

section \<open>Properties and devices\<close>

record property =
  key :: string
  obj_key :: string

definition Property :: "string \<Rightarrow> property" where
  "Property k = \<lparr>key = k, obj_key = ''''\<rparr>"

definition Property_in :: "string \<Rightarrow> string \<Rightarrow> property" where
  "Property_in k ok = \<lparr>key = k, obj_key = ok\<rparr>"

record device =
  configuration_url :: string
  connections :: "string list"
  hw_version :: string
  identifiers :: "string list"
  manufacturer :: string
  model :: string
  model_id :: string
  name :: string
  serial_number :: string
  suggested_area :: string
  sw_version :: string
  via_device :: string

definition Availability_Topic :: property where
  "Availability_Topic = Property_in ''topic'' ''availability''"

definition Availability_PayloadAvailable :: property where
  "Availability_PayloadAvailable = Property_in ''payload_available'' ''availability''"

definition Availability_PayloadNotAvailable :: property where
  "Availability_PayloadNotAvailable = Property_in ''payload_not_available'' ''availability''"

definition Availability_ValueTemplate :: property where
  "Availability_ValueTemplate = Property_in ''value_template'' ''availability''"

definition default_PayloadAvailable :: string where
  "default_PayloadAvailable = ''online''"

definition default_PayloadNotAvailable :: string where
  "default_PayloadNotAvailable = ''offline''"

lemmas property_defs =
  Property_def Property_in_def Availability_Topic_def Availability_PayloadAvailable_def
  Availability_PayloadNotAvailable_def Availability_ValueTemplate_def

section \<open>Operations of EntityCfg\<close>

text \<open>\<open>set(prop, nullptr)\<close>.\<close>

definition cfg_set_null :: "('o, 'v) json_api \<Rightarrow> property \<Rightarrow> 'o \<Rightarrow> 'o" where
  "cfg_set_null J prop ob =
     (if obj_key prop = '''' then j_put J ob (key prop) (j_null J)
      else if j_find J ob (obj_key prop) = None then j_put J ob (obj_key prop) (j_null J)
      else ob)"

text \<open>
  \<open>set(prop, value)\<close>. The inner object is updated in place; \<open>as_object\<close> throws when the value under
  \<open>obj_key\<close> is not an object.
\<close>

definition cfg_set :: "('o, 'v) json_api \<Rightarrow> property \<Rightarrow> string \<Rightarrow> 'o \<Rightarrow> 'o res" where
  "cfg_set J prop value ob =
     (if obj_key prop = '''' then Ret (j_put J ob (key prop) (j_string J value))
      else
        let ob = (if j_find J ob (obj_key prop) = None
                  then j_put J ob (obj_key prop) (j_object J (j_empty J)) else ob)
        in case Option.bind (j_find J ob (obj_key prop)) (j_as_object J) of
             None \<Rightarrow> Exn Wrong_Kind
           | Some inner \<Rightarrow> Ret (j_put J ob (obj_key prop)
               (j_object J (j_put J inner (key prop) (j_string J value)))))"

definition find_string :: "('o, 'v) json_api \<Rightarrow> string \<Rightarrow> 'o \<Rightarrow> string res" where
  "find_string J k ob =
     (case j_find J ob k of
        None \<Rightarrow> Exn Out_Of_Range
      | Some v \<Rightarrow> (case j_as_string J v of None \<Rightarrow> Exn Wrong_Kind | Some x \<Rightarrow> Ret x))"

definition cfg_at :: "('o, 'v) json_api \<Rightarrow> property \<Rightarrow> 'o \<Rightarrow> string res" where
  "cfg_at J prop ob =
     (if obj_key prop = '''' then find_string J (key prop) ob
      else case j_find J ob (obj_key prop) of
             None \<Rightarrow> Exn Out_Of_Range
           | Some v \<Rightarrow> (case j_as_object J v of
               None \<Rightarrow> Exn Wrong_Kind | Some inner \<Rightarrow> find_string J (key prop) inner))"

definition cfg_contains :: "('o, 'v) json_api \<Rightarrow> property \<Rightarrow> 'o \<Rightarrow> bool res" where
  "cfg_contains J prop ob =
     (if obj_key prop = '''' then Ret (j_find J ob (key prop) \<noteq> None)
      else case j_find J ob (obj_key prop) of
             None \<Rightarrow> Ret False
           | Some v \<Rightarrow> (case j_as_object J v of
               None \<Rightarrow> Exn Wrong_Kind | Some inner \<Rightarrow> Ret (j_find J inner (key prop) \<noteq> None)))"

text \<open>The constructor from an initializer list.\<close>

fun cfg_init :: "('o, 'v) json_api \<Rightarrow> (property \<times> string) list \<Rightarrow> 'o \<Rightarrow> 'o res" where
  "cfg_init J [] ob = Ret ob"
| "cfg_init J ((prop, value) # init) ob =
     (case cfg_set J prop value ob of Exn e \<Rightarrow> Exn e | Ret ob' \<Rightarrow> cfg_init J init ob')"

definition EntityCfg :: "('o, 'v) json_api \<Rightarrow> (property \<times> string) list \<Rightarrow> 'o res" where
  "EntityCfg J init = cfg_init J init (j_empty J)"

text \<open>\<open>set(device)\<close>: empty fields are left out.\<close>

definition set_string :: "('o, 'v) json_api \<Rightarrow> string \<Rightarrow> string \<Rightarrow> 'o \<Rightarrow> 'o" where
  "set_string J k value ob = (if value \<noteq> '''' then j_put J ob k (j_string J value) else ob)"

definition set_string_array :: "('o, 'v) json_api \<Rightarrow> string \<Rightarrow> string list \<Rightarrow> 'o \<Rightarrow> 'o" where
  "set_string_array J k vs ob =
     (if vs = [] then ob else j_put J ob k (j_array J (map (j_string J) vs)))"

definition device_object :: "('o, 'v) json_api \<Rightarrow> device \<Rightarrow> 'o" where
  "device_object J d =
     (let ob = j_empty J;
          ob = set_string J ''configuration_url'' (configuration_url d) ob;
          ob = set_string_array J ''connections'' (connections d) ob;
          ob = set_string J ''hw_version'' (hw_version d) ob;
          ob = set_string_array J ''identifiers'' (identifiers d) ob;
          ob = set_string J ''manufacturer'' (manufacturer d) ob;
          ob = set_string J ''model'' (model d) ob;
          ob = set_string J ''model_id'' (model_id d) ob;
          ob = set_string J ''name'' (name d) ob;
          ob = set_string J ''serial_number'' (serial_number d) ob;
          ob = set_string J ''suggested_area'' (suggested_area d) ob;
          ob = set_string J ''sw_version'' (sw_version d) ob
      in set_string J ''via_device'' (via_device d) ob)"

definition cfg_set_device :: "('o, 'v) json_api \<Rightarrow> device \<Rightarrow> 'o \<Rightarrow> 'o" where
  "cfg_set_device J d ob = j_put J ob ''device'' (j_object J (device_object J d))"

definition cfg_json :: "('o, 'v) json_api \<Rightarrow> 'o \<Rightarrow> string" where
  "cfg_json J ob = j_serialize J ob"

section \<open>Reading back what was written\<close>

text \<open>Two properties that address different places, neither of which holds the other.\<close>

definition apart :: "property \<Rightarrow> property \<Rightarrow> bool" where
  "apart p q \<longleftrightarrow> (key p \<noteq> key q \<or> obj_key p \<noteq> obj_key q) \<and>
     \<not> (obj_key p = '''' \<and> key p = obj_key q) \<and> \<not> (obj_key q = '''' \<and> key q = obj_key p)"

context json_laws
begin

lemma set_simple:
  "obj_key p = '''' \<Longrightarrow> cfg_set J p v ob = Ret (j_put J ob (key p) (j_string J v))"
  by (simp add: cfg_set_def)

lemma set_nested_new:
  "obj_key p \<noteq> '''' \<Longrightarrow> j_find J ob (obj_key p) = None \<Longrightarrow>
   cfg_set J p v ob = Ret (j_put J (j_put J ob (obj_key p) (j_object J (j_empty J))) (obj_key p)
     (j_object J (j_put J (j_empty J) (key p) (j_string J v))))"
  by (simp add: cfg_set_def)

lemma set_nested_old:
  "obj_key p \<noteq> '''' \<Longrightarrow> j_find J ob (obj_key p) = Some w \<Longrightarrow> j_as_object J w = Some inner \<Longrightarrow>
   cfg_set J p v ob =
     Ret (j_put J ob (obj_key p) (j_object J (j_put J inner (key p) (j_string J v))))"
  by (simp add: cfg_set_def)

lemma set_nested_wrong:
  "obj_key p \<noteq> '''' \<Longrightarrow> j_find J ob (obj_key p) = Some w \<Longrightarrow> j_as_object J w = None \<Longrightarrow>
   cfg_set J p v ob = Exn Wrong_Kind"
  by (simp add: cfg_set_def)

lemma set_cases:
  assumes "cfg_set J p v ob = Ret ob'"
  obtains (simple) "obj_key p = ''''" and "ob' = j_put J ob (key p) (j_string J v)"
  | (fresh) "obj_key p \<noteq> ''''" and "j_find J ob (obj_key p) = None"
    and "ob' = j_put J (j_put J ob (obj_key p) (j_object J (j_empty J))) (obj_key p)
           (j_object J (j_put J (j_empty J) (key p) (j_string J v)))"
  | (old) w inner where "obj_key p \<noteq> ''''" and "j_find J ob (obj_key p) = Some w"
    and "j_as_object J w = Some inner"
    and "ob' = j_put J ob (obj_key p) (j_object J (j_put J inner (key p) (j_string J v)))"
proof (cases "obj_key p = ''''")
  case True
  with assms simple show thesis by (simp add: set_simple)
next
  case nested: False
  show thesis
  proof (cases "j_find J ob (obj_key p)")
    case None
    with assms nested fresh show thesis by (simp add: set_nested_new)
  next
    case (Some w)
    with assms nested old show thesis
      by (cases "j_as_object J w") (simp_all add: set_nested_old set_nested_wrong)
  qed
qed

lemma set_at_same: "cfg_set J p v ob = Ret ob' \<Longrightarrow> cfg_at J p ob' = Ret v"
  by (erule set_cases) (simp_all add: cfg_at_def find_string_def)

lemma set_contains_same: "cfg_set J p v ob = Ret ob' \<Longrightarrow> cfg_contains J p ob' = Ret True"
  by (erule set_cases) (simp_all add: cfg_contains_def)

lemma set_at_other:
  "cfg_set J p v ob = Ret ob' \<Longrightarrow> apart p q \<Longrightarrow> cfg_at J q ob' = cfg_at J q ob"
  by (erule set_cases) (auto simp: cfg_at_def find_string_def apart_def)

lemma set_contains_other:
  "cfg_set J p v ob = Ret ob' \<Longrightarrow> apart p q \<Longrightarrow> cfg_contains J q ob' = cfg_contains J q ob"
  by (erule set_cases) (auto simp: cfg_contains_def apart_def)

lemma contains_at:
  "cfg_contains J p ob = Ret True \<Longrightarrow> (\<exists>v. cfg_at J p ob = Ret v) \<or> cfg_at J p ob = Exn Wrong_Kind"
  by (auto simp: cfg_contains_def cfg_at_def find_string_def split: if_splits option.splits)

lemma set_succeeds_iff:
  "(\<exists>ob'. cfg_set J p v ob = Ret ob') \<longleftrightarrow>
     obj_key p = '''' \<or> j_find J ob (obj_key p) = None \<or>
     (\<exists>w inner. j_find J ob (obj_key p) = Some w \<and> j_as_object J w = Some inner)"
proof (cases "obj_key p = ''''")
  case nested: False
  show ?thesis
  proof (cases "j_find J ob (obj_key p)")
    case (Some w)
    with nested show ?thesis
      by (cases "j_as_object J w") (simp_all add: set_nested_old set_nested_wrong)
  qed (simp add: nested set_nested_new)
qed (simp add: set_simple)

lemma set_keeps_settable:
  assumes "cfg_set J p v ob = Ret ob'" and "apart p q" and "\<exists>ob1. cfg_set J q u ob = Ret ob1"
  shows "\<exists>ob1. cfg_set J q u ob' = Ret ob1"
  using assms(1)
proof (cases rule: set_cases)
  case simple
  with assms(2,3) show ?thesis unfolding set_succeeds_iff by (auto simp: apart_def)
next
  case fresh
  with assms(2,3) show ?thesis unfolding set_succeeds_iff by (auto simp: apart_def)
next
  case (old w inner)
  with assms(2,3) show ?thesis unfolding set_succeeds_iff by (auto simp: apart_def)
qed

lemma init_frame:
  "cfg_init J init ob = Ret ob' \<Longrightarrow> \<forall>(p, v) \<in> set init. apart p q \<Longrightarrow>
   cfg_at J q ob' = cfg_at J q ob \<and> cfg_contains J q ob' = cfg_contains J q ob"
proof (induction init arbitrary: ob)
  case (Cons pv init)
  obtain p v where pv: "pv = (p, v)" by (cases pv)
  with Cons.prems(1) obtain ob1 where "cfg_set J p v ob = Ret ob1" and "cfg_init J init ob1 = Ret ob'"
    by (auto split: res.splits)
  with Cons.IH [of ob1] Cons.prems(2) pv show ?case
    by (simp add: set_at_other set_contains_other)
qed simp

lemma init_reads:
  "sorted_wrt apart (map fst init) \<Longrightarrow> \<forall>(p, v) \<in> set init. \<exists>ob1. cfg_set J p v ob = Ret ob1 \<Longrightarrow>
   \<exists>ob'. cfg_init J init ob = Ret ob' \<and>
     (\<forall>(p, v) \<in> set init. cfg_at J p ob' = Ret v \<and> cfg_contains J p ob' = Ret True)"
proof (induction init arbitrary: ob)
  case (Cons pv init)
  obtain p v where pv: "pv = (p, v)" by (cases pv)
  with Cons.prems(2) obtain ob1 where ob1: "cfg_set J p v ob = Ret ob1" by auto
  have ap: "apart p q" if "(q, u) \<in> set init" for q u
    using Cons.prems(1) pv that by force
  have "\<exists>ob2. cfg_set J q u ob1 = Ret ob2" if "(q, u) \<in> set init" for q u
    using set_keeps_settable [OF ob1 ap [OF that]] Cons.prems(2) that by fastforce
  then have "\<forall>(q, u) \<in> set init. \<exists>ob2. cfg_set J q u ob1 = Ret ob2" by blast
  with Cons.IH [of ob1] Cons.prems(1) obtain ob' where ob': "cfg_init J init ob1 = Ret ob'"
    "\<forall>(q, u) \<in> set init. cfg_at J q ob' = Ret u \<and> cfg_contains J q ob' = Ret True" by auto
  have "apart q p" if "apart p q" for q using that by (auto simp: apart_def)
  with ap have "\<forall>(q, u) \<in> set init. apart q p" by blast
  from init_frame [OF ob'(1) this] set_at_same [OF ob1] set_contains_same [OF ob1]
  have "cfg_at J p ob' = Ret v \<and> cfg_contains J p ob' = Ret True" by simp
  with ob' ob1 pv show ?case by auto
qed simp

lemma init_holds:
  assumes "sorted_wrt apart (map fst init)"
  shows "\<exists>ob. EntityCfg J init = Ret ob \<and>
    (\<forall>(p, v) \<in> set init. cfg_at J p ob = Ret v \<and> cfg_contains J p ob = Ret True) \<and>
    (\<forall>q. (\<forall>(p, v) \<in> set init. apart p q) \<longrightarrow> cfg_contains J q ob = Ret False)"
proof -
  have "\<forall>(p, v) \<in> set init. \<exists>ob1. cfg_set J p v (j_empty J) = Ret ob1"
    using set_succeeds_iff find_empty by blast
  from init_reads [OF assms this] obtain ob where
    ob: "EntityCfg J init = Ret ob"
    and reads: "\<forall>(p, v) \<in> set init. cfg_at J p ob = Ret v \<and> cfg_contains J p ob = Ret True"
    by (auto simp: EntityCfg_def)
  have "cfg_contains J q ob = Ret False" if "\<forall>(p, v) \<in> set init. apart p q" for q
    using init_frame [OF ob [unfolded EntityCfg_def] that] by (simp add: cfg_contains_def)
  with ob reads show ?thesis by blast
qed

lemma find_set_string:
  "j_find J (set_string J k v ob) k' = (if k' = k \<and> v \<noteq> '''' then Some (j_string J v) else j_find J ob k')"
  by (simp add: set_string_def)

lemma find_set_string_array:
  "j_find J (set_string_array J k vs ob) k' =
     (if k' = k \<and> vs \<noteq> [] then Some (j_array J (map (j_string J) vs)) else j_find J ob k')"
  by (simp add: set_string_array_def)

end

section \<open>A reference JSON object\<close>

text \<open>
  An instance of the interface: an object is an association list in insertion order. The
  witnesses of the development run on it. The serializer writes the names of the keys only; no
  law mentions it.
\<close>

datatype jvalue =
    J_Null
  | J_String string
  | J_Array "jvalue list"
  | J_Object "(string \<times> jvalue) list"

fun jvalue_object :: "jvalue \<Rightarrow> (string \<times> jvalue) list option" where
  "jvalue_object (J_Object kvs) = Some kvs"
| "jvalue_object _ = None"

fun jvalue_string :: "jvalue \<Rightarrow> string option" where
  "jvalue_string (J_String x) = Some x"
| "jvalue_string _ = None"

definition alist_json :: "((string \<times> jvalue) list, jvalue) json_api" where
  "alist_json =
     \<lparr>j_empty = [], j_find = map_of, j_put = (\<lambda>kvs k v. AList.update k v kvs),
      j_null = J_Null, j_string = J_String, j_array = J_Array, j_object = J_Object,
      j_as_object = jvalue_object, j_as_string = jvalue_string,
      j_serialize = (\<lambda>kvs. concat (map (\<lambda>(k, v). k @ '';'') kvs))\<rparr>"

interpretation alist: json_laws alist_json
  by unfold_locales (simp_all add: alist_json_def update_conv')

section \<open>Properties of the configuration\<close>

text \<open>
  C35: The configuration behaves as a map from properties to strings. A value that was set is read
  back, and every property at another place, in the same inner object or elsewhere, reads as before.
\<close>

theorem cfg_set_readback:
  assumes "json_laws J" and "cfg_set J p v ob = Ret ob'"
  shows "cfg_at J p ob' = Ret v \<and> cfg_contains J p ob' = Ret True \<and>
    (\<forall>q. apart p q \<longrightarrow> cfg_at J q ob' = cfg_at J q ob \<and> cfg_contains J q ob' = cfg_contains J q ob)"
  using assms json_laws.set_at_same json_laws.set_contains_same json_laws.set_at_other
    json_laws.set_contains_other by metis

theorem cfg_set_readback_witness:
  "\<exists>ob'. cfg_set alist_json Availability_Topic ''home/a'' (j_empty alist_json) = Ret ob' \<and>
     cfg_at alist_json Availability_Topic ob' = Ret ''home/a''"
proof -
  obtain ob' where "cfg_set alist_json Availability_Topic ''home/a'' (j_empty alist_json) = Ret ob'"
    by (simp add: cfg_set_def property_defs)
  with cfg_set_readback [OF alist.json_laws_axioms this] show ?thesis by blast
qed

text \<open>
  A configuration that is built from properties at different places can always be built; it
  holds exactly those properties with those values.
\<close>

theorem EntityCfg_holds_init:
  assumes "json_laws J" and "sorted_wrt apart (map fst init)"
  shows "\<exists>ob. EntityCfg J init = Ret ob \<and>
    (\<forall>(p, v) \<in> set init. cfg_at J p ob = Ret v \<and> cfg_contains J p ob = Ret True) \<and>
    (\<forall>q. (\<forall>(p, v) \<in> set init. apart p q) \<longrightarrow> cfg_contains J q ob = Ret False)"
  by (rule json_laws.init_holds [OF assms])

theorem EntityCfg_holds_init_witness:
  "\<exists>ob. EntityCfg alist_json [(Property ''unique_id'', ''u''), (Availability_Topic, ''t'')] = Ret ob \<and>
    (\<forall>(p, v) \<in> set [(Property ''unique_id'', ''u''), (Availability_Topic, ''t'')].
       cfg_at alist_json p ob = Ret v \<and> cfg_contains alist_json p ob = Ret True) \<and>
    (\<forall>q. (\<forall>(p, v) \<in> set [(Property ''unique_id'', ''u''), (Availability_Topic, ''t'')]. apart p q) \<longrightarrow>
       cfg_contains alist_json q ob = Ret False)"
  by (rule EntityCfg_holds_init [OF alist.json_laws_axioms])
     (simp add: apart_def property_defs)

text \<open>
  C39: Clearing a property of an inner object with \<open>nullptr\<close> does not clear it. If the inner object
  exists the configuration is left as it is; if not, a null is stored in its place, and from then on
  every test, read and write of a property of that object throws.
\<close>

theorem set_null_nested:
  assumes "json_laws J" and "obj_key p \<noteq> ''''"
  shows "(j_find J ob (obj_key p) \<noteq> None \<longrightarrow> cfg_set_null J p ob = ob) \<and>
    (j_find J ob (obj_key p) = None \<and> obj_key q = obj_key p \<longrightarrow>
       cfg_contains J q (cfg_set_null J p ob) = Exn Wrong_Kind \<and>
       cfg_at J q (cfg_set_null J p ob) = Exn Wrong_Kind \<and>
       cfg_set J q v (cfg_set_null J p ob) = Exn Wrong_Kind)"
  using assms json_laws.find_put [OF assms(1)] json_laws.null_as_object [OF assms(1)]
  by (simp add: cfg_set_null_def cfg_contains_def cfg_at_def cfg_set_def)

theorem set_null_nested_witness:
  "cfg_contains alist_json Availability_Topic 
      (cfg_set_null alist_json Availability_Topic (j_empty alist_json)) = Exn Wrong_Kind"
  using set_null_nested [OF alist.json_laws_axioms, of Availability_Topic "j_empty alist_json"
      Availability_Topic]
  by (simp add: property_defs)

definition device_member :: "('o, 'v) json_api \<Rightarrow> device \<Rightarrow> string \<Rightarrow> 'v option" where
  "device_member J d k =
     (if k = ''connections'' then
        (if connections d = [] then None else Some (j_array J (map (j_string J) (connections d))))
      else if k = ''identifiers'' then
        (if identifiers d = [] then None else Some (j_array J (map (j_string J) (identifiers d))))
      else case map_of
          [(''configuration_url'', configuration_url d), (''hw_version'', hw_version d),
           (''manufacturer'', manufacturer d), (''model'', model d), (''model_id'', model_id d),
           (''name'', name d), (''serial_number'', serial_number d),
           (''suggested_area'', suggested_area d), (''sw_version'', sw_version d),
           (''via_device'', via_device d)] k of
        None \<Rightarrow> None
      | Some x \<Rightarrow> (if x = '''' then None else Some (j_string J x)))"

text \<open>
  C38: The device object has a member for exactly the fields of the device that are not empty, a
  string or an array of strings under the name of the field, and nothing else.
\<close>

theorem device_object_members:
  assumes "json_laws J"
  shows "j_find J (device_object J d) k = device_member J d k"
  by (simp add: device_object_def device_member_def Let_def json_laws.find_set_string [OF assms]
      json_laws.find_set_string_array [OF assms] json_laws.find_empty [OF assms])

theorem device_object_members_witness:
  "j_find alist_json (device_object alist_json
       \<lparr>configuration_url = '''', connections = [], hw_version = '''', identifiers = [''id-1''],
        manufacturer = ''acme'', model = '''', model_id = '''', name = '''', serial_number = '''',
        suggested_area = '''', sw_version = '''', via_device = ''''\<rparr>) ''identifiers'' =
     Some (J_Array [J_String ''id-1''])"
  by (subst device_object_members [OF alist.json_laws_axioms])
     (simp add: device_member_def alist_json_def)

end
