(* ===== verification/Entity_Base.thy ===== *)
theory Entity_Base
  imports Entity_Cfg Topics Mqtt_Client "HOL-Library.Sublist"
begin

text \<open>
  The base class \<open>Entity<Impl, Client>\<close> of \<open>entity.h\<close>. Its template parameter \<open>Client\<close> is the record
  \<open>client_ops\<close> of the operations an entity calls on its client, over any state; \<open>AsyncMqttClient\<close>
  and \<open>SharedAsyncMqttClient\<close> both provide it. What the base class reaches through \<open>impl()\<close>,
  the configuration and the two hooks, are the remaining fields of the record \<open>entity\<close>.
\<close>

section \<open>The client interface and the entity\<close>

record 's client_ops =
  c_publish :: "string \<Rightarrow> string \<Rightarrow> qos \<Rightarrow> bool \<Rightarrow> (error_code, 's) coro"
  c_subscribe :: "topic_subopts list \<Rightarrow> (error_code, 's) coro"
  c_recv :: "(recv_result, 's) coro"
  c_close :: "(error_code, 's) coro"

record ('o, 's) entity =
  e_client :: "'s client_ops"
  e_cfg :: 'o
  e_qos :: qos
  e_discovery_impl :: "(error_code, 's) coro"
  e_subscribe_impl :: "(error_code, 's) coro"

definition entity_discovery :: "('o, 's) entity \<Rightarrow> (error_code, 's) coro" where
  "entity_discovery en = e_discovery_impl en"

definition entity_subscribe :: "('o, 's) entity \<Rightarrow> (error_code, 's) coro" where
  "entity_subscribe en = e_subscribe_impl en"

definition entity_close :: "('o, 's) entity \<Rightarrow> (error_code, 's) coro" where
  "entity_close en = c_close (e_client en)"

text \<open>\<open>cfg.contains(p) ? cfg.at(p) : def\<close>.\<close>

definition at_or :: "('o, 'v) json_api \<Rightarrow> property \<Rightarrow> string \<Rightarrow> 'o \<Rightarrow> string res" where
  "at_or J p def ob =
     (case cfg_contains J p ob of
        Exn e \<Rightarrow> Exn e
      | Ret c \<Rightarrow> (if c then cfg_at J p ob else Ret def))"

definition availability_payload :: "('o, 'v) json_api \<Rightarrow> bool \<Rightarrow> 'o \<Rightarrow> string res" where
  "availability_payload J st cfg =
     (if st then at_or J Availability_PayloadAvailable default_PayloadAvailable cfg
      else at_or J Availability_PayloadNotAvailable default_PayloadNotAvailable cfg)"

definition entity_update_availability ::
  "('o, 'v) json_api \<Rightarrow> ('o, 's) entity \<Rightarrow> bool \<Rightarrow> (error_code, 's) coro" where
  "entity_update_availability J en st =
     eval_res (cfg_contains J Availability_Topic (e_cfg en)) (\<lambda>c.
     if \<not> c then co_return (make_error_code Success)
     else
       eval_res (availability_payload J st (e_cfg en)) (\<lambda>val.
       eval_res (cfg_at J Availability_Topic (e_cfg en)) (\<lambda>topic.
       c_publish (e_client en) topic val (e_qos en) True)))"

definition entity_setup :: "('o, 'v) json_api \<Rightarrow> ('o, 's) entity \<Rightarrow> (error_code, 's) coro" where
  "entity_setup J en =
     await (entity_discovery en) (\<lambda>err.
     if failed err then co_return err
     else await (entity_subscribe en) (\<lambda>err.
     if failed err then co_return err
     else entity_update_availability J en True))"

definition handle_err ::
  "('o, 'v) json_api \<Rightarrow> ('o, 's) entity \<Rightarrow> error_code \<Rightarrow> (error_code, 's) coro" where
  "handle_err J en err =
     (if err = make_error_code SessionReset then entity_setup J en else co_return err)"

partial_function (option) entity_recv ::
  "('o, 'v) json_api \<Rightarrow> ('o, 's) entity \<Rightarrow> 's \<Rightarrow> (recv_result res \<times> 's) option" where
  "entity_recv J en s =
     await (c_recv (e_client en)) (\<lambda>packet s.
       case packet of
         Inr p \<Rightarrow> co_return (Inr p) s
       | Inl e \<Rightarrow> await (handle_err J en e) (\<lambda>err s.
           if failed err then co_return (Inl err) s else entity_recv J en s) s) s"

section \<open>Facts\<close>

lemma entity_setup_success:
  assumes "entity_setup J en s = Some (Ret e, s')" and "\<not> failed e"
  obtains e1 s1 e2 s2 where "e_discovery_impl en s = Some (Ret e1, s1)" and "\<not> failed e1"
    and "e_subscribe_impl en s1 = Some (Ret e2, s2)" and "\<not> failed e2"
    and "entity_update_availability J en True s2 = Some (Ret e, s')"
  using assms
  by (auto simp: entity_setup_def entity_discovery_def entity_subscribe_def await_Some_iff
      co_return_run split: if_splits)

text \<open>One turn of the receive loop, by what the client delivers.\<close>

lemma entity_recv_packet:
  "c_recv (e_client en) s = Some (Ret (Inr p), s') \<Longrightarrow> entity_recv J en s = Some (Ret (Inr p), s')"
  by (subst entity_recv.simps) (simp add: coro_simps)

lemma entity_recv_reset:
  assumes "c_recv (e_client en) s = Some (Ret (Inl (make_error_code SessionReset)), s1)"
    and "entity_setup J en s1 = Some (Ret e, s2)"
  shows "entity_recv J en s = (if failed e then Some (Ret (Inl e), s2) else entity_recv J en s2)"
  using assms by (subst entity_recv.simps) (simp add: coro_simps handle_err_def)

lemma entity_recv_error:
  assumes "c_recv (e_client en) s = Some (Ret (Inl e), s1)" and "failed e"
    and "e \<noteq> make_error_code SessionReset"
  shows "entity_recv J en s = Some (Ret (Inl e), s1)"
  using assms by (subst entity_recv.simps) (simp add: coro_simps handle_err_def)

text \<open>How one turn of the loop can end, with \<open>f\<close> for the turns after it.\<close>

lemma recv_turn_cases [consumes 1, case_names Packet Recv_Exn Handle_Exn Fail Again]:
  assumes "await recv (\<lambda>packet s. case packet of
      Inl e \<Rightarrow> await (handle e) (\<lambda>err s. if failed err then co_return (Inl err) s else f s) s
    | Inr p \<Rightarrow> co_return (Inr p) s) s = Some (r, s')"
  obtains p where "recv s = Some (Ret (Inr p), s')" and "r = Ret (Inr p)"
  | x where "recv s = Some (Exn x, s')" and "r = Exn x"
  | e s1 x where "recv s = Some (Ret (Inl e), s1)" and "handle e s1 = Some (Exn x, s')"
    and "r = Exn x"
  | e s1 e' where "recv s = Some (Ret (Inl e), s1)" and "handle e s1 = Some (Ret e', s')"
    and "failed e'" and "r = Ret (Inl e')"
  | e s1 e' s2 where "recv s = Some (Ret (Inl e), s1)" and "handle e s1 = Some (Ret e', s2)"
    and "\<not> failed e'" and "f s2 = Some (r, s')"
  using assms
proof (cases rule: await_Some_cases)
  case (Exn x)
  then show thesis by (rule that(2))
next
  case (Ret a s1)
  show thesis
  proof (cases a)
    case (Inr p)
    with Ret show thesis by (intro that(1) [of p]) (simp_all add: co_return_run)
  next
    case (Inl e)
    with Ret(2) have "await (handle e)
        (\<lambda>err s. if failed err then co_return (Inl err) s else f s) s1 = Some (r, s')" by simp
    then show thesis
    proof (cases rule: await_Some_cases)
      case (Exn x)
      with Ret(1) Inl show thesis by (intro that(3) [of e s1 x]) simp_all
    next
      case inner: (Ret e' s2)
      with Ret(1) Inl show thesis
        by (cases "failed e'") (auto simp: co_return_run intro: that(4,5))
    qed
  qed
qed

text \<open>
  Induction over a receive loop that comes back: its last turn delivers a packet, an error or an
  exception; every turn before it has met an error and recovered from it.
\<close>

lemma entity_recv_induct [consumes 1, case_names Packet Recv_Exn Handle_Exn Fail Again]:
  assumes run: "entity_recv J en s = Some (r, s')"
    and packet: "\<And>s p s1. c_recv (e_client en) s = Some (Ret (Inr p), s1) \<Longrightarrow> P s (Ret (Inr p)) s1"
    and recv_exn: "\<And>s x s1. c_recv (e_client en) s = Some (Exn x, s1) \<Longrightarrow> P s (Exn x) s1"
    and handle_exn: "\<And>s e s1 x s2. c_recv (e_client en) s = Some (Ret (Inl e), s1) \<Longrightarrow>
      handle_err J en e s1 = Some (Exn x, s2) \<Longrightarrow> P s (Exn x) s2"
    and fail: "\<And>s e s1 e' s2. c_recv (e_client en) s = Some (Ret (Inl e), s1) \<Longrightarrow>
      handle_err J en e s1 = Some (Ret e', s2) \<Longrightarrow> failed e' \<Longrightarrow> P s (Ret (Inl e')) s2"
    and again: "\<And>s e s1 e' s2 r s'. c_recv (e_client en) s = Some (Ret (Inl e), s1) \<Longrightarrow>
      handle_err J en e s1 = Some (Ret e', s2) \<Longrightarrow> \<not> failed e' \<Longrightarrow> P s2 r s' \<Longrightarrow> P s r s'"
  shows "P s r s'"
proof -
  let ?Q = "\<lambda>J' en' s x. J' = J \<and> en' = en \<longrightarrow> P s (fst x) (snd x)"
  have "?Q J en s (r, s')"
  proof (rule entity_recv.raw_induct [where P = ?Q, OF _ run], intro impI, elim conjE)
    fix f J' en' s x
    assume IH: "\<And>J' en' s x. f J' en' s = Some x \<Longrightarrow> ?Q J' en' s x"
      and turn: "await (c_recv (e_client en')) (\<lambda>packet s. case packet of
          Inl e \<Rightarrow> await (handle_err J' en' e) (\<lambda>err s.
            if failed err then co_return (Inl err) s else f J' en' s) s
        | Inr p \<Rightarrow> co_return (Inr p) s) s = Some x"
      and eq: "J' = J" "en' = en"
    obtain r s' where x: "x = (r, s')" by (cases x)
    from turn have "P s r s'" unfolding x eq
    proof (cases rule: recv_turn_cases)
      case (Again e s1 e' s2)
      from IH [OF this(4)] eq have "P s2 r s'" by simp
      with Again(1-3) show ?thesis by (rule again)
    qed (auto intro: packet recv_exn handle_exn fail)
    then show "P s (fst x) (snd x)" by (simp add: x)
  qed
  then show ?thesis by simp
qed

lemma entity_recv_failed:
  assumes "entity_recv J en s = Some (r, s')"
  shows "\<forall>e. r = Ret (Inl e) \<longrightarrow> failed e"
  using assms by (induction rule: entity_recv_induct) auto

section \<open>Availability\<close>

text \<open>
  An entity whose configuration has an availability topic and, after \<open>set\<close>, an explicit
  payload for being unavailable publishes that payload for \<open>False\<close> and the default \<open>online\<close> for
  \<open>True\<close>, on the topic, retained; without a topic an update reports success and does nothing.
\<close>

theorem availability_published:
  assumes "json_laws J" and "cfg_set J Availability_PayloadNotAvailable v ob = Ret (e_cfg en)"
    and "cfg_contains J Availability_Topic ob = Ret True" and "cfg_at J Availability_Topic ob = Ret t"
    and "cfg_contains J Availability_PayloadAvailable ob = Ret False"
    and "cfg_contains J Availability_Topic (e_cfg en') = Ret False"
  shows "entity_update_availability J en st =
      c_publish (e_client en) t (if st then ''online'' else v) (e_qos en) True \<and>
    entity_update_availability J en' st = co_return (make_error_code Success)"
proof -
  have at_kept: "cfg_at J Availability_Topic (e_cfg en) = Ret t"
    using json_laws.set_at_other [OF assms(1,2)] assms(4) by (simp add: apart_def property_defs)
  have kept: "cfg_contains J Availability_Topic (e_cfg en) = Ret True"
    "cfg_contains J Availability_PayloadAvailable (e_cfg en) = Ret False"
    using json_laws.set_contains_other [OF assms(1,2)] assms(3,5)
    by (simp_all add: apart_def property_defs)
  show ?thesis
    using json_laws.set_at_same [OF assms(1,2)] json_laws.set_contains_same [OF assms(1,2)] at_kept kept
      assms(6)
    by (simp add: entity_update_availability_def availability_payload_def at_or_def eval_res_def
        default_PayloadAvailable_def)
qed

definition still_client :: "unit client_ops" where
  "still_client =
     \<lparr>c_publish = (\<lambda>t p q r. co_return (make_error_code Success)),
      c_subscribe = (\<lambda>ts. co_return (make_error_code Success)),
      c_recv = (\<lambda>s. None), c_close = co_return (make_error_code Success)\<rparr>"

theorem availability_published_witness:
  "\<exists>ob. entity_update_availability alist_json
       \<lparr>e_client = still_client, e_cfg = ob, e_qos = at_most_once,
        e_discovery_impl = co_return (make_error_code Success),
        e_subscribe_impl = co_return (make_error_code Success)\<rparr> False =
     c_publish still_client ''a/t'' ''gone'' at_most_once True"
proof -
  obtain ob where ob: "cfg_set alist_json Availability_Topic ''a/t'' (j_empty alist_json) = Ret ob"
    by (simp add: cfg_set_def property_defs)
  moreover have "cfg_contains alist_json Availability_PayloadAvailable ob = Ret False"
    using ob by (auto simp: cfg_set_def cfg_contains_def property_defs)
  moreover obtain ob' where "cfg_set alist_json Availability_PayloadNotAvailable ''gone'' ob = Ret ob'"
    using ob by (auto simp: cfg_set_def property_defs)
  moreover note alist.set_at_same [OF ob] alist.set_contains_same [OF ob]
  ultimately show ?thesis
    using availability_published [OF alist.json_laws_axioms, where ob = ob and st = False
        and v = "''gone''" and t = "''a/t''" and
        en = "\<lparr>e_client = still_client, e_cfg = ob', e_qos = at_most_once,
          e_discovery_impl = co_return (make_error_code Success),
          e_subscribe_impl = co_return (make_error_code Success)\<rparr>" and
        en' = "\<lparr>e_client = still_client, e_cfg = [], e_qos = at_most_once,
          e_discovery_impl = co_return (make_error_code Success),
          e_subscribe_impl = co_return (make_error_code Success)\<rparr>"]
    by (auto simp: cfg_contains_def property_defs alist_json_def)
qed

end
