(* ===== verification/Entity_Run.thy ===== *)
theory Entity_Run
  imports Entity_Base
begin

text \<open>
  What the concrete entities share: the factory helpers of \<open>factory.h\<close>, the configuration an entity
  is created with, the receive loop all four \<open>async_run\<close> coroutines have, and the contracts between
  an entity and its client, with the lemmas that follow from them for every kind of entity.
\<close>

section \<open>Factories\<close>

definition common_factory_set_null :: "('o, 'v) json_api \<Rightarrow> 'o \<Rightarrow> property \<Rightarrow> 'o" where
  "common_factory_set_null J cfg k = cfg_set_null J k cfg"

definition common_factory_set_device :: "('o, 'v) json_api \<Rightarrow> 'o \<Rightarrow> device \<Rightarrow> 'o" where
  "common_factory_set_device J cfg d = cfg_set_device J d cfg"

definition common_factory_set :: "('o, 'v) json_api \<Rightarrow> 'o \<Rightarrow> property \<Rightarrow> string \<Rightarrow> 'o res" where
  "common_factory_set J cfg k v = cfg_set J k v cfg"

text \<open>The members every factory has; the client it also holds is given to \<open>create\<close> instead.\<close>

record 'o factory =
  f_unique_id :: string
  f_cfg :: 'o
  f_qos :: qos

definition map_res :: "('a \<Rightarrow> 'b) \<Rightarrow> 'a res \<Rightarrow> 'b res" where
  "map_res f r = (case r of Ret a \<Rightarrow> Ret (f a) | Exn e \<Rightarrow> Exn e)"

lemma map_res_simps [simp]: "map_res f (Ret a) = Ret (f a)" "map_res f (Exn e) = Exn e"
  by (simp_all add: map_res_def)

definition bind_res :: "'a res \<Rightarrow> ('a \<Rightarrow> 'b res) \<Rightarrow> 'b res" where
  "bind_res r f = (case r of Ret a \<Rightarrow> f a | Exn e \<Rightarrow> Exn e)"

lemma bind_res_simps [simp]: "bind_res (Ret a) f = f a" "bind_res (Exn e) f = Exn e"
  by (simp_all add: bind_res_def)

text \<open>The \<open>Config\<close> an entity is created with; buttons and covers add their handlers.\<close>

record 'o entity_config =
  ec_unique_id :: string
  ec_qos :: qos
  ec_cfg :: 'o

section \<open>The run loop\<close>

text \<open>
  \<open>while (true)\<close>: receive; return an error; otherwise handle the packet with \<open>on_packet\<close>, which
  may throw out of the loop.
\<close>

partial_function (option) run_loop ::
  "('o, 'v) json_api \<Rightarrow> ('o, 's) entity \<Rightarrow> (packet \<Rightarrow> (unit, 's) coro) \<Rightarrow> 's \<Rightarrow>
   (error_code res \<times> 's) option" where
  "run_loop J en on_packet s =
     await (entity_recv J en) (\<lambda>r s.
       case r of
         Inl e \<Rightarrow> co_return e s
       | Inr p \<Rightarrow> await (on_packet p) (\<lambda>_ s. run_loop J en on_packet s) s) s"

text \<open>\<open>co_spawn(executor, handler(), detached)\<close>, if there is a handler.\<close>

definition spawn_if :: "('h \<Rightarrow> 's \<Rightarrow> 's) \<Rightarrow> 'h option \<Rightarrow> (unit, 's) coro" where
  "spawn_if spawn h = (case h of None \<Rightarrow> co_return () | Some f \<Rightarrow> assign (spawn f) (co_return ()))"

lemma run_loop_packet_throws:
  assumes "c_recv (e_client en) s = Some (Ret (Inr p), s1)" and "on_packet p s1 = Some (Exn x, s2)"
  shows "run_loop J en on_packet s = Some (Exn x, s2)"
  by (subst run_loop.simps)
     (simp add: await_def entity_recv_packet [OF assms(1)] assms(2))

lemma run_loop_packet:
  assumes "entity_recv J en s = Some (Ret (Inr p), s1)" and "on_packet p s1 = Some (Ret u, s2)"
  shows "run_loop J en on_packet s = run_loop J en on_packet s2"
  by (subst run_loop.simps) (simp add: await_def assms)

lemma run_turn_cases [consumes 1, case_names Recv_Exn Error Packet_Exn Packet]:
  assumes "await recv (\<lambda>r s. case r of Inl e \<Rightarrow> co_return e s
      | Inr p \<Rightarrow> await (on_packet p) (\<lambda>_ s. f s) s) s = Some (r, s')"
  obtains x where "recv s = Some (Exn x, s')" and "r = Exn x"
  | e where "recv s = Some (Ret (Inl e), s')" and "r = Ret e"
  | p s1 x where "recv s = Some (Ret (Inr p), s1)" and "on_packet p s1 = Some (Exn x, s')" and "r = Exn x"
  | p s1 u s2 where "recv s = Some (Ret (Inr p), s1)" and "on_packet p s1 = Some (Ret u, s2)"
    and "f s2 = Some (r, s')"
  using assms
proof (cases rule: await_Some_cases)
  case (Ret a s1)
  show thesis
  proof (cases a)
    case (Inl e)
    with Ret that(2) show thesis by (simp add: co_return_run)
  next
    case (Inr p)
    with Ret(2) have "await (on_packet p) (\<lambda>_ s. f s) s1 = Some (r, s')" by simp
    then show thesis using Ret(1) Inr that(3,4) by (cases rule: await_Some_cases) auto
  qed
qed (rule that(1))

lemma run_loop_induct [consumes 1, case_names Recv_Exn Error Packet_Exn Packet]:
  assumes run: "run_loop J en on_packet s = Some (r, s')"
    and recv_exn: "\<And>s x s1. entity_recv J en s = Some (Exn x, s1) \<Longrightarrow> P s (Exn x) s1"
    and err: "\<And>s e s1. entity_recv J en s = Some (Ret (Inl e), s1) \<Longrightarrow> P s (Ret e) s1"
    and packet_exn: "\<And>s p s1 x s2. entity_recv J en s = Some (Ret (Inr p), s1) \<Longrightarrow>
      on_packet p s1 = Some (Exn x, s2) \<Longrightarrow> P s (Exn x) s2"
    and packet: "\<And>s p s1 u s2 r s'. entity_recv J en s = Some (Ret (Inr p), s1) \<Longrightarrow>
      on_packet p s1 = Some (Ret u, s2) \<Longrightarrow> P s2 r s' \<Longrightarrow> P s r s'"
  shows "P s r s'"
proof -
  let ?Q = "\<lambda>J' en' op s x. J' = J \<and> en' = en \<and> op = on_packet \<longrightarrow> P s (fst x) (snd x)"
  have "?Q J en on_packet s (r, s')"
  proof (rule run_loop.raw_induct [where P = ?Q, OF _ run], intro impI, elim conjE)
    fix f J' en' op s x
    assume IH: "\<And>J' en' op s x. f J' en' op s = Some x \<Longrightarrow> ?Q J' en' op s x"
      and turn: "await (entity_recv J' en') (\<lambda>r s. case r of Inl e \<Rightarrow> co_return e s
        | Inr p \<Rightarrow> await (op p) (\<lambda>_ s. f J' en' op s) s) s = Some x"
      and eq: "J' = J" "en' = en" "op = on_packet"
    obtain r s' where x: "x = (r, s')" by (cases x)
    from turn have "P s r s'" unfolding x eq
    proof (cases rule: run_turn_cases)
      case (Packet p s1 u s2)
      from IH [OF this(3)] eq have "P s2 r s'" by simp
      with Packet(1,2) show ?thesis by (rule packet)
    qed (auto intro: recv_exn err packet_exn)
    then show "P s (fst x) (snd x)" by (simp add: x)
  qed
  then show ?thesis by simp
qed

lemma run_loop_failed:
  assumes "run_loop J en on_packet s = Some (r, s')"
  shows "\<forall>e. r = Ret e \<longrightarrow> failed e"
  using assms by (induction rule: run_loop_induct) (auto dest: entity_recv_failed)

lemma run_loop_ret_failed: "run_loop J en on_packet s = Some (Ret e, s') \<Longrightarrow> failed e"
  by (drule run_loop_failed) simp

section \<open>Clients that keep a record of accepted requests\<close>

datatype request = Pub string string qos bool | Sub "topic_subopts list"

text \<open>
  The contract between an entity and its client: \<open>accepted s\<close> lists the requests the broker side has
  accepted so far. It only grows, and a publish or subscribe that reports success is in it.
\<close>

locale client_contract =
  fixes C :: "'s client_ops"
    and accepted :: "'s \<Rightarrow> request list"
  assumes publish_accepted: "c_publish C t p q r s = Some (Ret e, s') \<Longrightarrow>
      \<exists>xs. accepted s' = accepted s @ xs \<and> (\<not> failed e \<longrightarrow> Pub t p q r \<in> set xs)"
    and subscribe_accepted: "c_subscribe C ts s = Some (Ret e, s') \<Longrightarrow>
      \<exists>xs. accepted s' = accepted s @ xs \<and> (\<not> failed e \<longrightarrow> Sub ts \<in> set xs)"
    and recv_accepted: "c_recv C s = Some (Ret pk, s') \<Longrightarrow> grows (accepted s) (accepted s')"

text \<open>\<open>announces accepted m ws\<close>: if \<open>m\<close> reports success, \<open>ws\<close> has been accepted, in this order.\<close>

definition announces :: "('s \<Rightarrow> request list) \<Rightarrow> (error_code, 's) coro \<Rightarrow> request list \<Rightarrow> bool" where
  "announces accepted m ws \<longleftrightarrow>
     (\<forall>s e s'. m s = Some (Ret e, s') \<longrightarrow>
        (\<exists>xs. accepted s' = accepted s @ xs \<and> (\<not> failed e \<longrightarrow> subseq ws xs)))"

lemma announcesD:
  "announces accepted m ws \<Longrightarrow> m s = Some (Ret e, s') \<Longrightarrow> \<not> failed e \<Longrightarrow>
   \<exists>xs. accepted s' = accepted s @ xs \<and> subseq ws xs"
  unfolding announces_def by blast

lemma announces_return [simp]: "announces accepted (co_return e) []"
  by (simp add: announces_def co_return_run)

lemma announces_raise [simp]: "announces accepted (raise_exn e) ws"
  by (simp add: announces_def raise_exn_run)

lemma announces_then:
  assumes "announces accepted m ws" and "announces accepted k vs"
  shows "announces accepted (await m (\<lambda>err. if failed err then co_return err else k)) (ws @ vs)"
  unfolding announces_def
proof (intro allI impI)
  fix s e s'
  assume "await m (\<lambda>err. if failed err then co_return err else k) s = Some (Ret e, s')"
  then obtain a s1 where m: "m s = Some (Ret a, s1)"
    and k: "(if failed a then co_return a else k) s1 = Some (Ret e, s')"
    by (cases rule: await_Some_cases) auto
  obtain xs where xs: "accepted s1 = accepted s @ xs" "\<not> failed a \<longrightarrow> subseq ws xs"
    using assms(1) m unfolding announces_def by blast
  show "\<exists>xs. accepted s' = accepted s @ xs \<and> (\<not> failed e \<longrightarrow> subseq (ws @ vs) xs)"
  proof (cases "failed a")
    case True
    with k xs show ?thesis by (auto simp: co_return_run)
  next
    case False
    with k have "k s1 = Some (Ret e, s')" by simp
    with assms(2) obtain ys where "accepted s' = accepted s1 @ ys" "\<not> failed e \<longrightarrow> subseq vs ys"
      unfolding announces_def by blast
    with xs False show ?thesis by (intro exI [of _ "xs @ ys"]) (auto intro: list_emb_append_mono)
  qed
qed

context client_contract
begin

lemma publish_announces: "announces accepted (c_publish C t p q r) [Pub t p q r]"
  unfolding announces_def using publish_accepted by (metis subseq_singleton_left)

lemma subscribe_announces: "announces accepted (c_subscribe C ts) [Sub ts]"
  unfolding announces_def using subscribe_accepted by (metis subseq_singleton_left)

text \<open>
  What one setup announces: the discovery and subscription of the entity, then, where an
  availability topic is configured, that the entity is available.
\<close>

lemma availability_announces:
  assumes "e_client en = C" and "cfg_contains J Availability_Topic (e_cfg en) = Ret True"
    and "availability_payload J st (e_cfg en) = Ret val"
    and "cfg_at J Availability_Topic (e_cfg en) = Ret tp"
  shows "announces accepted (entity_update_availability J en st) [Pub tp val (e_qos en) True]"
  using assms publish_announces by (simp add: entity_update_availability_def eval_res_def)

lemma setup_announces:
  assumes "announces accepted (e_discovery_impl en) ds" and "announces accepted (e_subscribe_impl en) ss"
    and "announces accepted (entity_update_availability J en True) as"
  shows "announces accepted (entity_setup J en) (ds @ ss @ as)"
  unfolding entity_setup_def entity_discovery_def entity_subscribe_def
  by (intro announces_then assms)

end

section \<open>Recovering from session resets\<close>

text \<open>
  \<open>recovers J en s n s'\<close>: from \<open>s\<close> the client reports \<open>n\<close> session resets, one after the other, and
  each time the setup that follows works. An error report that is no failure is passed over.
\<close>

inductive recovers :: "('o, 'v) json_api \<Rightarrow> ('o, 's) entity \<Rightarrow> 's \<Rightarrow> nat \<Rightarrow> 's \<Rightarrow> bool" for J en where
  no_reset: "recovers J en s 0 s"
| reset: "c_recv (e_client en) s = Some (Ret (Inl (make_error_code SessionReset)), s1) \<Longrightarrow>
    entity_setup J en s1 = Some (Ret e, s2) \<Longrightarrow> \<not> failed e \<Longrightarrow> recovers J en s2 n s3 \<Longrightarrow>
    recovers J en s (Suc n) s3"
| no_failure: "c_recv (e_client en) s = Some (Ret (Inl e), s1) \<Longrightarrow> \<not> failed e \<Longrightarrow>
    recovers J en s1 n s2 \<Longrightarrow> recovers J en s n s2"

lemma entity_recv_no_failure:
  assumes "c_recv (e_client en) s = Some (Ret (Inl e), s1)" and "\<not> failed e"
  shows "entity_recv J en s = entity_recv J en s1"
  using assms by (subst entity_recv.simps) (auto simp: coro_simps handle_err_def)

lemma recovers_recv: "recovers J en s n s' \<Longrightarrow> entity_recv J en s = entity_recv J en s'"
  by (induction rule: recovers.induct) (simp_all add: entity_recv_reset entity_recv_no_failure)

text \<open>Conversely a receive that delivers a packet has recovered from every error before it.\<close>

lemma entity_recv_recovers:
  assumes "entity_recv J en s = Some (r, s')"
  shows "\<forall>p. r = Ret (Inr p) \<longrightarrow>
    (\<exists>n s1. recovers J en s n s1 \<and> c_recv (e_client en) s1 = Some (Ret (Inr p), s'))"
  using assms
proof (induction rule: entity_recv_induct)
  case (Packet s p s1)
  then show ?case by (blast intro: recovers.no_reset)
next
  case (Again s e s1 e' s2 r s')
  have "\<exists>m. recovers J en s m t" if "recovers J en s2 n t" for n t
  proof (cases "e = make_error_code SessionReset")
    case True
    with Again.hyps that show ?thesis by (auto simp: handle_err_def intro: recovers.reset)
  next
    case False
    with Again.hyps have "e' = e" "s2 = s1" by (simp_all add: handle_err_def co_return_run)
    with Again.hyps that show ?thesis by (auto intro: recovers.no_failure)
  qed
  with Again.IH show ?case by blast
qed simp_all

context client_contract
begin

lemma recovers_announces:
  assumes "recovers J en s n s'" and "e_client en = C"
    and "announces accepted (entity_setup J en) ws"
  shows "\<exists>xs. accepted s' = accepted s @ xs \<and> subseq (concat (replicate n ws)) xs"
  using assms(1)
proof (induction rule: recovers.induct)
  case (reset s s1 e s2 n s3)
  obtain xs where xs: "accepted s1 = accepted s @ xs"
    using recv_accepted reset.hyps(1) assms(2) unfolding grows_def by blast
  obtain ys where ys: "accepted s2 = accepted s1 @ ys" "subseq ws ys"
    using announcesD [OF assms(3) reset.hyps(2,3)] by blast
  from reset.IH obtain zs where zs: "accepted s3 = accepted s2 @ zs"
    "subseq (concat (replicate n ws)) zs" by blast
  have "subseq (ws @ concat (replicate n ws)) (xs @ ys @ zs)"
    using list_emb_append_mono [OF ys(2) zs(2)] by (rule list_emb_append2)
  with xs ys(1) zs(1) show ?case by (intro exI [of _ "xs @ ys @ zs"]) simp
next
  case (no_failure s e s1 n s2)
  obtain xs where "accepted s1 = accepted s @ xs"
    using recv_accepted no_failure.hyps(1) assms(2) unfolding grows_def by blast
  with no_failure.IH show ?case by (auto intro: list_emb_append2)
qed simp

end

end
