(* ===== verification/Rely.thy ===== *)
theory Rely
  imports Mqtt_Client
begin

text \<open>
  Relations that every step of the client respects. While a coroutine of the client is suspended,
  other coroutines run; what is known of all of them together is a reflexive and transitive
  relation \<open>R\<close> between the states before and after. The locale \<open>rely\<close> lifts such a relation from the
  third-party operations to every operation of \<open>AsyncMqttClient\<close>; invariants, logs that only grow
  and parts of the state that stay as they are, are instances.
\<close>

text \<open>\<open>steps_in ex R m\<close>: runs of \<open>m\<close> that return, and with \<open>ex\<close> also those that throw, are in \<open>R\<close>.\<close>

definition steps_in :: "bool \<Rightarrow> ('s \<Rightarrow> 's \<Rightarrow> bool) \<Rightarrow> ('a, 's) coro \<Rightarrow> bool" where
  "steps_in ex R m \<longleftrightarrow> (\<forall>s r s'. m s = Some (r, s') \<longrightarrow> ex \<or> (\<exists>a. r = Ret a) \<longrightarrow> R s s')"

lemma steps_inD: "steps_in ex R m \<Longrightarrow> m s = Some (Ret a, s') \<Longrightarrow> R s s'"
  unfolding steps_in_def by blast

lemma steps_inD_any: "steps_in True R m \<Longrightarrow> m s = Some (r, s') \<Longrightarrow> R s s'"
  unfolding steps_in_def by blast

lemma steps_assign:
  assumes "steps_in ex R k" and "\<And>s. R s (g s)" and "\<And>s t u. R s t \<Longrightarrow> R t u \<Longrightarrow> R s u"
  shows "steps_in ex R (assign g k)"
  using assms unfolding steps_in_def assign_def by blast

lemma steps_reading: "(\<And>t. steps_in ex R (k t)) \<Longrightarrow> steps_in ex R (reading k)"
  unfolding steps_in_def reading_def by blast

lemma steps_if: "steps_in ex R m \<Longrightarrow> steps_in ex R k \<Longrightarrow> steps_in ex R (if b then m else k)"
  by simp

lemma steps_await:
  assumes "steps_in ex R m" and "\<And>a. steps_in ex R (k a)" and "\<And>s t u. R s t \<Longrightarrow> R t u \<Longrightarrow> R s u"
  shows "steps_in ex R (await m k)"
  unfolding steps_in_def
proof (intro allI impI)
  fix s r s' assume run: "await m k s = Some (r, s')" and out: "ex \<or> (\<exists>a. r = Ret a)"
  from run show "R s s'"
  proof (cases rule: await_Some_cases)
    case (Ret a s1)
    with assms out show ?thesis unfolding steps_in_def by blast
  next
    case (Exn e)
    with assms(1) out show ?thesis unfolding steps_in_def by blast
  qed
qed

lemma steps_return: "(\<And>s. R s s) \<Longrightarrow> steps_in ex R (co_return a)"
  by (simp add: steps_in_def co_return_run)

locale rely =
  fixes T :: "('w, 'z) client_scheme transport"
    and ex :: bool
    and R :: "('w, 'z) client_scheme \<Rightarrow> ('w, 'z) client_scheme \<Rightarrow> bool"
  assumes R_refl: "R s s"
    and R_trans: "R s t \<Longrightarrow> R t u \<Longrightarrow> R s u"
    and handshake_steps: "steps_in ex R (t_handshake T h p)"
    and start_steps: "steps_in ex R (t_start T cl ka cid un pw)"
    and acquire_steps: "steps_in ex R (t_acquire_packet_id T)"
    and publish_steps: "steps_in ex R (t_publish T pk)"
    and subscribe_steps: "steps_in ex R (t_subscribe T pid ts)"
    and autorec_wait_steps: "steps_in ex R (t_autorec_wait T)"
    and sleep_steps: "steps_in ex R (t_sleep T d)"
    and disconnect_steps: "steps_in ex R (t_disconnect T)"
    and close_steps: "steps_in ex R (t_close T)"
    and cancel_steps: "R s (t_autorec_cancel T s)"
    and never_steps: "R s (t_autorec_expires_never T s)"
    and state_steps: "R s (s\<lparr>state := x\<rparr>)"
    and attempt_steps: "R s (s\<lparr>attempt := n\<rparr>)"

locale rely_recv = rely +
  assumes recv_steps: "steps_in ex R (t_recv T)"

context rely
begin

lemmas op_steps =
  handshake_steps start_steps acquire_steps publish_steps subscribe_steps autorec_wait_steps
  sleep_steps disconnect_steps close_steps steps_return [where R = R, OF R_refl]

lemma await_steps: "steps_in ex R m \<Longrightarrow> (\<And>a. steps_in ex R (k a)) \<Longrightarrow> steps_in ex R (await m k)"
  by (rule steps_await) (assumption, assumption, rule R_trans)

lemma assign_steps: "steps_in ex R k \<Longrightarrow> (\<And>s. R s (g s)) \<Longrightarrow> steps_in ex R (assign g k)"
  by (rule steps_assign) (assumption, assumption, rule R_trans)

lemmas body_steps = await_steps steps_reading steps_if op_steps

lemma connected_steps: "R s (s\<lparr>state := x, attempt := n\<rparr>)"
  by (rule R_trans [OF state_steps attempt_steps])

lemma hung_up_steps: "R s (t_autorec_cancel T (s\<lparr>state := x\<rparr>))"
  by (rule R_trans [OF state_steps cancel_steps])

lemma parked_steps: "R s (t_autorec_expires_never T (s\<lparr>state := x\<rparr>))"
  by (rule R_trans [OF state_steps never_steps])

lemma connect_steps: "steps_in ex R (async_connect T)"
  unfolding async_connect_def
  by (intro body_steps assign_steps connected_steps)

lemma async_disconnect_steps: "steps_in ex R (async_disconnect T)"
  unfolding async_disconnect_def by (intro body_steps assign_steps hung_up_steps)

lemma async_close_steps: "steps_in ex R (async_close T)"
  unfolding async_close_def by (intro body_steps assign_steps hung_up_steps)

lemma when_connected_steps: "steps_in ex R body \<Longrightarrow> steps_in ex R (when_connected T body)"
  unfolding when_connected_def async_wait_autoreconnect_def by (intro body_steps)

lemma async_publish_steps: "steps_in ex R (async_publish T t p q rt)"
  unfolding async_publish_def by (intro when_connected_steps body_steps)

lemma async_subscribe_steps: "steps_in ex R (async_subscribe T ts)"
  unfolding async_subscribe_def by (intro when_connected_steps body_steps)

lemma counted_steps:
  "m (s\<lparr>attempt := n\<rparr>) = Some (r, s') \<Longrightarrow> steps_in ex R m \<Longrightarrow> ex \<or> (\<exists>a. r = Ret a) \<Longrightarrow> R s s'"
  unfolding steps_in_def using R_trans [OF attempt_steps] by blast

lemma reconnect_loop_steps: "steps_in ex R (reconnect_loop T d err)"
  unfolding steps_in_def
proof (intro allI impI)
  fix s r s' assume run: "reconnect_loop T d err s = Some (r, s')" and out: "ex \<or> (\<exists>a. r = Ret a)"
  let ?Q = "\<lambda>T' d err s x. T' = T \<longrightarrow> ex \<or> (\<exists>a. fst x = Ret a) \<longrightarrow> R s (snd x)"
  have "?Q T d err s (r, s')"
  proof (rule reconnect_loop.raw_induct [where P = ?Q, OF _ run], intro impI)
    fix f T' d err s x
    assume IH: "\<And>T' d err s x. f T' d err s = Some x \<Longrightarrow> ?Q T' d err s x"
      and turn: "(if attempt s < max_attempts s
         then await (t_sleep T' d) (\<lambda>_. await (async_connect T') (\<lambda>err s.
           if \<not> failed err then assign (\<lambda>s. t_autorec_cancel T' (s\<lparr>state := Connected\<rparr>))
             (co_return (make_error_code SessionReset)) s
           else f T' (min (d * 2) max_delay) err s)) (s\<lparr>attempt := attempt s + 1\<rparr>)
         else assign (\<lambda>s. t_autorec_cancel T' (s\<lparr>state := Closed\<rparr>)) (co_return err)
           (s\<lparr>attempt := attempt s + 1\<rparr>)) = Some x"
      and T': "T' = T" and out: "ex \<or> (\<exists>a. fst x = Ret a)"
    have rest: "steps_in ex R (\<lambda>s. if \<not> failed err
        then assign (\<lambda>s. t_autorec_cancel T (s\<lparr>state := Connected\<rparr>))
          (co_return (make_error_code SessionReset)) s
        else f T (min (d * 2) max_delay) err s)" for err
    proof (cases "failed err")
      case True
      have "R s s1" if "f T (min (d * 2) max_delay) err s = Some (r, s1)"
        and "ex \<or> (\<exists>a. r = Ret a)" for s r s1
        using IH [OF that(1)] that(2) by simp
      with True show ?thesis unfolding steps_in_def by simp
    next
      case False
      then show ?thesis by (simp add: assign_steps hung_up_steps op_steps)
    qed
    have "steps_in ex R (await (t_sleep T d) (\<lambda>_. await (async_connect T) (\<lambda>err s.
        if \<not> failed err then assign (\<lambda>s. t_autorec_cancel T (s\<lparr>state := Connected\<rparr>))
          (co_return (make_error_code SessionReset)) s
        else f T (min (d * 2) max_delay) err s)))"
      by (intro await_steps sleep_steps connect_steps rest)
    moreover have "steps_in ex R (assign (\<lambda>s. t_autorec_cancel T (s\<lparr>state := Closed\<rparr>)) (co_return err))"
      by (intro assign_steps op_steps hung_up_steps)
    ultimately show "R s (snd x)" using turn T' out
      by (cases x) (auto split: if_splits dest: counted_steps)
  qed
  then show "R s s'" using out by simp
qed

lemma handle_reconnect_steps: "steps_in ex R (async_handle_reconnect T)"
  unfolding async_handle_reconnect_def
  by (intro body_steps assign_steps reconnect_loop_steps parked_steps)

end

context rely_recv
begin

lemma async_recv_steps: "steps_in ex R (async_recv T)"
proof -
  have "steps_in ex R (case r of (err, packet) \<Rightarrow>
      if failed err then await (async_handle_reconnect T) (\<lambda>err_rc. co_return (Inl err_rc))
      else case packet of None \<Rightarrow> co_return (Inl (make_error_code InvalidPacket))
        | Some p \<Rightarrow> co_return (Inr p))" for r
    by (cases r; cases "snd r") (auto intro: body_steps handle_reconnect_steps)
  then show ?thesis unfolding async_recv_def by (intro await_steps recv_steps)
qed

end

end
