(* ===== verification/Direct_Client.thy ===== *)
theory Direct_Client
  imports Entity_Run Client_Invariant Rely
begin

text \<open>
  An \<open>AsyncMqttClient\<close> as the client of an entity (\<open>ClientType\<close>, the default of the \<open>Client\<close> template
  parameter), and the proof that over any logged transport it keeps the contract that the
  entities rely on.
\<close>

definition direct_client ::
  "('w, 'z) client_scheme transport \<Rightarrow> ('w, 'z) client_scheme client_ops" where
  "direct_client T =
     \<lparr>c_publish = async_publish T, c_subscribe = async_subscribe T, c_recv = async_recv T,
      c_close = async_close T\<rparr>"

lemma direct_client_simps [simp]:
  "c_publish (direct_client T) = async_publish T" "c_subscribe (direct_client T) = async_subscribe T"
  "c_recv (direct_client T) = async_recv T" "c_close (direct_client T) = async_close T"
  by (simp_all add: direct_client_def)

text \<open>The requests the broker has accepted, read off the wire log.\<close>

fun accepted_requests :: "event list \<Rightarrow> request list" where
  "accepted_requests [] = []"
| "accepted_requests (Published pk e # evs) =
     (if failed e then [] else [Pub (pk_topic pk) (pk_payload pk) (pk_qos pk) (pk_retain pk)]) @
     accepted_requests evs"
| "accepted_requests (Subscribed ts e # evs) =
     (if failed e then [] else [Sub ts]) @ accepted_requests evs"
| "accepted_requests (_ # evs) = accepted_requests evs"

lemma accepted_append [simp]:
  "accepted_requests (xs @ ys) = accepted_requests xs @ accepted_requests ys"
  by (induction xs rule: accepted_requests.induct) simp_all

section \<open>Operations only extend the log\<close>

definition extends :: "('w \<Rightarrow> event list) \<Rightarrow> ('a, ('w, 'z) client_scheme) coro \<Rightarrow> bool" where
  "extends events m \<longleftrightarrow> steps_in False (\<lambda>s s'. grows (events (impl s)) (events (impl s'))) m"

lemma logs_extends: "logs events m ev \<Longrightarrow> steps_in False (\<lambda>s s'. grows (events (impl s)) (events (impl s'))) m"
  unfolding logs_def steps_in_def grows_def by blast

sublocale logged_transport \<subseteq> log: rely_recv T False "\<lambda>s s'. grows (events (impl s)) (events (impl s'))"
proof unfold_locales
  fix s t u :: "('w, 'z) client_scheme"
  assume "grows (events (impl s)) (events (impl t))" and "grows (events (impl t)) (events (impl u))"
  then show "grows (events (impl s)) (events (impl u))" by (rule grows_trans)
qed (rule logs_extends handshake_logs start_logs acquire_logs publish_logs subscribe_logs
       autorec_wait_logs sleep_logs disconnect_logs close_logs recv_logs
     | simp add: cancel_logs never_logs)+

context logged_transport
begin

lemma extends_ops:
  "extends events (t_acquire_packet_id T)" "extends events (t_autorec_wait T)"
  "extends events (t_publish T pk)" "extends events (t_subscribe T pid ts)"
  unfolding extends_def
  by (rule log.acquire_steps log.autorec_wait_steps log.publish_steps log.subscribe_steps)+

lemma extends_return: "extends events (co_return a)"
  unfolding extends_def by (rule steps_return) simp

lemma extends_await:
  fixes m :: "('a, ('w, 'z) client_scheme) coro"
  shows "extends events m \<Longrightarrow> (\<And>a. extends events (k a)) \<Longrightarrow> extends events (await m k)"
  unfolding extends_def by (rule log.await_steps)

lemma extends_reading: "(\<And>t. extends events (k t)) \<Longrightarrow> extends events (reading k)"
  unfolding extends_def by (rule steps_reading)

lemma extends_if: "extends events m \<Longrightarrow> extends events k \<Longrightarrow> extends events (if b then m else k)"
  by simp

lemmas extends_body = extends_await extends_reading extends_if extends_return extends_ops

abbreviation accepted :: "('w, 'z) client_scheme \<Rightarrow> request list" where
  "accepted s \<equiv> accepted_requests (events (impl s))"

lemma announces_after:
  assumes "extends events m" and "\<And>a. announces accepted (k a) ws"
  shows "announces accepted (await m k) ws"
  unfolding announces_def
proof (intro allI impI)
  fix s e s' assume "await m k s = Some (Ret e, s')"
  then obtain a s1 where m: "m s = Some (Ret a, s1)" and k: "k a s1 = Some (Ret e, s')"
    by (cases rule: await_Some_cases) auto
  from assms(1) m obtain zs where "events (impl s1) = events (impl s) @ zs"
    unfolding extends_def grows_def by (blast dest: steps_inD)
  moreover from assms(2) k obtain xs where "accepted s' = accepted s1 @ xs"
    and "\<not> failed e \<longrightarrow> subseq ws xs" unfolding announces_def by blast
  ultimately show "\<exists>xs. accepted s' = accepted s @ xs \<and> (\<not> failed e \<longrightarrow> subseq ws xs)"
    by (intro exI [of _ "accepted_requests zs @ xs"]) auto
qed

lemma announces_when_connected:
  assumes "announces accepted body ws"
  shows "announces accepted (when_connected T body) ws"
  unfolding when_connected_def async_wait_autoreconnect_def
proof (intro announces_after extends_body)
  fix u :: unit
  show "announces accepted (reading (\<lambda>s. if state s \<noteq> Connected
      then co_return (make_error_code NotConnected) else body)) ws"
    using assms unfolding announces_def by (auto simp: reading_run co_return_run)
qed

text \<open>A third-party call that is followed by nothing but the mapping of its error code.\<close>

lemma announces_call:
  assumes "logs events m ev" and "\<And>e. \<not> failed e \<Longrightarrow> accepted_requests (ev e) = ws"
  shows "announces accepted (await m (\<lambda>err. if failed err then co_return (map_err E err)
    else co_return (make_error_code Success))) ws"
  unfolding announces_def
proof (intro allI impI)
  fix s e s'
  assume "await m (\<lambda>err. if failed err then co_return (map_err E err)
    else co_return (make_error_code Success)) s = Some (Ret e, s')"
  then obtain err where m: "m s = Some (Ret err, s')" and e: "failed e = failed err"
    by (cases rule: await_Some_cases) (auto simp: co_return_run split: if_splits)
  from assms(1) m obtain xs ys where "events (impl s') = events (impl s) @ xs @ ev err @ ys"
    unfolding logs_def by blast
  then show "\<exists>xs. accepted s' = accepted s @ xs \<and> (\<not> failed e \<longrightarrow> subseq ws xs)"
    using assms(2) [of err] e
    by (intro exI [of _ "accepted_requests xs @ accepted_requests (ev err) @ accepted_requests ys"])
       auto
qed

lemma publish_announces: "announces accepted (async_publish T t p q r) [Pub t p q r]"
  unfolding async_publish_def
  by (intro announces_when_connected announces_after extends_body
      announces_call [OF publish_logs]) simp

lemma subscribe_announces: "announces accepted (async_subscribe T ts) [Sub ts]"
  unfolding async_subscribe_def
  by (intro announces_when_connected announces_after extends_ops
      announces_call [OF subscribe_logs]) simp

end

sublocale logged_transport \<subseteq> direct: client_contract "direct_client T" "\<lambda>s. accepted_requests (events (impl s))"
proof unfold_locales
  fix t p q r s e s'
  assume "c_publish (direct_client T) t p q r s = Some (Ret e, s')"
  with publish_announces [of t p q r] show "\<exists>xs. accepted_requests (events (impl s')) =
      accepted_requests (events (impl s)) @ xs \<and> (\<not> failed e \<longrightarrow> Pub t p q r \<in> set xs)"
    unfolding announces_def by (auto simp: subseq_singleton_left)
next
  fix ts s e s'
  assume "c_subscribe (direct_client T) ts s = Some (Ret e, s')"
  with subscribe_announces [of ts] show "\<exists>xs. accepted_requests (events (impl s')) =
      accepted_requests (events (impl s)) @ xs \<and> (\<not> failed e \<longrightarrow> Sub ts \<in> set xs)"
    unfolding announces_def by (auto simp: subseq_singleton_left)
next
  fix s pk s'
  assume "c_recv (direct_client T) s = Some (Ret pk, s')"
  then have "grows (events (impl s)) (events (impl s'))"
    using log.async_recv_steps by (auto dest: steps_inD)
  then show "grows (accepted_requests (events (impl s))) (accepted_requests (events (impl s')))"
    unfolding grows_def by auto
qed

context logged_transport
begin

lemmas direct_contract = direct.client_contract_axioms

end

end
