(* ===== verification/Inbox.thy ===== *)
theory Inbox
  imports Direct_Client
begin

text \<open>
  The second contract between an entity and its client: what has been delivered to the entity, and
  which handlers it has started. From it follows how often a run loop starts a handler. The direct
  client keeps the contract over a quiet transport, with the started handlers recorded in one more
  member of the state, which no operation of the client touches.
\<close>

locale inbox_contract =
  fixes C :: "'s client_ops"
    and spawn :: "'h \<Rightarrow> 's \<Rightarrow> 's"
    and delivered :: "'s \<Rightarrow> packet list"
    and spawned :: "'s \<Rightarrow> 'h list"
  assumes publish_keeps: "keeps delivered (c_publish C t p q rt)" "keeps spawned (c_publish C t p q rt)"
    and subscribe_keeps: "keeps delivered (c_subscribe C ts)" "keeps spawned (c_subscribe C ts)"
    and recv_keeps: "keeps spawned (c_recv C)"
    and recv_delivers: "c_recv C s = Some (r, s') \<Longrightarrow>
      delivered s' = delivered s @ (case r of Ret (Inr pk) \<Rightarrow> [pk] | _ \<Rightarrow> [])"
    and spawn_spawns: "delivered (spawn h s) = delivered s" "spawned (spawn h s) = spawned s @ [h]"

section \<open>Coroutines that keep a part of the state\<close>

lemma keeps_return [simp, intro]: "keeps f (co_return a)"
  by (simp add: keeps_def co_return_run)

lemma keeps_raise [simp, intro]: "keeps f (raise_exn e)"
  by (simp add: keeps_def raise_exn_run)

lemma keeps_eval [intro]: "(\<And>a. keeps f (k a)) \<Longrightarrow> keeps f (eval_res r k)"
  by (cases r) (simp_all add: eval_res_def)

lemma keeps_reading [intro]: "(\<And>t. keeps f (k t)) \<Longrightarrow> keeps f (reading k)"
  unfolding keeps_def reading_def by blast

lemma keeps_assign [intro]: "keeps f k \<Longrightarrow> (\<And>s. f (g s) = f s) \<Longrightarrow> keeps f (assign g k)"
  unfolding keeps_def assign_def by metis

lemma keeps_if [intro]: "keeps f m \<Longrightarrow> keeps f k \<Longrightarrow> keeps f (if b then m else k)"
  by simp

lemma setup_keeps:
  assumes "keeps f (e_discovery_impl en)" and "keeps f (e_subscribe_impl en)"
    and "\<And>t p q r. keeps f (c_publish (e_client en) t p q r)"
  shows "keeps f (entity_setup J en)"
  unfolding entity_setup_def entity_discovery_def entity_subscribe_def entity_update_availability_def
  by (intro keeps_await keeps_if keeps_eval keeps_return assms)

section \<open>What a run loop delivers and starts\<close>

context inbox_contract
begin

lemma entity_recv_delivers:
  assumes "entity_recv J en s = Some (r, s')" and C: "e_client en = C"
    and discovery: "keeps delivered (e_discovery_impl en)" "keeps spawned (e_discovery_impl en)"
    and subscribe: "keeps delivered (e_subscribe_impl en)" "keeps spawned (e_subscribe_impl en)"
  shows "delivered s' = delivered s @ (case r of Ret (Inr pk) \<Rightarrow> [pk] | _ \<Rightarrow> []) \<and> spawned s' = spawned s"
proof -
  have set_up: "keeps delivered (entity_setup J en)" "keeps spawned (entity_setup J en)"
    using setup_keeps [of delivered en J] setup_keeps [of spawned en J] discovery subscribe publish_keeps
    by (simp_all add: C)
  then have handle: "keeps delivered (handle_err J en e)" "keeps spawned (handle_err J en e)" for e
    unfolding handle_err_def by simp_all
  note got = recv_delivers [folded C] keepsD [OF recv_keeps [folded C]]
  note handled = keepsD [OF handle(1)] keepsD [OF handle(2)]
  from assms(1) show ?thesis
  proof (induction rule: entity_recv_induct)
    case (Packet s p s1)
    from got [OF this] show ?case by simp
  next
    case (Recv_Exn s x s1)
    from got [OF this] show ?case by simp
  next
    case (Handle_Exn s e s1 x s2)
    from got [OF this(1)] handled [OF this(2)] show ?case by simp
  next
    case (Fail s e s1 e' s2)
    from got [OF this(1)] handled [OF this(2)] show ?case by simp
  next
    case (Again s e s1 e' s2 r s')
    from got [OF this(1)] handled [OF this(2)] this(4) show ?case by simp
  qed
qed

lemma run_loop_spawns:
  assumes "run_loop J en on_packet s = Some (r, s')" and C: "e_client en = C"
    and "keeps delivered (e_discovery_impl en)" "keeps spawned (e_discovery_impl en)"
    and "keeps delivered (e_subscribe_impl en)" "keeps spawned (e_subscribe_impl en)"
    and react: "\<And>p s r s'. on_packet p s = Some (r, s') \<Longrightarrow>
      delivered s' = delivered s \<and> spawned s' = spawned s @ f p"
  shows "\<exists>ps. delivered s' = delivered s @ ps \<and> spawned s' = spawned s @ concat (map f ps)"
proof -
  note recv = entity_recv_delivers [OF _ assms(2-6)]
  from assms(1) show ?thesis
proof (induction rule: run_loop_induct)
  case (Recv_Exn s x s1)
  from recv [OF this] show ?case by (intro exI [of _ "[]"]) simp
next
  case (Error s e s1)
  from recv [OF this] show ?case by (intro exI [of _ "[]"]) simp
next
  case (Packet_Exn s p s1 x s2)
  from recv [OF this(1)] react [OF this(2)] show ?case by (intro exI [of _ "[p]"]) simp
next
  case (Packet s p s1 u s2 r s')
  then obtain ps where "delivered s' = delivered s2 @ ps" "spawned s' = spawned s2 @ concat (map f ps)"
    by blast
  with recv [OF Packet(1)] react [OF Packet(2)] show ?case by (intro exI [of _ "p # ps"]) simp
  qed
qed

lemma spawn_if_spawns:
  "spawn_if spawn h s = Some (r, s') \<Longrightarrow>
   delivered s' = delivered s \<and> spawned s' = spawned s @ (case h of None \<Rightarrow> [] | Some f \<Rightarrow> [f])"
  by (auto simp: spawn_if_def assign_run co_return_run spawn_spawns split: option.splits)

end

section \<open>The direct client keeps the contract\<close>

text \<open>A state with a client and the list of handlers that have been started.\<close>

record ('w, 'h) host = "'w client" +
  spawned :: "'h list"

definition spawn_host :: "'h \<Rightarrow> ('w, 'h) host \<Rightarrow> ('w, 'h) host" where
  "spawn_host h s = s\<lparr>spawned := spawned s @ [h]\<rparr>"

fun delivered_packets :: "event list \<Rightarrow> packet list" where
  "delivered_packets [] = []"
| "delivered_packets (Received (e, p) # evs) =
     (if failed e then [] else case p of None \<Rightarrow> [] | Some pk \<Rightarrow> [pk]) @ delivered_packets evs"
| "delivered_packets (_ # evs) = delivered_packets evs"

lemma delivered_append [simp]:
  "delivered_packets (xs @ ys) = delivered_packets xs @ delivered_packets ys"
  by (induction xs rule: delivered_packets.induct) simp_all

text \<open>The part of the state that only a receive changes.\<close>

definition inbox :: "('w \<Rightarrow> event list) \<Rightarrow> ('w, 'z) client_scheme \<Rightarrow> packet list \<times> 'z" where
  "inbox events s = (delivered_packets (events (impl s)), client.more s)"

lemma keeps_steps: "keeps f m \<longleftrightarrow> steps_in True (\<lambda>s s'. f s' = f s) m"
  unfolding keeps_def steps_in_def by blast

locale private_transport = quiet_transport +
  assumes more_kept:
    "keeps client.more (t_handshake T h p)" "keeps client.more (t_start T cl ka cid u pw)"
    "keeps client.more (t_acquire_packet_id T)" "keeps client.more (t_publish T pk)"
    "keeps client.more (t_subscribe T pid ts)" "keeps client.more (t_autorec_wait T)"
    "keeps client.more (t_sleep T d)" "keeps client.more (t_recv T)"
    "keeps client.more (t_disconnect T)" "keeps client.more (t_close T)"
    "client.more (t_autorec_cancel T s) = client.more s"
    "client.more (t_autorec_expires_never T s) = client.more s"
begin

lemma does_keeps:
  assumes "does events m ev" and "\<And>a. delivered_packets (ev a) = []" and "keeps client.more m"
  shows "keeps (inbox events) m"
  unfolding keeps_def
proof (intro allI impI)
  fix s r s' assume "m s = Some (r, s')"
  with assms(1) [THEN doesE, of s] assms(2) have "delivered_packets (events (impl s')) = delivered_packets (events (impl s))"
    by fastforce
  moreover have "client.more s' = client.more s" using assms(3) \<open>m s = Some (r, s')\<close> by (rule keepsD)
  ultimately show "inbox events s' = inbox events s" by (simp add: inbox_def)
qed

lemmas op_keeps =
  does_keeps [OF handshake_does _ more_kept(1)] does_keeps [OF start_does _ more_kept(2)]
  does_keeps [OF acquire_does _ more_kept(3)] does_keeps [OF publish_does _ more_kept(4)]
  does_keeps [OF subscribe_does _ more_kept(5)] does_keeps [OF autorec_wait_does _ more_kept(6)]
  does_keeps [OF sleep_does _ more_kept(7)]

end

sublocale private_transport \<subseteq> still: rely T True "\<lambda>s s'. inbox events s' = inbox events s"
proof unfold_locales
  show "inbox events (t_autorec_cancel T s) = inbox events s"
    and "inbox events (t_autorec_expires_never T s) = inbox events s"
    and "inbox events (s\<lparr>state := x\<rparr>) = inbox events s"
    and "inbox events (s\<lparr>attempt := n\<rparr>) = inbox events s" for s x n
    by (simp_all add: inbox_def cancel_does never_does more_kept)
  show "steps_in True (\<lambda>s s'. inbox events s' = inbox events s) (t_disconnect T)"
    and "steps_in True (\<lambda>s s'. inbox events s' = inbox events s) (t_close T)"
    unfolding keeps_steps [symmetric]
    using does_keeps [OF disconnect_does _ more_kept(9)] does_keeps [OF close_does _ more_kept(10)] by simp_all
qed (simp_all flip: keeps_steps add: op_keeps)

context private_transport
begin

lemmas publish_keeps_inbox = still.async_publish_steps [folded keeps_steps]
lemmas subscribe_keeps_inbox = still.async_subscribe_steps [folded keeps_steps]
lemmas reconnect_keeps = still.handle_reconnect_steps [folded keeps_steps]

lemma recv_inbox:
  assumes "async_recv T s = Some (r, s')"
  shows "client.more s' = client.more s"
    and "delivered_packets (events (impl s')) =
      delivered_packets (events (impl s)) @ (case r of Ret (Inr pk) \<Rightarrow> [pk] | _ \<Rightarrow> [])"
proof -
  obtain e p s1 where got: "t_recv T s = Some (Ret (e, p), s1)"
    and log: "events (impl s1) = events (impl s) @ [Received (e, p)]"
    and rest: "(if failed e then await (async_handle_reconnect T) (\<lambda>err_rc. co_return (Inl err_rc))
       else (case p of None \<Rightarrow> co_return (Inl (make_error_code InvalidPacket))
             | Some p \<Rightarrow> co_return (Inr p))) s1 = Some (r, s')"
    using assms recv_does unfolding async_recv_def
    by (cases rule: await_Some_cases) (fastforce split: prod.splits)+
  have more: "client.more s1 = client.more s" using keepsD [OF more_kept(8) got] .
  have "keeps (inbox events) (await (async_handle_reconnect T) (\<lambda>err_rc. co_return (Inl err_rc)))"
    by (intro keeps_await reconnect_keeps keeps_return)
  note reconnect = keepsD [OF this]
  have "client.more s' = client.more s \<and> delivered_packets (events (impl s')) =
      delivered_packets (events (impl s)) @ (case r of Ret (Inr pk) \<Rightarrow> [pk] | _ \<Rightarrow> [])"
  proof (cases "failed e")
    case True
    with rest have run: "await (async_handle_reconnect T) (\<lambda>err_rc. co_return (Inl err_rc)) s1 = Some (r, s')"
      by simp
    then have "\<not> (\<exists>pk. r = Ret (Inr pk))"
      by (cases rule: await_Some_cases) (auto simp: co_return_run)
    then have "(case r of Ret (Inr pk) \<Rightarrow> [pk] | _ \<Rightarrow> []) = []"
      by (auto split: res.split sum.split)
    with reconnect [OF run] more log True show ?thesis by (simp add: inbox_def)
  next
    case False
    with rest more log show ?thesis by (auto simp: co_return_run split: option.splits)
  qed
  then show "client.more s' = client.more s" and "delivered_packets (events (impl s')) =
      delivered_packets (events (impl s)) @ (case r of Ret (Inr pk) \<Rightarrow> [pk] | _ \<Rightarrow> [])" by simp_all
qed

lemma inbox_keepsD:
  "keeps (inbox events) m \<Longrightarrow> keeps (\<lambda>s. delivered_packets (events (impl s))) m"
  "keeps (inbox events) m \<Longrightarrow> keeps client.more m"
  unfolding keeps_def inbox_def by blast+

end

text \<open>The same contract over a state with handlers, whose handlers are then kept too.\<close>

lemma spawned_more: "client.more s = client.more t \<Longrightarrow> spawned s = spawned t"
  by (cases s; cases t) simp

locale host_transport = private_transport T events
  for T :: "('w, 'h) host transport" and events :: "'w \<Rightarrow> event list"

sublocale host_transport \<subseteq> started: inbox_contract "direct_client T" spawn_host
    "\<lambda>s. delivered_packets (events (impl s))" spawned
proof unfold_locales
  fix s r s' assume "c_recv (direct_client T) s = Some (r, s')"
  then show "delivered_packets (events (impl s')) =
      delivered_packets (events (impl s)) @ (case r of Ret (Inr pk) \<Rightarrow> [pk] | _ \<Rightarrow> [])"
    using recv_inbox(2) by simp
next
  show "keeps spawned (c_recv (direct_client T))"
    unfolding keeps_def using recv_inbox(1) spawned_more by (metis direct_client_simps(3))
next
  fix t p q rt
  note kept = inbox_keepsD [OF publish_keeps_inbox [of t p q rt]]
  show "keeps (\<lambda>s. delivered_packets (events (impl s))) (c_publish (direct_client T) t p q rt)"
    using kept(1) by simp
  show "keeps spawned (c_publish (direct_client T) t p q rt)"
    using kept(2) spawned_more unfolding keeps_def by (metis direct_client_simps(1))
next
  fix ts
  note kept = inbox_keepsD [OF subscribe_keeps_inbox [of ts]]
  show "keeps (\<lambda>s. delivered_packets (events (impl s))) (c_subscribe (direct_client T) ts)"
    using kept(1) by simp
  show "keeps spawned (c_subscribe (direct_client T) ts)"
    using kept(2) spawned_more unfolding keeps_def by (metis direct_client_simps(2))
qed (simp_all add: spawn_host_def)

lemma on_world_keeps: "keeps client.more (on_world m)"
  by (auto simp: keeps_def on_world_def)

interpretation sim_private: private_transport "sim_transport E" sim_log for E
  by unfold_locales (simp_all add: sim_transport_def on_world_keeps)

interpretation sim_host: host_transport "sim_transport E" sim_log for E
  by (rule host_transport.intro) (rule sim_private.private_transport_axioms)

text \<open>A connected simulated client that has started no handler, over the broker \<open>w\<close>.\<close>

definition sim_started :: "sim \<Rightarrow> (sim, nat) host" where
  "sim_started w =
     \<lparr>impl = w, config = default_config, state = Connected, attempt = 0,
      max_attempts = DefaultMaxAutoreconnectAttempts, spawned = []\<rparr>"

definition sim_client_ops :: "(sim, nat) host client_ops" where
  "sim_client_ops = direct_client (sim_transport sim_codes)"

text \<open>\<open>outcome r m s\<close>: from \<open>s\<close> the coroutine \<open>m\<close> completes with \<open>r\<close>; executable.\<close>

definition outcome :: "'a res \<Rightarrow> ('a, 's) coro \<Rightarrow> 's \<Rightarrow> bool" where
  "outcome r m s = (case m s of None \<Rightarrow> False | Some (q, _) \<Rightarrow> q = r)"

lemma outcomeE:
  assumes "outcome r m s" obtains s' where "m s = Some (r, s')"
  using assms unfolding outcome_def by (auto split: option.splits prod.splits)

text \<open>A broker that delivers the given packets and then a message without a packet.\<close>

definition sim_delivering :: "packet list \<Rightarrow> sim" where
  "sim_delivering ps = idle_sim\<lparr>sim_recvs := map (\<lambda>p. (no_error, Some p)) ps @ [(no_error, None)]\<rparr>"

definition plain_publish :: "string \<Rightarrow> string \<Rightarrow> packet" where
  "plain_publish t p = Publish
     \<lparr>pk_id = 0, pk_topic = t, pk_payload = p, pk_qos = at_most_once, pk_retain = False\<rparr>"

lemma sim_recv_packet:
  "sim_recvs (impl s) = (no_error, Some p) # rs \<Longrightarrow>
   async_recv (sim_transport E) s =
     Some (Ret (Inr p), s\<lparr>impl := sim_note (Received (no_error, Some p)) ((impl s)\<lparr>sim_recvs := rs\<rparr>)\<rparr>)"
  by (simp add: async_recv_def sim_defs coro_simps await_def failed_def)

lemma sim_recv_no_packet:
  "sim_recvs (impl s) = (no_error, None) # rs \<Longrightarrow>
   async_recv (sim_transport E) s =
     Some (Ret (Inl (make_error_code InvalidPacket)),
       s\<lparr>impl := sim_note (Received (no_error, None)) ((impl s)\<lparr>sim_recvs := rs\<rparr>)\<rparr>)"
  by (simp add: async_recv_def sim_defs coro_simps await_def failed_def)

text \<open>A run loop over such a broker comes back, having been given all the packets.\<close>

lemma run_loop_delivering:
  assumes "e_client en = direct_client (sim_transport E)"
    and "\<And>p s. on_packet p s = Some (Ret (), g p s)" and "\<And>p s. impl (g p s) = impl s"
    and "sim_recvs (impl s) = map (\<lambda>p. (no_error, Some p)) ps @ [(no_error, None)]"
  shows "\<exists>s'. run_loop J en on_packet s = Some (Ret (make_error_code InvalidPacket), s') \<and>
    delivered_packets (sim_log (impl s')) = delivered_packets (sim_log (impl s)) @ ps"
  using assms(4)
proof (induction ps arbitrary: s)
  case Nil
  then have "sim_recvs (impl s) = (no_error, None) # []" by simp
  from sim_recv_no_packet [OF this, of E]
  have "entity_recv J en s = Some (Ret (Inl (make_error_code InvalidPacket)),
      s\<lparr>impl := sim_note (Received (no_error, None)) ((impl s)\<lparr>sim_recvs := []\<rparr>)\<rparr>)"
    by (intro entity_recv_error) (simp_all add: assms(1))
  then show ?case
    by (subst run_loop.simps) (simp add: await_def co_return_run sim_note_def no_error_def)
next
  case (Cons p ps)
  let ?s1 = "s\<lparr>impl := sim_note (Received (no_error, Some p)) ((impl s)\<lparr>sim_recvs :=
    map (\<lambda>p. (no_error, Some p)) ps @ [(no_error, None)]\<rparr>)\<rparr>"
  have "entity_recv J en s = Some (Ret (Inr p), ?s1)"
    by (rule entity_recv_packet) (simp add: assms(1) sim_recv_packet Cons.prems)
  from run_loop_packet [OF this assms(2)]
  have step: "run_loop J en on_packet s = run_loop J en on_packet (g p ?s1)" .
  obtain s' where "run_loop J en on_packet (g p ?s1) = Some (Ret (make_error_code InvalidPacket), s')"
    and "delivered_packets (sim_log (impl s')) = delivered_packets (sim_log (impl (g p ?s1))) @ ps"
    using Cons.IH [of "g p ?s1"] assms(3) by (auto simp: sim_note_def)
  with step show ?case by (simp add: assms(3) sim_note_def no_error_def failed_def)
qed

text \<open>
  \<open>sim_ready s rs\<close>: connected to a broker that accepts everything and has \<open>rs\<close> to deliver;
  \<open>sim_ok m\<close>: from such a state \<open>m\<close> succeeds and leaves such a state.
\<close>

definition sim_ready :: "(sim, 'z) client_scheme \<Rightarrow> (error_code \<times> packet option) list \<Rightarrow> bool" where
  "sim_ready s rs \<longleftrightarrow> state s = Connected \<and> attempt s = 0 \<and> 0 < max_attempts s \<and> sim_handshakes (impl s) = [] \<and>
     sim_starts (impl s) = [] \<and> sim_publishes (impl s) = [] \<and> sim_subscribes (impl s) = [] \<and>
     sim_recvs (impl s) = rs"

definition sim_ok :: "(error_code, (sim, 'z) client_scheme) coro \<Rightarrow> bool" where
  "sim_ok m \<longleftrightarrow> (\<forall>s rs. sim_ready s rs \<longrightarrow>
     (\<exists>e s'. m s = Some (Ret e, s') \<and> \<not> failed e \<and> sim_ready s' rs))"

lemma sim_okE:
  assumes "sim_ok m" and "sim_ready s rs"
  obtains e s' where "m s = Some (Ret e, s')" and "\<not> failed e" and "sim_ready s' rs"
  using assms unfolding sim_ok_def by blast

lemma sim_ok_publish: "sim_ok (c_publish (direct_client (sim_transport E)) t p q r)"
  by (cases "q = at_most_once")
     (auto simp: sim_ok_def sim_ready_def async_publish_def when_connected_ready sim_defs coro_simps
        await_def failed_def make_error_code_def Let_def)

lemma sim_ok_subscribe: "sim_ok (c_subscribe (direct_client (sim_transport E)) ts)"
  by (auto simp: sim_ok_def sim_ready_def async_subscribe_def when_connected_ready sim_defs coro_simps
        await_def failed_def make_error_code_def Let_def)

lemma sim_ok_return: "\<not> failed e \<Longrightarrow> sim_ok (co_return e)"
  by (simp add: sim_ok_def co_return_run)

lemma sim_ok_then:
  fixes m :: "(error_code, (sim, 'z) client_scheme) coro"
  assumes "sim_ok m" and "sim_ok k"
  shows "sim_ok (await m (\<lambda>e. if failed e then co_return e else k))"
  unfolding sim_ok_def
proof (intro allI impI)
  fix s :: "(sim, 'z) client_scheme" and rs assume "sim_ready s rs"
  with assms(1) obtain e s1 where "m s = Some (Ret e, s1)" "\<not> failed e" "sim_ready s1 rs"
    by (rule sim_okE)
  moreover from assms(2) this(3) obtain e' s2 where "k s1 = Some (Ret e', s2)" "\<not> failed e'" "sim_ready s2 rs"
    by (rule sim_okE)
  ultimately show "\<exists>e s'. await m (\<lambda>e. if failed e then co_return e else k) s = Some (Ret e, s') \<and>
      \<not> failed e \<and> sim_ready s' rs"
    by (simp add: await_Ret)
qed

lemma sim_ready_reset:
  assumes "sim_ready s ((Error_Code 2 Misc_Category, None) # rs)"
  obtains s' where "async_recv (sim_transport E) s = Some (Ret (Inl (make_error_code SessionReset)), s')"
    and "sim_ready s' rs"
proof -
  have "\<exists>s'. async_recv (sim_transport E) s = Some (Ret (Inl (make_error_code SessionReset)), s') \<and>
      sim_ready s' rs"
    using assms
    by (simp add: sim_ready_def async_recv_def async_handle_reconnect_def reconnect_loop.simps [of _ 1]
        async_connect_def sim_defs coro_simps await_def failed_def make_error_code_def Let_def)
  with that show thesis by blast
qed

text \<open>A receive over such a broker: one setup for every lost connection, then the packet.\<close>

lemma sim_entity_recv:
  assumes "e_client en = direct_client (sim_transport E)" and "sim_ok (entity_setup J en)"
    and "sim_ready s (replicate n (Error_Code 2 Misc_Category, None) @ (no_error, Some p) # rs)"
  shows "\<exists>s'. entity_recv J en s = Some (Ret (Inr p), s')"
  using assms(3)
proof (induction n arbitrary: s)
  case 0
  then have "sim_recvs (impl s) = (no_error, Some p) # rs" by (simp add: sim_ready_def)
  from sim_recv_packet [OF this, of E] show ?case
    by (intro exI) (rule entity_recv_packet, simp add: assms(1))
next
  case (Suc n)
  then obtain s1 where "async_recv (sim_transport E) s = Some (Ret (Inl (make_error_code SessionReset)), s1)"
    and "sim_ready s1 (replicate n (Error_Code 2 Misc_Category, None) @ (no_error, Some p) # rs)"
    by (auto elim: sim_ready_reset)
  moreover from assms(2) this(2) obtain e s2 where "entity_setup J en s1 = Some (Ret e, s2)"
    "\<not> failed e" "sim_ready s2 (replicate n (Error_Code 2 Misc_Category, None) @ (no_error, Some p) # rs)"
    by (rule sim_okE)
  ultimately show ?case using Suc.IH [of s2] by (simp add: entity_recv_reset assms(1))
qed

lemma sim_setup_ok:
  assumes "sim_ok (e_discovery_impl en)" and "sim_ok (e_subscribe_impl en)"
    and "sim_ok (entity_update_availability J en True)"
  shows "sim_ok (entity_setup J en)"
  unfolding entity_setup_def entity_discovery_def entity_subscribe_def
  by (intro sim_ok_then assms)

lemma sim_availability_ok:
  assumes "e_client en = direct_client (sim_transport E)"
    and "cfg_contains J Availability_Topic (e_cfg en) = Ret True"
    and "availability_payload J st (e_cfg en) = Ret v" and "cfg_at J Availability_Topic (e_cfg en) = Ret t"
  shows "sim_ok (entity_update_availability J en st)"
  using assms sim_ok_publish by (simp add: entity_update_availability_def eval_res_def)

end
