(* ===== verification/Button.thy ===== *)
theory Button
  imports Inbox
begin

text \<open>
  \<open>Button\<close> (\<open>button.h\<close>): an entity that subscribes to its command topic and starts its handler for
  every press it receives, and its factory. Handlers are values of a type \<open>'h\<close>; starting one on
  the executor is the parameter \<open>spawn\<close>.
\<close>

definition Button_CommandTopic :: property where
  "Button_CommandTopic = Property ''command_topic''"

definition Button_PayloadPress :: property where
  "Button_PayloadPress = Property ''payload_press''"

definition button_default_PayloadPress :: string where
  [simp]: "button_default_PayloadPress = ''PRESS''"

definition Button_Component :: string where
  "Button_Component = ''button''"

record ('o, 'h) button_config = "'o entity_config" +
  bt_handler :: "'h option"

definition button_discovery_impl ::
  "('o, 'v) json_api \<Rightarrow> 's client_ops \<Rightarrow> ('o, 'h) button_config \<Rightarrow> (error_code, 's) coro" where
  "button_discovery_impl J C cf =
     c_publish C (default_component_discovery_topic Button_Component (ec_unique_id cf))
       (cfg_json J (ec_cfg cf)) (ec_qos cf) True"

definition button_subscribe_impl ::
  "('o, 'v) json_api \<Rightarrow> 's client_ops \<Rightarrow> ('o, 'h) button_config \<Rightarrow> (error_code, 's) coro" where
  "button_subscribe_impl J C cf =
     eval_res (cfg_at J Button_CommandTopic (ec_cfg cf)) (\<lambda>topic.
     c_subscribe C [\<lparr>sub_topic = topic, sub_qos = ec_qos cf\<rparr>])"

definition button_entity ::
  "('o, 'v) json_api \<Rightarrow> 's client_ops \<Rightarrow> ('o, 'h) button_config \<Rightarrow> ('o, 's) entity" where
  "button_entity J C cf =
     \<lparr>e_client = C, e_cfg = ec_cfg cf, e_qos = ec_qos cf,
      e_discovery_impl = button_discovery_impl J C cf, e_subscribe_impl = button_subscribe_impl J C cf\<rparr>"

text \<open>The visitor of \<open>async_run\<close>: the conjunction looks the payload up only for the command topic.\<close>

definition button_on_packet ::
  "('o, 'v) json_api \<Rightarrow> ('h \<Rightarrow> 's \<Rightarrow> 's) \<Rightarrow> ('o, 'h) button_config \<Rightarrow> packet \<Rightarrow> (unit, 's) coro" where
  "button_on_packet J spawn cf p =
     (case p of
        Other_Packet _ \<Rightarrow> co_return ()
      | Publish pk \<Rightarrow>
          eval_res (cfg_at J Button_CommandTopic (ec_cfg cf)) (\<lambda>topic.
          if pk_topic pk \<noteq> topic then co_return ()
          else eval_res (cfg_at J Button_PayloadPress (ec_cfg cf)) (\<lambda>press.
          if pk_payload pk \<noteq> press then co_return ()
          else spawn_if spawn (bt_handler cf))))"

definition button_run ::
  "('o, 'v) json_api \<Rightarrow> ('h \<Rightarrow> 's \<Rightarrow> 's) \<Rightarrow> 's client_ops \<Rightarrow> ('o, 'h) button_config \<Rightarrow>
   (error_code, 's) coro" where
  "button_run J spawn C cf = run_loop J (button_entity J C cf) (button_on_packet J spawn cf)"

section \<open>Factory\<close>

record ('o, 'h) button_factory = "'o factory" +
  f_handler :: "'h option"

definition button_factory_cfg :: "('o, 'v) json_api \<Rightarrow> string \<Rightarrow> 'o res" where
  "button_factory_cfg J uid =
     EntityCfg J
       [(Property ''unique_id'', uid),
        (Button_PayloadPress, button_default_PayloadPress),
        (Button_CommandTopic, default_component_command_topic Button_Component uid),
        (Availability_Topic, default_component_availability_topic Button_Component uid)]"

definition button_factory :: "('o, 'v) json_api \<Rightarrow> string \<Rightarrow> ('o, 'h) button_factory res" where
  "button_factory J uid =
     map_res (\<lambda>ob. \<lparr>f_unique_id = uid, f_cfg = ob, f_qos = at_least_once, f_handler = None\<rparr>)
       (button_factory_cfg J uid)"

definition button_factory_set_device ::
  "('o, 'v) json_api \<Rightarrow> device \<Rightarrow> ('o, 'h) button_factory \<Rightarrow> ('o, 'h) button_factory" where
  "button_factory_set_device J d f = f\<lparr>f_cfg := cfg_set_device J d (f_cfg f)\<rparr>"

text \<open>The template \<open>set(key, value)\<close> with \<open>nullptr\<close> and with a string.\<close>

definition button_factory_set_null ::
  "('o, 'v) json_api \<Rightarrow> property \<Rightarrow> ('o, 'h) button_factory \<Rightarrow> ('o, 'h) button_factory" where
  "button_factory_set_null J k f = f\<lparr>f_cfg := cfg_set_null J k (f_cfg f)\<rparr>"

definition button_factory_set ::
  "('o, 'v) json_api \<Rightarrow> property \<Rightarrow> string \<Rightarrow> ('o, 'h) button_factory \<Rightarrow>
   ('o, 'h) button_factory res" where
  "button_factory_set J k v f = map_res (\<lambda>ob. f\<lparr>f_cfg := ob\<rparr>) (cfg_set J k v (f_cfg f))"

definition button_on_press :: "'h \<Rightarrow> ('o, 'h) button_factory \<Rightarrow> ('o, 'h) button_factory" where
  "button_on_press h f = f\<lparr>f_handler := Some h\<rparr>"

definition button_create :: "('o, 'h) button_factory \<Rightarrow> ('o, 'h) button_config" where
  "button_create f =
     \<lparr>ec_unique_id = f_unique_id f, ec_qos = f_qos f, ec_cfg = f_cfg f, bt_handler = f_handler f\<rparr>"

section \<open>A button of the factory\<close>

text \<open>\<open>button_of J uid h cf\<close>: the factory for \<open>uid\<close>, with \<open>on_press(h)\<close>, creates \<open>cf\<close>.\<close>

definition button_of :: "('o, 'v) json_api \<Rightarrow> string \<Rightarrow> 'h \<Rightarrow> ('o, 'h) button_config res" where
  "button_of J uid h = map_res (\<lambda>f. button_create (button_on_press h f)) (button_factory J uid)"

lemmas button_props = Button_CommandTopic_def Button_PayloadPress_def property_defs

context json_laws
begin

lemma button_of_holds:
  "\<exists>cf. button_of J uid h = Ret cf \<and> ec_unique_id cf = uid \<and> ec_qos cf = at_least_once \<and> bt_handler cf = Some h \<and>
     cfg_at J Button_CommandTopic (ec_cfg cf) = Ret (default_component_command_topic Button_Component uid) \<and>
     cfg_at J Button_PayloadPress (ec_cfg cf) = Ret ''PRESS'' \<and>
     cfg_at J Availability_Topic (ec_cfg cf) = Ret (default_component_availability_topic Button_Component uid) \<and>
     cfg_contains J Availability_Topic (ec_cfg cf) = Ret True \<and>
     cfg_contains J Availability_PayloadAvailable (ec_cfg cf) = Ret False"
  by (simp add: button_of_def button_factory_def button_factory_cfg_def button_create_def button_on_press_def
      EntityCfg_def cfg_set_def button_props cfg_contains_def cfg_at_def find_string_def)

end

lemma button_of_cfg:
  assumes "json_laws J"
  obtains cf where "button_of J uid h = Ret cf" and "ec_unique_id cf = uid"
    and "ec_qos cf = at_least_once" and "bt_handler cf = Some h"
    and "cfg_at J Button_CommandTopic (ec_cfg cf) =
           Ret (default_component_command_topic Button_Component uid)"
    and "cfg_at J Button_PayloadPress (ec_cfg cf) = Ret ''PRESS''"
    and "cfg_at J Availability_Topic (ec_cfg cf) =
           Ret (default_component_availability_topic Button_Component uid)"
    and "cfg_contains J Availability_Topic (ec_cfg cf) = Ret True"
    and "cfg_contains J Availability_PayloadAvailable (ec_cfg cf) = Ret False"
  using json_laws.button_of_holds [OF assms, of uid h] by blast

lemma button_announcement:
  assumes "client_contract C accepted" and "json_laws J" and "button_of J uid h = Ret cf"
  shows "announces accepted (entity_setup J (button_entity J C cf))
    [Pub (default_component_discovery_topic Button_Component uid) (cfg_json J (ec_cfg cf))
       at_least_once True,
     Sub [\<lparr>sub_topic = default_component_command_topic Button_Component uid,
           sub_qos = at_least_once\<rparr>],
     Pub (default_component_availability_topic Button_Component uid) ''online'' at_least_once True]"
proof -
  obtain cf' where cf': "button_of J uid h = Ret cf'" "ec_unique_id cf' = uid" "ec_qos cf' = at_least_once"
    "cfg_at J Button_CommandTopic (ec_cfg cf') =
       Ret (default_component_command_topic Button_Component uid)"
    "cfg_at J Availability_Topic (ec_cfg cf') =
       Ret (default_component_availability_topic Button_Component uid)"
    "cfg_contains J Availability_Topic (ec_cfg cf') = Ret True"
    "cfg_contains J Availability_PayloadAvailable (ec_cfg cf') = Ret False"
    by (rule button_of_cfg [OF assms(2), of uid h])
  with assms(3) have "cf' = cf" by simp
  note cf = cf' [unfolded this]
  let ?en = "button_entity J C cf"
  have "announces accepted (e_discovery_impl ?en)
      [Pub (default_component_discovery_topic Button_Component uid) (cfg_json J (ec_cfg cf))
         at_least_once True]"
    using client_contract.publish_announces [OF assms(1)] cf
    by (simp add: button_entity_def button_discovery_impl_def)
  moreover have "announces accepted (e_subscribe_impl ?en)
      [Sub [\<lparr>sub_topic = default_component_command_topic Button_Component uid,
             sub_qos = at_least_once\<rparr>]]"
    using client_contract.subscribe_announces [OF assms(1)] cf
    by (simp add: button_entity_def button_subscribe_impl_def eval_res_def)
  moreover have "announces accepted (entity_update_availability J ?en True)
      [Pub (default_component_availability_topic Button_Component uid) ''online'' at_least_once True]"
    using client_contract.availability_announces [OF assms(1), of ?en J True "''online''"] cf
    by (simp add: button_entity_def availability_payload_def at_or_def default_PayloadAvailable_def)
  ultimately show ?thesis
    using client_contract.setup_announces [OF assms(1)] by fastforce
qed

lemma alist_button:
  obtains cf where "button_of alist_json ''b1'' (7::nat) = Ret cf"
  by (rule button_of_cfg [OF alist.json_laws_axioms])

section \<open>What a button does\<close>

text \<open>
  C30: A button of the factory that reports a successful setup has its discovery document, its
  command subscription and \<open>online\<close> on its availability topic accepted by the broker, in this
  order, the two publications retained.
\<close>

theorem button_setup_announces:
  assumes "client_contract C accepted" and "json_laws J" and "button_of J uid h = Ret cf"
    and "entity_setup J (button_entity J C cf) s = Some (Ret e, s')" and "\<not> failed e"
  shows "\<exists>xs. accepted s' = accepted s @ xs \<and> subseq
    [Pub (default_component_discovery_topic Button_Component uid) (cfg_json J (ec_cfg cf))
       at_least_once True,
     Sub [\<lparr>sub_topic = default_component_command_topic Button_Component uid,
           sub_qos = at_least_once\<rparr>],
     Pub (default_component_availability_topic Button_Component uid) ''online'' at_least_once True] xs"
  using announcesD [OF button_announcement [OF assms(1-3)] assms(4,5)] .


theorem button_setup_announces_witness:
  "\<exists>cf e s'. button_of alist_json ''b1'' (7::nat) = Ret cf \<and>
     entity_setup alist_json (button_entity alist_json (direct_client (sim_transport sim_codes)) cf)
       (sim_started idle_sim) = Some (Ret e, s') \<and>
     subseq
      [Pub (default_component_discovery_topic Button_Component ''b1'') (cfg_json alist_json (ec_cfg cf))
         at_least_once True,
       Sub [\<lparr>sub_topic = default_component_command_topic Button_Component ''b1'',
             sub_qos = at_least_once\<rparr>],
       Pub (default_component_availability_topic Button_Component ''b1'') ''online'' at_least_once True]
      (accepted_requests (sim_log (impl s')))"
proof -
  obtain cf where cf: "button_of alist_json ''b1'' (7::nat) = Ret cf" by (rule alist_button)
  have "case button_of alist_json ''b1'' (7::nat) of Exn e \<Rightarrow> False | Ret cf \<Rightarrow>
      outcome (Ret (make_error_code Success)) (entity_setup alist_json
        (button_entity alist_json (direct_client (sim_transport sim_codes)) cf)) (sim_started idle_sim)"
    by code_simp
  then obtain s' where run: "entity_setup alist_json
      (button_entity alist_json (direct_client (sim_transport sim_codes)) cf) (sim_started idle_sim) =
      Some (Ret (make_error_code Success), s')"
    unfolding cf by (auto elim: outcomeE)
  show ?thesis
    using button_setup_announces [OF sim.direct.client_contract_axioms alist.json_laws_axioms cf run] cf run
    by (auto simp: sim_started_def idle_sim_def)
qed

text \<open>
  C17: When a receive of a button delivers a packet, the client has first reported some number \<open>n\<close>
  of session resets, and the broker has accepted the whole announcement \<open>n\<close> times, once after each.
\<close>

theorem button_recovers:
  assumes "client_contract C accepted" and "json_laws J" and "button_of J uid h = Ret cf"
    and "entity_recv J (button_entity J C cf) s = Some (Ret (Inr p), s')"
  shows "\<exists>n s1 xs. recovers J (button_entity J C cf) s n s1 \<and> c_recv C s1 = Some (Ret (Inr p), s') \<and>
    accepted s1 = accepted s @ xs \<and> subseq (concat (replicate n
      [Pub (default_component_discovery_topic Button_Component uid) (cfg_json J (ec_cfg cf))
         at_least_once True,
       Sub [\<lparr>sub_topic = default_component_command_topic Button_Component uid,
             sub_qos = at_least_once\<rparr>],
       Pub (default_component_availability_topic Button_Component uid) ''online'' at_least_once True])) xs"
proof -
  have C: "e_client (button_entity J C cf) = C" by (simp add: button_entity_def)
  obtain n s1 where rec: "recovers J (button_entity J C cf) s n s1"
    and got: "c_recv C s1 = Some (Ret (Inr p), s')"
    using entity_recv_recovers [OF assms(4)] C by auto
  from client_contract.recovers_announces [OF assms(1) rec C button_announcement [OF assms(1-3)]] got rec
  show ?thesis by blast
qed

definition sim_resetting :: sim where
  "sim_resetting = idle_sim\<lparr>sim_recvs := [(Error_Code 2 Misc_Category, None), (no_error, Some (Other_Packet 3))]\<rparr>"

lemma sim_button_setup:
  assumes "json_laws J" and "button_of J uid h = Ret cf"
  shows "sim_ok (entity_setup J (button_entity J (direct_client (sim_transport E)) cf))"
proof -
  obtain cf' where cf': "button_of J uid h = Ret cf'"
    "cfg_at J Button_CommandTopic (ec_cfg cf') = Ret (default_component_command_topic Button_Component uid)"
    "cfg_at J Availability_Topic (ec_cfg cf') =
       Ret (default_component_availability_topic Button_Component uid)"
    "cfg_contains J Availability_Topic (ec_cfg cf') = Ret True"
    "cfg_contains J Availability_PayloadAvailable (ec_cfg cf') = Ret False"
    by (rule button_of_cfg [OF assms(1), of uid h])
  with assms(2) have "cf' = cf" by simp
  note cf = cf' [unfolded this]
  show ?thesis
    by (intro sim_setup_ok sim_availability_ok [where E = E])
      (use cf sim_ok_publish sim_ok_subscribe in \<open>simp_all add: button_entity_def
         button_discovery_impl_def button_subscribe_impl_def eval_res_def availability_payload_def at_or_def\<close>)
qed

theorem button_recovers_witness:
  "\<exists>cf n s1 s'. button_of alist_json ''b1'' (7::nat) = Ret cf \<and>
     recovers alist_json (button_entity alist_json (direct_client (sim_transport sim_codes)) cf)
       (sim_started sim_resetting) n s1 \<and>
     async_recv (sim_transport sim_codes) s1 = Some (Ret (Inr (Other_Packet 3)), s')"
proof -
  obtain cf where cf: "button_of alist_json ''b1'' (7::nat) = Ret cf" by (rule alist_button)
  let ?C = "direct_client (sim_transport sim_codes) :: (sim, nat) host client_ops"
  have "sim_ready (sim_started sim_resetting)
      (replicate 1 (Error_Code 2 Misc_Category, None) @ (no_error, Some (Other_Packet 3)) # [])"
    by (simp add: sim_ready_def sim_started_def sim_resetting_def idle_sim_def
        DefaultMaxAutoreconnectAttempts_def)
  moreover have "e_client (button_entity alist_json ?C cf) = ?C" by (simp add: button_entity_def)
  moreover note sim_button_setup [OF alist.json_laws_axioms cf, of sim_codes]
  ultimately have "\<exists>s'. entity_recv alist_json (button_entity alist_json ?C cf) (sim_started sim_resetting) =
      Some (Ret (Inr (Other_Packet 3)), s')"
    by (blast intro: sim_entity_recv)
  then obtain s' where "entity_recv alist_json (button_entity alist_json ?C cf)
      (sim_started sim_resetting) = Some (Ret (Inr (Other_Packet 3)), s')" by blast
  from button_recovers [OF sim.direct.client_contract_axioms alist.json_laws_axioms cf this] cf
  show ?thesis by auto
qed

definition is_press :: "string \<Rightarrow> packet \<Rightarrow> bool" where
  "is_press uid p =
     (case p of
        Publish pk \<Rightarrow> pk_topic pk = default_component_command_topic Button_Component uid \<and>
          pk_payload pk = ''PRESS''
      | Other_Packet _ \<Rightarrow> False)"

lemma button_on_packet_press:
  assumes "json_laws J" and "button_of J uid h = Ret cf"
  shows "button_on_packet J spawn cf p =
    (if is_press uid p then assign (spawn h) (co_return ()) else co_return ())"
proof -
  obtain cf' where cf': "button_of J uid h = Ret cf'" "bt_handler cf' = Some h"
    "cfg_at J Button_CommandTopic (ec_cfg cf') = Ret (default_component_command_topic Button_Component uid)"
    "cfg_at J Button_PayloadPress (ec_cfg cf') = Ret ''PRESS''"
    by (rule button_of_cfg [OF assms(1), of uid h])
  with assms(2) show ?thesis
    by (auto simp: button_on_packet_def is_press_def eval_res_def spawn_if_def split: packet.split)
qed

text \<open>
  C13: Between the start of a button's run loop and its end the handler has been started exactly once
  for every delivered publish packet that carries \<open>PRESS\<close> on the command topic, and for no other.
\<close>

theorem button_presses:
  assumes "inbox_contract C spawn delivered spawned" and "json_laws J" and "button_of J uid h = Ret cf"
    and "button_run J spawn C cf s = Some (r, s')"
  shows "\<exists>ps. delivered s' = delivered s @ ps \<and>
    spawned s' = spawned s @ replicate (length (filter (is_press uid) ps)) h"
proof -
  have kept: "keeps delivered (e_discovery_impl (button_entity J C cf))"
    "keeps spawned (e_discovery_impl (button_entity J C cf))"
    "keeps delivered (e_subscribe_impl (button_entity J C cf))"
    "keeps spawned (e_subscribe_impl (button_entity J C cf))"
    using inbox_contract.publish_keeps [OF assms(1)] inbox_contract.subscribe_keeps [OF assms(1)]
    by (auto simp: button_entity_def button_discovery_impl_def button_subscribe_impl_def)
  have C: "e_client (button_entity J C cf) = C" by (simp add: button_entity_def)
  have react: "delivered s2 = delivered s1 \<and>
      spawned s2 = spawned s1 @ (if is_press uid p then [h] else [])"
    if "button_on_packet J spawn cf p s1 = Some (r', s2)" for p s1 r' s2
    using that inbox_contract.spawn_spawns [OF assms(1)]
    by (auto simp: button_on_packet_press [OF assms(2,3)] assign_run co_return_run split: if_splits)
  obtain ps where "delivered s' = delivered s @ ps"
    and "spawned s' = spawned s @ concat (map (\<lambda>p. if is_press uid p then [h] else []) ps)"
    using inbox_contract.run_loop_spawns [OF assms(1) assms(4) [unfolded button_run_def] C kept, where f = "\<lambda>p. if is_press uid p then [h] else []"] react
    by blast
  moreover have "concat (map (\<lambda>p. if is_press uid p then [h] else []) ps) =
      replicate (length (filter (is_press uid) ps)) h"
    by (induction ps) simp_all
  ultimately show ?thesis by auto
qed


text \<open>
  Two presses and two packets that are none, then a delivery without a packet, which ends the loop.
\<close>

definition b1_packets :: "packet list" where
  "b1_packets =
     [plain_publish (default_component_command_topic Button_Component ''b1'') ''PRESS'',
      Other_Packet 3,
      plain_publish (default_component_command_topic Button_Component ''b1'') ''PRES'',
      plain_publish (default_component_command_topic Button_Component ''b1'') ''PRESS'']"

definition sim_presses :: sim where
  "sim_presses = sim_delivering b1_packets"

theorem button_presses_witness:
  "\<exists>cf s'. button_of alist_json ''b1'' (7::nat) = Ret cf \<and>
     button_run alist_json spawn_host (direct_client (sim_transport sim_codes)) cf
       (sim_started sim_presses) = Some (Ret (make_error_code InvalidPacket), s') \<and>
     length (delivered_packets (sim_log (impl s'))) = 4 \<and> spawned s' = [7, 7]"
proof -
  obtain cf where cf: "button_of alist_json ''b1'' (7::nat) = Ret cf" by (rule alist_button)
  let ?C = "direct_client (sim_transport sim_codes) :: (sim, nat) host client_ops"
  have step: "button_on_packet alist_json spawn_host cf p s =
      Some (Ret (), if is_press ''b1'' p then spawn_host 7 s else s)" for p and s :: "(sim, nat) host"
    by (simp add: button_on_packet_press [OF alist.json_laws_axioms cf] assign_run co_return_run)
  obtain s' where run: "button_run alist_json spawn_host ?C cf (sim_started sim_presses) =
      Some (Ret (make_error_code InvalidPacket), s')"
    and got: "delivered_packets (sim_log (impl s')) = delivered_packets (sim_log (impl (sim_started sim_presses))) @
      b1_packets"
    using run_loop_delivering [of "button_entity alist_json ?C cf" sim_codes
        "button_on_packet alist_json spawn_host cf"
        "\<lambda>p s. if is_press ''b1'' p then spawn_host 7 s else s" "sim_started sim_presses" b1_packets alist_json]
        step
    by (auto simp: button_run_def button_entity_def sim_started_def sim_presses_def sim_delivering_def
        spawn_host_def)
  have "filter (is_press ''b1'') b1_packets = [hd b1_packets, last b1_packets]"
    by (simp add: b1_packets_def is_press_def plain_publish_def)
  with button_presses [OF sim_host.started.inbox_contract_axioms alist.json_laws_axioms cf run] got cf run
  show ?thesis
    by (auto simp: sim_started_def sim_presses_def sim_delivering_def idle_sim_def b1_packets_def
        numeral_2_eq_2)
qed

end
