(* ===== verification/Cover.thy ===== *)
theory Cover
  imports Inbox
begin

text \<open>
  \<open>Cover\<close> (\<open>cover.h\<close>): an entity with a state topic and three commands, and its factory, which
  fills in the default payload of a command when its handler is installed.
\<close>

definition Cover_CommandTopic :: property where
  "Cover_CommandTopic = Property ''command_topic''"

definition Cover_StateTopic :: property where
  "Cover_StateTopic = Property ''state_topic''"

definition Cover_PayloadOpen :: property where
  "Cover_PayloadOpen = Property ''payload_open''"

definition Cover_PayloadClose :: property where
  "Cover_PayloadClose = Property ''payload_close''"

definition Cover_PayloadStop :: property where
  "Cover_PayloadStop = Property ''payload_stop''"

definition Cover_StateOpen :: property where
  "Cover_StateOpen = Property ''state_open''"

definition Cover_StateClosed :: property where
  "Cover_StateClosed = Property ''state_closed''"

definition Cover_StateOpening :: property where
  "Cover_StateOpening = Property ''state_opening''"

definition Cover_StateClosing :: property where
  "Cover_StateClosing = Property ''state_closing''"

definition Cover_Component :: string where
  "Cover_Component = ''cover''"

definition cover_default_PayloadOpen :: string where
  "cover_default_PayloadOpen = ''OPEN''"

definition cover_default_PayloadClose :: string where
  "cover_default_PayloadClose = ''CLOSE''"

definition cover_default_PayloadStop :: string where
  "cover_default_PayloadStop = ''STOP''"

text \<open>\<open>CoverCfg::Config\<close>.\<close>

record ('o, 'h) cover_config = "'o entity_config" +
  cv_open :: "'h option"
  cv_close :: "'h option"
  cv_stop :: "'h option"

section \<open>The entity\<close>

definition cover_update_state ::
  "('o, 'v) json_api \<Rightarrow> 's client_ops \<Rightarrow> ('o, 'h) cover_config \<Rightarrow> string \<Rightarrow> (error_code, 's) coro" where
  "cover_update_state J C cf st =
     eval_res (cfg_contains J Cover_StateTopic (ec_cfg cf)) (\<lambda>c.
     if \<not> c then co_return (make_error_code InvalidConfig)
     else eval_res (cfg_at J Cover_StateTopic (ec_cfg cf)) (\<lambda>topic.
       c_publish C topic st (ec_qos cf) True))"

text \<open>\<open>dispatch\<close>: a payload is looked up only when the ones before it have not matched.\<close>

definition cover_dispatch ::
  "('o, 'v) json_api \<Rightarrow> ('h \<Rightarrow> 's \<Rightarrow> 's) \<Rightarrow> ('o, 'h) cover_config \<Rightarrow> string \<Rightarrow> (unit, 's) coro" where
  "cover_dispatch J spawn cf cmd =
     eval_res (cfg_at J Cover_PayloadOpen (ec_cfg cf)) (\<lambda>open.
     if cmd = open then spawn_if spawn (cv_open cf)
     else eval_res (cfg_at J Cover_PayloadClose (ec_cfg cf)) (\<lambda>close.
     if cmd = close then spawn_if spawn (cv_close cf)
     else eval_res (cfg_at J Cover_PayloadStop (ec_cfg cf)) (\<lambda>stop.
     if cmd = stop then spawn_if spawn (cv_stop cf)
     else co_return ())))"

definition cover_on_packet ::
  "('o, 'v) json_api \<Rightarrow> ('h \<Rightarrow> 's \<Rightarrow> 's) \<Rightarrow> ('o, 'h) cover_config \<Rightarrow> packet \<Rightarrow> (unit, 's) coro" where
  "cover_on_packet J spawn cf p =
     (case p of
        Other_Packet _ \<Rightarrow> co_return ()
      | Publish pk \<Rightarrow>
          eval_res (cfg_at J Cover_CommandTopic (ec_cfg cf)) (\<lambda>topic.
          if pk_topic pk = topic then cover_dispatch J spawn cf (pk_payload pk) else co_return ()))"

definition cover_discovery_impl ::
  "('o, 'v) json_api \<Rightarrow> 's client_ops \<Rightarrow> ('o, 'h) cover_config \<Rightarrow> (error_code, 's) coro" where
  "cover_discovery_impl J C cf =
     c_publish C (default_component_discovery_topic Cover_Component (ec_unique_id cf))
       (cfg_json J (ec_cfg cf)) (ec_qos cf) True"

definition cover_subscribe_impl ::
  "('o, 'v) json_api \<Rightarrow> 's client_ops \<Rightarrow> ('o, 'h) cover_config \<Rightarrow> (error_code, 's) coro" where
  "cover_subscribe_impl J C cf =
     eval_res (cfg_at J Cover_CommandTopic (ec_cfg cf)) (\<lambda>topic.
     c_subscribe C [\<lparr>sub_topic = topic, sub_qos = ec_qos cf\<rparr>])"

definition cover_entity ::
  "('o, 'v) json_api \<Rightarrow> 's client_ops \<Rightarrow> ('o, 'h) cover_config \<Rightarrow> ('o, 's) entity" where
  "cover_entity J C cf =
     \<lparr>e_client = C, e_cfg = ec_cfg cf, e_qos = ec_qos cf,
      e_discovery_impl = cover_discovery_impl J C cf, e_subscribe_impl = cover_subscribe_impl J C cf\<rparr>"

definition cover_run ::
  "('o, 'v) json_api \<Rightarrow> ('h \<Rightarrow> 's \<Rightarrow> 's) \<Rightarrow> 's client_ops \<Rightarrow> ('o, 'h) cover_config \<Rightarrow>
   (error_code, 's) coro" where
  "cover_run J spawn C cf = run_loop J (cover_entity J C cf) (cover_on_packet J spawn cf)"

section \<open>Factory\<close>

record ('o, 'h) cover_factory = "'o factory" +
  f_open :: "'h option"
  f_close :: "'h option"
  f_stop :: "'h option"

definition cover_factory_cfg :: "('o, 'v) json_api \<Rightarrow> string \<Rightarrow> 'o res" where
  "cover_factory_cfg J uid =
     EntityCfg J
       [(Property ''unique_id'', uid),
        (Cover_CommandTopic, default_component_command_topic Cover_Component uid),
        (Cover_StateTopic, default_component_state_topic Cover_Component uid),
        (Availability_Topic, default_component_availability_topic Cover_Component uid)]"

definition cover_factory :: "('o, 'v) json_api \<Rightarrow> string \<Rightarrow> ('o, 'h) cover_factory res" where
  "cover_factory J uid =
     map_res (\<lambda>ob. \<lparr>f_unique_id = uid, f_cfg = cfg_set_null J Cover_PayloadStop ob, f_qos = at_least_once,
         f_open = None, f_close = None, f_stop = None\<rparr>)
       (cover_factory_cfg J uid)"

text \<open>The three overloads that \<open>set\<close> forwards to.\<close>

definition cover_factory_set ::
  "('o, 'v) json_api \<Rightarrow> property \<Rightarrow> string \<Rightarrow> ('o, 'h) cover_factory \<Rightarrow> ('o, 'h) cover_factory res" where
  "cover_factory_set J k v f = map_res (\<lambda>ob. f\<lparr>f_cfg := ob\<rparr>) (common_factory_set J (f_cfg f) k v)"

definition cover_factory_set_null ::
  "('o, 'v) json_api \<Rightarrow> property \<Rightarrow> ('o, 'h) cover_factory \<Rightarrow> ('o, 'h) cover_factory" where
  "cover_factory_set_null J k f = f\<lparr>f_cfg := common_factory_set_null J (f_cfg f) k\<rparr>"

definition cover_factory_set_device ::
  "('o, 'v) json_api \<Rightarrow> device \<Rightarrow> ('o, 'h) cover_factory \<Rightarrow> ('o, 'h) cover_factory" where
  "cover_factory_set_device J d f = f\<lparr>f_cfg := common_factory_set_device J (f_cfg f) d\<rparr>"

text \<open>\<open>if (!cfg_.contains(p)) cfg_.set(p, def);\<close>\<close>

definition set_default ::
  "('o, 'v) json_api \<Rightarrow> property \<Rightarrow> string \<Rightarrow> 'o \<Rightarrow> 'o res" where
  "set_default J p def ob =
     (case cfg_contains J p ob of
        Exn e \<Rightarrow> Exn e
      | Ret c \<Rightarrow> (if \<not> c then cfg_set J p def ob else Ret ob))"

definition cover_on_open ::
  "('o, 'v) json_api \<Rightarrow> 'h \<Rightarrow> ('o, 'h) cover_factory \<Rightarrow> ('o, 'h) cover_factory res" where
  "cover_on_open J h f = map_res (\<lambda>ob. f\<lparr>f_open := Some h, f_cfg := ob\<rparr>)
     (set_default J Cover_PayloadOpen cover_default_PayloadOpen (f_cfg f))"

definition cover_on_close ::
  "('o, 'v) json_api \<Rightarrow> 'h \<Rightarrow> ('o, 'h) cover_factory \<Rightarrow> ('o, 'h) cover_factory res" where
  "cover_on_close J h f = map_res (\<lambda>ob. f\<lparr>f_close := Some h, f_cfg := ob\<rparr>)
     (set_default J Cover_PayloadClose cover_default_PayloadClose (f_cfg f))"

definition cover_on_stop ::
  "('o, 'v) json_api \<Rightarrow> 'h \<Rightarrow> ('o, 'h) cover_factory \<Rightarrow> ('o, 'h) cover_factory res" where
  "cover_on_stop J h f = map_res (\<lambda>ob. f\<lparr>f_stop := Some h, f_cfg := ob\<rparr>)
     (set_default J Cover_PayloadStop cover_default_PayloadStop (f_cfg f))"

definition cover_create :: "('o, 'h) cover_factory \<Rightarrow> ('o, 'h) cover_config" where
  "cover_create f =
     \<lparr>ec_unique_id = f_unique_id f, ec_qos = f_qos f, ec_cfg = f_cfg f,
      cv_open = f_open f, cv_close = f_close f, cv_stop = f_stop f\<rparr>"

section \<open>Covers of the factory\<close>

text \<open>
  \<open>factory(uid).on_open(ho).on_close(hc).on_stop(hs).create()\<close>, and the same with
  \<open>set(PayloadStop, stop)\<close> before the handlers are installed.
\<close>

definition cover_handlers ::
  "('o, 'v) json_api \<Rightarrow> 'h \<Rightarrow> 'h \<Rightarrow> 'h \<Rightarrow> ('o, 'h) cover_factory \<Rightarrow> ('o, 'h) cover_config res" where
  "cover_handlers J ho hc hs f =
     bind_res (cover_on_open J ho f) (\<lambda>f. bind_res (cover_on_close J hc f) (\<lambda>f.
     map_res cover_create (cover_on_stop J hs f)))"

definition cover_of ::
  "('o, 'v) json_api \<Rightarrow> string \<Rightarrow> 'h \<Rightarrow> 'h \<Rightarrow> 'h \<Rightarrow> ('o, 'h) cover_config res" where
  "cover_of J uid ho hc hs = bind_res (cover_factory J uid) (cover_handlers J ho hc hs)"

definition cover_with_stop ::
  "('o, 'v) json_api \<Rightarrow> string \<Rightarrow> string \<Rightarrow> 'h \<Rightarrow> 'h \<Rightarrow> 'h \<Rightarrow> ('o, 'h) cover_config res" where
  "cover_with_stop J uid stop ho hc hs =
     bind_res (cover_factory J uid) (\<lambda>f. bind_res (cover_factory_set J Cover_PayloadStop stop f)
       (cover_handlers J ho hc hs))"

lemmas cover_props =
  Cover_CommandTopic_def Cover_StateTopic_def Cover_PayloadOpen_def Cover_PayloadClose_def
  Cover_PayloadStop_def property_defs

text \<open>The part of the configuration that does not depend on the stop payload.\<close>

definition cover_holds ::
  "('o, 'v) json_api \<Rightarrow> string \<Rightarrow> 'h \<Rightarrow> 'h \<Rightarrow> 'h \<Rightarrow> ('o, 'h) cover_config \<Rightarrow> bool" where
  "cover_holds J uid ho hc hs cf \<longleftrightarrow>
     ec_unique_id cf = uid \<and> ec_qos cf = at_least_once \<and>
     cv_open cf = Some ho \<and> cv_close cf = Some hc \<and> cv_stop cf = Some hs \<and>
     cfg_at J Cover_CommandTopic (ec_cfg cf) = Ret (default_component_command_topic Cover_Component uid) \<and>
     cfg_contains J Cover_StateTopic (ec_cfg cf) = Ret True \<and>
     cfg_at J Cover_StateTopic (ec_cfg cf) = Ret (default_component_state_topic Cover_Component uid) \<and>
     cfg_contains J Availability_Topic (ec_cfg cf) = Ret True \<and>
     cfg_at J Availability_Topic (ec_cfg cf) =
       Ret (default_component_availability_topic Cover_Component uid) \<and>
     cfg_contains J Availability_PayloadAvailable (ec_cfg cf) = Ret False \<and>
     cfg_at J Cover_PayloadOpen (ec_cfg cf) = Ret ''OPEN'' \<and>
     cfg_at J Cover_PayloadClose (ec_cfg cf) = Ret ''CLOSE''"

context json_laws
begin

text \<open>The factory leaves a null under \<open>payload_stop\<close>, which \<open>on_stop\<close> takes for a value.\<close>

lemma cover_of_holds:
  "\<exists>cf. cover_of J uid ho hc hs = Ret cf \<and> cover_holds J uid ho hc hs cf \<and>
     cfg_at J Cover_PayloadStop (ec_cfg cf) = Exn Wrong_Kind"
  by (simp add: cover_of_def cover_factory_def cover_factory_cfg_def EntityCfg_def cfg_set_def cover_props cfg_set_null_def
      cover_handlers_def cover_on_open_def cover_on_close_def cover_on_stop_def set_default_def
      cfg_contains_def cfg_at_def find_string_def cover_create_def cover_holds_def
      cover_default_PayloadOpen_def cover_default_PayloadClose_def)

lemma cover_with_stop_holds:
  "\<exists>cf. cover_with_stop J uid stop ho hc hs = Ret cf \<and> cover_holds J uid ho hc hs cf \<and>
     cfg_at J Cover_PayloadStop (ec_cfg cf) = Ret stop"
  by (simp add: cover_with_stop_def cover_factory_def cover_factory_cfg_def EntityCfg_def cfg_set_def cover_props
      cfg_set_null_def cover_factory_set_def common_factory_set_def
      cover_handlers_def cover_on_open_def cover_on_close_def cover_on_stop_def set_default_def
      cfg_contains_def cfg_at_def find_string_def cover_create_def cover_holds_def
      cover_default_PayloadOpen_def cover_default_PayloadClose_def)

end

text \<open>Every packet is answered as the configured payloads say, and anything else is ignored.\<close>

definition cover_reaction :: "string \<Rightarrow> string \<Rightarrow> 'h \<Rightarrow> 'h \<Rightarrow> 'h \<Rightarrow> packet \<Rightarrow> 'h list" where
  "cover_reaction uid stop ho hc hs p =
     (case p of
        Other_Packet _ \<Rightarrow> []
      | Publish pk \<Rightarrow>
          if pk_topic pk \<noteq> default_component_command_topic Cover_Component uid then []
          else if pk_payload pk = ''OPEN'' then [ho]
          else if pk_payload pk = ''CLOSE'' then [hc]
          else if pk_payload pk = stop then [hs]
          else [])"

lemma cover_on_packet_stop:
  assumes "cover_holds J uid ho hc hs cf" and "cfg_at J Cover_PayloadStop (ec_cfg cf) = Ret stop"
  shows "cover_on_packet J spawn cf p =
    (case cover_reaction uid stop ho hc hs p of [] \<Rightarrow> co_return ()
     | h # _ \<Rightarrow> assign (spawn h) (co_return ()))"
  using assms
  by (auto simp: cover_on_packet_def cover_dispatch_def cover_reaction_def cover_holds_def eval_res_def
      spawn_if_def split: packet.split)

lemma cover_on_packet_no_stop:
  assumes "cover_holds J uid ho hc hs cf" and "cfg_at J Cover_PayloadStop (ec_cfg cf) = Exn Wrong_Kind"
    and "pk_topic pk = default_component_command_topic Cover_Component uid"
    and "pk_payload pk \<noteq> ''OPEN''" and "pk_payload pk \<noteq> ''CLOSE''"
  shows "cover_on_packet J spawn cf (Publish pk) = raise_exn Wrong_Kind"
  using assms
  by (simp add: cover_on_packet_def cover_dispatch_def cover_holds_def eval_res_def)

lemma cover_reaction_single:
  "cover_reaction uid stop ho hc hs p = h # hs' \<Longrightarrow> hs' = []"
  by (auto simp: cover_reaction_def split: packet.splits if_splits)

lemma cover_hooks_keep:
  assumes "inbox_contract C spawn delivered spawned"
  shows "keeps delivered (e_discovery_impl (cover_entity J C cf))"
    "keeps spawned (e_discovery_impl (cover_entity J C cf))"
    "keeps delivered (e_subscribe_impl (cover_entity J C cf))"
    "keeps spawned (e_subscribe_impl (cover_entity J C cf))"
  using inbox_contract.publish_keeps [OF assms] inbox_contract.subscribe_keeps [OF assms]
  by (auto simp: cover_entity_def cover_discovery_impl_def cover_subscribe_impl_def)

lemma cover_announcement:
  assumes "client_contract C accepted" and "cover_holds J uid ho hc hs cf"
  shows "announces accepted (entity_setup J (cover_entity J C cf))
    [Pub (default_component_discovery_topic Cover_Component uid) (cfg_json J (ec_cfg cf))
       at_least_once True,
     Sub [\<lparr>sub_topic = default_component_command_topic Cover_Component uid,
           sub_qos = at_least_once\<rparr>],
     Pub (default_component_availability_topic Cover_Component uid) ''online'' at_least_once True]"
proof -
  let ?en = "cover_entity J C cf"
  have "announces accepted (e_discovery_impl ?en)
      [Pub (default_component_discovery_topic Cover_Component uid) (cfg_json J (ec_cfg cf))
         at_least_once True]"
    using client_contract.publish_announces [OF assms(1)] assms(2)
    by (simp add: cover_entity_def cover_discovery_impl_def cover_holds_def)
  moreover have "announces accepted (e_subscribe_impl ?en)
      [Sub [\<lparr>sub_topic = default_component_command_topic Cover_Component uid,
             sub_qos = at_least_once\<rparr>]]"
    using client_contract.subscribe_announces [OF assms(1)] assms(2)
    by (simp add: cover_entity_def cover_subscribe_impl_def eval_res_def cover_holds_def)
  moreover have "announces accepted (entity_update_availability J ?en True)
      [Pub (default_component_availability_topic Cover_Component uid) ''online'' at_least_once True]"
    using client_contract.availability_announces [OF assms(1), of ?en J True "''online''"] assms(2)
    by (simp add: cover_entity_def availability_payload_def at_or_def default_PayloadAvailable_def
        cover_holds_def)
  ultimately show ?thesis
    using client_contract.setup_announces [OF assms(1)] by fastforce
qed

lemma cover_sim_setup:
  assumes "cover_holds J uid ho hc hs cf"
  shows "sim_ok (entity_setup J (cover_entity J (direct_client (sim_transport E)) cf))"
  by (intro sim_setup_ok sim_availability_ok [where E = E])
    (use assms sim_ok_publish sim_ok_subscribe in \<open>simp_all add: cover_entity_def cover_holds_def
       cover_discovery_impl_def cover_subscribe_impl_def eval_res_def availability_payload_def at_or_def\<close>)

lemma cover_of_facts:
  assumes "json_laws J" and "cover_of J uid ho hc hs = Ret cf"
  shows "cover_holds J uid ho hc hs cf" "cfg_at J Cover_PayloadStop (ec_cfg cf) = Exn Wrong_Kind"
  using json_laws.cover_of_holds [OF assms(1), of uid ho hc hs] assms(2) by auto

lemma cover_with_stop_facts:
  assumes "json_laws J" and "cover_with_stop J uid stop ho hc hs = Ret cf"
  shows "cover_holds J uid ho hc hs cf" "cfg_at J Cover_PayloadStop (ec_cfg cf) = Ret stop"
  using json_laws.cover_with_stop_holds [OF assms(1), of uid stop ho hc hs] assms(2) by auto

section \<open>What a cover does\<close>

text \<open>
  C24: A cover whose stop payload has been set explicitly starts, from the start of its run loop to
  its end, exactly the handlers that the delivered packets ask for, in their order: a packet on
  the command topic with the open, close or stop payload starts that handler once, any other
  packet starts none.
\<close>

theorem cover_commands:
  assumes "inbox_contract C spawn delivered spawned" and "json_laws J"
    and "cover_with_stop J uid stop ho hc hs = Ret cf" and "cover_run J spawn C cf s = Some (r, s')"
  shows "\<exists>ps. delivered s' = delivered s @ ps \<and>
    spawned s' = spawned s @ concat (map (cover_reaction uid stop ho hc hs) ps)"
proof -
  have C: "e_client (cover_entity J C cf) = C" by (simp add: cover_entity_def)
  have react: "delivered s2 = delivered s1 \<and> spawned s2 = spawned s1 @ cover_reaction uid stop ho hc hs p"
    if "cover_on_packet J spawn cf p s1 = Some (r', s2)" for p s1 r' s2
    using that inbox_contract.spawn_spawns [OF assms(1)] cover_reaction_single [of uid stop ho hc hs p]
    by (auto simp: cover_on_packet_stop [OF cover_with_stop_facts [OF assms(2,3)]] assign_run
        co_return_run split: list.splits)
  show ?thesis
    using inbox_contract.run_loop_spawns [OF assms(1) assms(4) [unfolded cover_run_def] C
        cover_hooks_keep [OF assms(1)], where f = "cover_reaction uid stop ho hc hs"] react
    by blast
qed

definition c1_packets :: "packet list" where
  "c1_packets =
     [plain_publish (default_component_command_topic Cover_Component ''c1'') ''OPEN'',
      plain_publish (default_component_command_topic Cover_Component ''c1'') ''HALT'',
      plain_publish ''elsewhere'' ''OPEN'',
      plain_publish (default_component_command_topic Cover_Component ''c1'') ''WAVE'']"

theorem cover_commands_witness:
  "\<exists>cf s'. cover_with_stop alist_json ''c1'' ''HALT'' 1 2 3 = Ret cf \<and>
     cover_run alist_json spawn_host sim_client_ops cf (sim_started (sim_delivering c1_packets)) =
       Some (Ret (make_error_code InvalidPacket), s') \<and>
     delivered_packets (sim_log (impl s')) = c1_packets \<and> spawned s' = [1, 3::nat]"
proof -
  obtain cf :: "(_, nat) cover_config" where cf: "cover_with_stop alist_json ''c1'' ''HALT'' 1 2 3 = Ret cf"
    using alist.cover_with_stop_holds [of "''c1''" "''HALT''" "1::nat" 2 3] by blast
  let ?react = "cover_reaction ''c1'' ''HALT'' 1 2 (3::nat)"
  have step: "cover_on_packet alist_json spawn_host cf p s =
      Some (Ret (), case ?react p of [] \<Rightarrow> s | h # _ \<Rightarrow> spawn_host h s)" for p and s :: "(sim, nat) host"
    by (simp add: cover_on_packet_stop [OF cover_with_stop_facts [OF alist.json_laws_axioms cf]]
        assign_run co_return_run split: list.split)
  obtain s' where run: "cover_run alist_json spawn_host sim_client_ops cf
      (sim_started (sim_delivering c1_packets)) = Some (Ret (make_error_code InvalidPacket), s')"
    and got: "delivered_packets (sim_log (impl s')) = c1_packets"
    using run_loop_delivering [of "cover_entity alist_json sim_client_ops cf" sim_codes
        "cover_on_packet alist_json spawn_host cf"
        "\<lambda>p s. case ?react p of [] \<Rightarrow> s | h # _ \<Rightarrow> spawn_host h s"
        "sim_started (sim_delivering c1_packets)" c1_packets alist_json, OF _ step]
    by (auto simp: cover_run_def cover_entity_def sim_started_def sim_delivering_def idle_sim_def
        spawn_host_def sim_client_ops_def split: list.split)
  have "concat (map ?react c1_packets) = [1, 3]"
    by (simp add: c1_packets_def cover_reaction_def plain_publish_def default_component_command_topic_def)
  with cover_commands [OF sim_host.started.inbox_contract_axioms alist.json_laws_axioms cf
      run [unfolded sim_client_ops_def]] got cf run
  show ?thesis by (auto simp: sim_started_def sim_delivering_def idle_sim_def)
qed

text \<open>
  C23: A cover created with the three handlers and no explicit stop payload stops working at the
  first command that is neither \<open>OPEN\<close> nor \<open>CLOSE\<close>, \<open>STOP\<close> among them: the exception of the
  payload lookup leaves \<open>async_run\<close>, and no handler is started.
\<close>

theorem cover_stop_throws:
  assumes "json_laws J" and "cover_of J uid ho hc hs = Ret cf"
    and "c_recv C s = Some (Ret (Inr (Publish pk)), s1)"
    and "pk_topic pk = default_component_command_topic Cover_Component uid"
    and "pk_payload pk \<noteq> ''OPEN''" and "pk_payload pk \<noteq> ''CLOSE''"
  shows "cover_run J spawn C cf s = Some (Exn Wrong_Kind, s1)"
  unfolding cover_run_def
  by (rule run_loop_packet_throws [where p = "Publish pk" and ?s1.0 = s1])
     (simp_all add: cover_entity_def assms(3) raise_exn_run
       cover_on_packet_no_stop [OF cover_of_facts [OF assms(1,2)] assms(4-6)])

theorem cover_stop_throws_witness:
  "\<exists>cf s1. cover_of alist_json ''c1'' 1 2 (3::nat) = Ret cf \<and>
     cover_run alist_json spawn_host sim_client_ops cf
       (sim_started (sim_delivering
         [plain_publish (default_component_command_topic Cover_Component ''c1'') ''STOP''])) =
       Some (Exn Wrong_Kind, s1)"
proof -
  obtain cf where cf: "cover_of alist_json ''c1'' 1 2 (3::nat) = Ret cf"
    using alist.cover_of_holds [of "''c1''" "1::nat" 2 3] by blast
  let ?p = "plain_publish (default_component_command_topic Cover_Component ''c1'') ''STOP''"
  have "sim_recvs (impl (sim_started (sim_delivering [?p]))) = (no_error, Some ?p) # [(no_error, None)]"
    by (simp add: sim_started_def sim_delivering_def)
  from sim_recv_packet [OF this, of sim_codes] obtain s1 where
    "c_recv sim_client_ops (sim_started (sim_delivering [?p])) = Some (Ret (Inr ?p), s1)"
    by (auto simp: sim_client_ops_def)
  from cover_stop_throws [OF alist.json_laws_axioms cf this [unfolded plain_publish_def]] cf
  show ?thesis by (auto simp: plain_publish_def)
qed

text \<open>
  A cover of the factory that reports a successful setup has had its discovery document, its
  command subscription and \<open>online\<close> on its availability topic accepted, in this order.
\<close>

theorem cover_setup_announces:
  assumes "client_contract C accepted" and "json_laws J" and "cover_of J uid ho hc hs = Ret cf"
    and "entity_setup J (cover_entity J C cf) s = Some (Ret e, s')" and "\<not> failed e"
  shows "\<exists>xs. accepted s' = accepted s @ xs \<and> subseq
    [Pub (default_component_discovery_topic Cover_Component uid) (cfg_json J (ec_cfg cf))
       at_least_once True,
     Sub [\<lparr>sub_topic = default_component_command_topic Cover_Component uid,
           sub_qos = at_least_once\<rparr>],
     Pub (default_component_availability_topic Cover_Component uid) ''online'' at_least_once True] xs"
  using announcesD [OF cover_announcement [OF assms(1) cover_of_facts(1) [OF assms(2,3)]] assms(4,5)] .

theorem cover_setup_announces_witness:
  "\<exists>cf e s'. cover_of alist_json ''c1'' 1 2 (3::nat) = Ret cf \<and>
     entity_setup alist_json (cover_entity alist_json (direct_client (sim_transport sim_codes)) cf)
       (sim_started idle_sim) = Some (Ret e, s') \<and>
     subseq
      [Pub (default_component_discovery_topic Cover_Component ''c1'') (cfg_json alist_json (ec_cfg cf))
         at_least_once True,
       Sub [\<lparr>sub_topic = default_component_command_topic Cover_Component ''c1'',
             sub_qos = at_least_once\<rparr>],
       Pub (default_component_availability_topic Cover_Component ''c1'') ''online'' at_least_once True]
      (accepted_requests (sim_log (impl s')))"
proof -
  obtain cf where cf: "cover_of alist_json ''c1'' 1 2 (3::nat) = Ret cf"
    using alist.cover_of_holds [of "''c1''" "1::nat" 2 3] by blast
  have "sim_ready (sim_started idle_sim) []"
    by (simp add: sim_ready_def sim_started_def idle_sim_def DefaultMaxAutoreconnectAttempts_def)
  with cover_sim_setup [OF cover_of_facts(1) [OF alist.json_laws_axioms cf], of sim_codes]
  obtain e s' where run: "entity_setup alist_json
      (cover_entity alist_json (direct_client (sim_transport sim_codes)) cf) (sim_started idle_sim) =
      Some (Ret e, s')" and "\<not> failed e" by (rule sim_okE)
  from cover_setup_announces [OF sim.direct.client_contract_axioms alist.json_laws_axioms cf this] run cf
  show ?thesis by (auto simp: sim_started_def idle_sim_def)
qed

text \<open>
  A cover publishes the states it is given retained, at least once, on its default state
  topic; a configuration without a state topic is reported as \<open>InvalidConfig\<close>, with nothing done.
\<close>

theorem cover_state_published:
  assumes "json_laws J" and "cover_of J uid ho hc hs = Ret cf"
    and "cfg_contains J Cover_StateTopic (ec_cfg bare) = Ret False"
  shows "cover_update_state J C cf st =
      c_publish C (default_component_state_topic Cover_Component uid) st at_least_once True \<and>
    cover_update_state J C bare st = co_return (make_error_code InvalidConfig)"
  using cover_of_facts [OF assms(1,2)] assms(3)
  by (simp add: cover_update_state_def eval_res_def cover_holds_def)

theorem cover_state_published_witness:
  "\<exists>cf. cover_of alist_json ''c1'' 1 2 (3::nat) = Ret cf \<and>
     cover_update_state alist_json sim_client_ops cf ''open'' =
       c_publish sim_client_ops (default_component_state_topic Cover_Component ''c1'') ''open''
         at_least_once True"
proof -
  obtain cf where cf: "cover_of alist_json ''c1'' 1 2 (3::nat) = Ret cf"
    using alist.cover_of_holds [of "''c1''" "1::nat" 2 3] by blast
  have "cfg_contains alist_json Cover_StateTopic (ec_cfg (cf\<lparr>ec_cfg := []\<rparr>)) = Ret False"
    by (simp add: cfg_contains_def cover_props alist_json_def)
  from cover_state_published [OF alist.json_laws_axioms cf this] cf show ?thesis by blast
qed

end
