(* ===== verification/Sensors.thy ===== *)
theory Sensors
  imports Inbox
begin

text \<open>
  The state-only entities: \<open>Sensor\<close> (\<open>sensor.h\<close>) and \<open>BinarySensor\<close> (\<open>binary_sensor.h\<close>), each with its
  factory. They publish their state and subscribe to nothing; their run loop only keeps the receive
  path alive.
\<close>

section \<open>Sensor\<close>

definition Sensor_StateTopic :: property where
  "Sensor_StateTopic = Property ''state_topic''"

definition Sensor_Component :: string where
  "Sensor_Component = ''sensor''"

definition sensor_update_state ::
  "('o, 'v) json_api \<Rightarrow> 's client_ops \<Rightarrow> 'o entity_config \<Rightarrow> string \<Rightarrow> (error_code, 's) coro" where
  "sensor_update_state J C cf st =
     eval_res (cfg_at J Sensor_StateTopic (ec_cfg cf)) (\<lambda>topic.
     c_publish C topic st (ec_qos cf) True)"

definition sensor_discovery_impl ::
  "('o, 'v) json_api \<Rightarrow> 's client_ops \<Rightarrow> 'o entity_config \<Rightarrow> (error_code, 's) coro" where
  "sensor_discovery_impl J C cf =
     c_publish C (default_component_discovery_topic Sensor_Component (ec_unique_id cf))
       (cfg_json J (ec_cfg cf)) (ec_qos cf) True"

definition sensor_subscribe_impl :: "(error_code, 's) coro" where
  "sensor_subscribe_impl = co_return default_error"

definition sensor_entity ::
  "('o, 'v) json_api \<Rightarrow> 's client_ops \<Rightarrow> 'o entity_config \<Rightarrow> ('o, 's) entity" where
  "sensor_entity J C cf =
     \<lparr>e_client = C, e_cfg = ec_cfg cf, e_qos = ec_qos cf,
      e_discovery_impl = sensor_discovery_impl J C cf, e_subscribe_impl = sensor_subscribe_impl\<rparr>"

definition sensor_run ::
  "('o, 'v) json_api \<Rightarrow> 's client_ops \<Rightarrow> 'o entity_config \<Rightarrow> (error_code, 's) coro" where
  "sensor_run J C cf = run_loop J (sensor_entity J C cf) (\<lambda>p. co_return ())"

definition sensor_factory_cfg :: "('o, 'v) json_api \<Rightarrow> string \<Rightarrow> 'o res" where
  "sensor_factory_cfg J uid =
     EntityCfg J
       [(Property ''unique_id'', uid),
        (Sensor_StateTopic, default_component_state_topic Sensor_Component uid),
        (Availability_Topic, default_component_availability_topic Sensor_Component uid)]"

definition sensor_factory :: "('o, 'v) json_api \<Rightarrow> string \<Rightarrow> 'o factory res" where
  "sensor_factory J uid =
     map_res (\<lambda>ob. \<lparr>f_unique_id = uid, f_cfg = ob, f_qos = at_most_once\<rparr>)
       (sensor_factory_cfg J uid)"

definition sensor_factory_set_device :: "('o, 'v) json_api \<Rightarrow> device \<Rightarrow> 'o factory \<Rightarrow> 'o factory" where
  "sensor_factory_set_device J d f = f\<lparr>f_cfg := cfg_set_device J d (f_cfg f)\<rparr>"

text \<open>The template \<open>set(key, value)\<close> with \<open>nullptr\<close> and with a string.\<close>

definition sensor_factory_set_null ::
  "('o, 'v) json_api \<Rightarrow> property \<Rightarrow> 'o factory \<Rightarrow> 'o factory" where
  "sensor_factory_set_null J k f = f\<lparr>f_cfg := cfg_set_null J k (f_cfg f)\<rparr>"

definition sensor_factory_set ::
  "('o, 'v) json_api \<Rightarrow> property \<Rightarrow> string \<Rightarrow> 'o factory \<Rightarrow> 'o factory res" where
  "sensor_factory_set J k v f = map_res (\<lambda>ob. f\<lparr>f_cfg := ob\<rparr>) (cfg_set J k v (f_cfg f))"

definition sensor_create :: "'o factory \<Rightarrow> 'o entity_config" where
  "sensor_create f = \<lparr>ec_unique_id = f_unique_id f, ec_qos = f_qos f, ec_cfg = f_cfg f\<rparr>"

section \<open>BinarySensor\<close>

definition BinarySensor_PayloadOn :: property where
  "BinarySensor_PayloadOn = Property ''payload_on''"

definition BinarySensor_PayloadOff :: property where
  "BinarySensor_PayloadOff = Property ''payload_off''"

definition BinarySensor_StateTopic :: property where
  "BinarySensor_StateTopic = Property ''state_topic''"

definition binary_sensor_default_PayloadOn :: string where
  [simp]: "binary_sensor_default_PayloadOn = ''ON''"

definition binary_sensor_default_PayloadOff :: string where
  [simp]: "binary_sensor_default_PayloadOff = ''OFF''"

definition BinarySensor_Component :: string where
  "BinarySensor_Component = ''binary_sensor''"

definition binary_sensor_update_state ::
  "('o, 'v) json_api \<Rightarrow> 's client_ops \<Rightarrow> 'o entity_config \<Rightarrow> bool \<Rightarrow> (error_code, 's) coro" where
  "binary_sensor_update_state J C cf st =
     eval_res (cfg_at J BinarySensor_StateTopic (ec_cfg cf)) (\<lambda>topic.
     eval_res (if st then cfg_at J BinarySensor_PayloadOn (ec_cfg cf)
               else cfg_at J BinarySensor_PayloadOff (ec_cfg cf)) (\<lambda>payload.
     c_publish C topic payload (ec_qos cf) True))"

definition binary_sensor_discovery_impl ::
  "('o, 'v) json_api \<Rightarrow> 's client_ops \<Rightarrow> 'o entity_config \<Rightarrow> (error_code, 's) coro" where
  "binary_sensor_discovery_impl J C cf =
     c_publish C (default_component_discovery_topic BinarySensor_Component (ec_unique_id cf))
       (cfg_json J (ec_cfg cf)) (ec_qos cf) True"

definition binary_sensor_subscribe_impl :: "(error_code, 's) coro" where
  "binary_sensor_subscribe_impl = co_return default_error"

definition binary_sensor_entity ::
  "('o, 'v) json_api \<Rightarrow> 's client_ops \<Rightarrow> 'o entity_config \<Rightarrow> ('o, 's) entity" where
  "binary_sensor_entity J C cf =
     \<lparr>e_client = C, e_cfg = ec_cfg cf, e_qos = ec_qos cf,
      e_discovery_impl = binary_sensor_discovery_impl J C cf,
      e_subscribe_impl = binary_sensor_subscribe_impl\<rparr>"

definition binary_sensor_run ::
  "('o, 'v) json_api \<Rightarrow> 's client_ops \<Rightarrow> 'o entity_config \<Rightarrow> (error_code, 's) coro" where
  "binary_sensor_run J C cf = run_loop J (binary_sensor_entity J C cf) (\<lambda>p. co_return ())"

definition binary_sensor_factory_cfg :: "('o, 'v) json_api \<Rightarrow> string \<Rightarrow> 'o res" where
  "binary_sensor_factory_cfg J uid =
     EntityCfg J
       [(Property ''unique_id'', uid),
        (BinarySensor_PayloadOn, binary_sensor_default_PayloadOn),
        (BinarySensor_PayloadOff, binary_sensor_default_PayloadOff),
        (BinarySensor_StateTopic, default_component_state_topic BinarySensor_Component uid),
        (Availability_Topic, default_component_availability_topic BinarySensor_Component uid)]"

definition binary_sensor_factory :: "('o, 'v) json_api \<Rightarrow> string \<Rightarrow> 'o factory res" where
  "binary_sensor_factory J uid =
     map_res (\<lambda>ob. \<lparr>f_unique_id = uid, f_cfg = ob, f_qos = at_most_once\<rparr>)
       (binary_sensor_factory_cfg J uid)"

definition binary_sensor_factory_set_device ::
  "('o, 'v) json_api \<Rightarrow> device \<Rightarrow> 'o factory \<Rightarrow> 'o factory" where
  "binary_sensor_factory_set_device J d f = f\<lparr>f_cfg := cfg_set_device J d (f_cfg f)\<rparr>"

definition binary_sensor_factory_set_null ::
  "('o, 'v) json_api \<Rightarrow> property \<Rightarrow> 'o factory \<Rightarrow> 'o factory" where
  "binary_sensor_factory_set_null J k f = f\<lparr>f_cfg := cfg_set_null J k (f_cfg f)\<rparr>"

definition binary_sensor_factory_set ::
  "('o, 'v) json_api \<Rightarrow> property \<Rightarrow> string \<Rightarrow> 'o factory \<Rightarrow> 'o factory res" where
  "binary_sensor_factory_set J k v f = map_res (\<lambda>ob. f\<lparr>f_cfg := ob\<rparr>) (cfg_set J k v (f_cfg f))"

definition binary_sensor_create :: "'o factory \<Rightarrow> 'o entity_config" where
  "binary_sensor_create f = \<lparr>ec_unique_id = f_unique_id f, ec_qos = f_qos f, ec_cfg = f_cfg f\<rparr>"

section \<open>What the factories write\<close>

lemmas sensor_props =
  Sensor_StateTopic_def BinarySensor_PayloadOn_def BinarySensor_PayloadOff_def
  BinarySensor_StateTopic_def property_defs

context json_laws
begin

lemma sensor_factory_holds:
  "\<exists>f. sensor_factory J uid = Ret f \<and> f_unique_id f = uid \<and> f_qos f = at_most_once \<and>
     cfg_at J Sensor_StateTopic (f_cfg f) = Ret (default_component_state_topic Sensor_Component uid) \<and>
     cfg_at J Availability_Topic (f_cfg f) = Ret (default_component_availability_topic Sensor_Component uid) \<and>
     cfg_contains J Availability_Topic (f_cfg f) = Ret True \<and>
     cfg_contains J Availability_PayloadAvailable (f_cfg f) = Ret False \<and>
     cfg_contains J Availability_PayloadNotAvailable (f_cfg f) = Ret False"
  by (simp add: sensor_factory_def sensor_factory_cfg_def EntityCfg_def cfg_set_def sensor_props
      cfg_contains_def cfg_at_def find_string_def)

lemma binary_sensor_factory_holds:
  "\<exists>f. binary_sensor_factory J uid = Ret f \<and> f_unique_id f = uid \<and> f_qos f = at_most_once \<and>
     cfg_at J BinarySensor_StateTopic (f_cfg f) = Ret (default_component_state_topic BinarySensor_Component uid) \<and>
     cfg_at J BinarySensor_PayloadOn (f_cfg f) = Ret ''ON'' \<and>
     cfg_at J BinarySensor_PayloadOff (f_cfg f) = Ret ''OFF'' \<and>
     cfg_at J Availability_Topic (f_cfg f) = Ret (default_component_availability_topic BinarySensor_Component uid) \<and>
     cfg_contains J Availability_Topic (f_cfg f) = Ret True \<and>
     cfg_contains J Availability_PayloadAvailable (f_cfg f) = Ret False \<and>
     cfg_contains J Availability_PayloadNotAvailable (f_cfg f) = Ret False"
  by (simp add: binary_sensor_factory_def binary_sensor_factory_cfg_def EntityCfg_def cfg_set_def sensor_props
      cfg_contains_def cfg_at_def find_string_def)

end

lemma sensor_factory_cfg:
  assumes "json_laws J"
  obtains f where "sensor_factory J uid = Ret f" and "f_unique_id f = uid" and "f_qos f = at_most_once"
    and "cfg_at J Sensor_StateTopic (f_cfg f) = Ret (default_component_state_topic Sensor_Component uid)"
    and "cfg_at J Availability_Topic (f_cfg f) =
           Ret (default_component_availability_topic Sensor_Component uid)"
    and "cfg_contains J Availability_Topic (f_cfg f) = Ret True"
    and "cfg_contains J Availability_PayloadAvailable (f_cfg f) = Ret False"
    and "cfg_contains J Availability_PayloadNotAvailable (f_cfg f) = Ret False"
  using json_laws.sensor_factory_holds [OF assms, of uid] by blast

lemma binary_sensor_factory_cfg:
  assumes "json_laws J"
  obtains f where "binary_sensor_factory J uid = Ret f" and "f_unique_id f = uid"
    and "f_qos f = at_most_once"
    and "cfg_at J BinarySensor_StateTopic (f_cfg f) =
           Ret (default_component_state_topic BinarySensor_Component uid)"
    and "cfg_at J BinarySensor_PayloadOn (f_cfg f) = Ret ''ON''"
    and "cfg_at J BinarySensor_PayloadOff (f_cfg f) = Ret ''OFF''"
    and "cfg_at J Availability_Topic (f_cfg f) =
           Ret (default_component_availability_topic BinarySensor_Component uid)"
    and "cfg_contains J Availability_Topic (f_cfg f) = Ret True"
    and "cfg_contains J Availability_PayloadAvailable (f_cfg f) = Ret False"
    and "cfg_contains J Availability_PayloadNotAvailable (f_cfg f) = Ret False"
  using json_laws.binary_sensor_factory_holds [OF assms, of uid] by blast

section \<open>Announcements of state-only entities\<close>

text \<open>What a sensor and a binary sensor of the factories announce: no subscription.\<close>

lemma state_entity_announcement:
  assumes "client_contract C accepted" and "e_client en = C"
    and "e_discovery_impl en = c_publish C dt dp (e_qos en) True"
    and "e_subscribe_impl en = co_return default_error"
    and "cfg_contains J Availability_Topic (e_cfg en) = Ret True"
    and "cfg_at J Availability_Topic (e_cfg en) = Ret at"
    and "cfg_contains J Availability_PayloadAvailable (e_cfg en) = Ret False"
  shows "announces accepted (entity_setup J en)
    [Pub dt dp (e_qos en) True, Pub at ''online'' (e_qos en) True]"
proof -
  have "announces accepted (e_discovery_impl en) [Pub dt dp (e_qos en) True]"
    using client_contract.publish_announces [OF assms(1)] by (simp add: assms(3))
  moreover have "announces accepted (e_subscribe_impl en) []" by (simp add: assms(4))
  moreover have "announces accepted (entity_update_availability J en True) [Pub at ''online'' (e_qos en) True]"
    using client_contract.availability_announces [OF assms(1,2,5), of True "''online''"] assms(6,7)
    by (simp add: availability_payload_def at_or_def default_PayloadAvailable_def)
  ultimately show ?thesis
    using client_contract.setup_announces [OF assms(1)] by fastforce
qed

text \<open>The same setup run on the simulated broker.\<close>

lemma state_entity_sim:
  assumes "e_client en = direct_client (sim_transport E)"
    and "e_discovery_impl en = c_publish (e_client en) dt dp (e_qos en) True"
    and "e_subscribe_impl en = co_return default_error"
    and "cfg_contains J Availability_Topic (e_cfg en) = Ret True"
    and "cfg_at J Availability_Topic (e_cfg en) = Ret at"
    and "cfg_contains J Availability_PayloadAvailable (e_cfg en) = Ret False"
  shows "sim_ok (entity_setup J en)"
  by (intro sim_setup_ok sim_availability_ok [OF assms(1,4) _ assms(5)])
     (use assms sim_ok_publish [of E] in \<open>simp_all add: availability_payload_def at_or_def
        sim_ok_return\<close>)

section \<open>Properties of sensors\<close>

definition sensor_of :: "('o, 'v) json_api \<Rightarrow> string \<Rightarrow> 'o entity_config res" where
  "sensor_of J uid = map_res sensor_create (sensor_factory J uid)"

definition binary_sensor_of :: "('o, 'v) json_api \<Rightarrow> string \<Rightarrow> 'o entity_config res" where
  "binary_sensor_of J uid = map_res binary_sensor_create (binary_sensor_factory J uid)"

lemma sensor_of_cfg:
  assumes "json_laws J" and "sensor_of J uid = Ret cf"
  shows "ec_unique_id cf = uid" "ec_qos cf = at_most_once"
    "cfg_at J Sensor_StateTopic (ec_cfg cf) = Ret (default_component_state_topic Sensor_Component uid)"
    "cfg_at J Availability_Topic (ec_cfg cf) =
       Ret (default_component_availability_topic Sensor_Component uid)"
    "cfg_contains J Availability_Topic (ec_cfg cf) = Ret True"
    "cfg_contains J Availability_PayloadAvailable (ec_cfg cf) = Ret False"
  by (rule sensor_factory_cfg [OF assms(1), of uid],
      use assms(2) in \<open>auto simp: sensor_of_def sensor_create_def\<close>)+

lemma sensor_exists:
  assumes "json_laws J" obtains cf where "sensor_of J uid = Ret cf"
  by (rule sensor_factory_cfg [OF assms, of uid]) (simp add: sensor_of_def)

text \<open>
  A sensor of the factory publishes every state it is given as it is, retained and at most
  once, on its own default state topic; nothing else happens. After \<open>set(StateTopic, t)\<close> on the
  factory the topic is \<open>t\<close>.
\<close>

theorem sensor_state_published:
  assumes "json_laws J" and "sensor_factory J uid = Ret f"
    and "sensor_factory_set J Sensor_StateTopic t f = Ret f'"
  shows "sensor_update_state J C (sensor_create f) st =
      c_publish C (default_component_state_topic Sensor_Component uid) st at_most_once True \<and>
    sensor_update_state J C (sensor_create f') st = c_publish C t st at_most_once True"
proof -
  obtain f0 where f0: "sensor_factory J uid = Ret f0" "f_qos f0 = at_most_once"
    "cfg_at J Sensor_StateTopic (f_cfg f0) = Ret (default_component_state_topic Sensor_Component uid)"
    by (rule sensor_factory_cfg [OF assms(1), of uid])
  with assms(2) have f: "f0 = f" by simp
  obtain ob where "cfg_set J Sensor_StateTopic t (f_cfg f) = Ret ob" and "f' = f\<lparr>f_cfg := ob\<rparr>"
    using assms(3) by (auto simp: sensor_factory_set_def map_res_def split: res.splits)
  with json_laws.set_at_same [OF assms(1) this(1)] f0 show ?thesis
    by (simp add: f sensor_update_state_def sensor_create_def eval_res_def)
qed

theorem sensor_state_published_witness:
  "\<exists>f f'. sensor_factory alist_json ''temp'' = Ret f \<and>
     sensor_factory_set alist_json Sensor_StateTopic ''home/temp'' f = Ret f' \<and>
     sensor_update_state alist_json sim_client_ops (sensor_create f') ''21.5'' =
       c_publish sim_client_ops ''home/temp'' ''21.5'' at_most_once True"
proof -
  obtain f where f: "sensor_factory alist_json ''temp'' = Ret f"
    by (rule sensor_factory_cfg [OF alist.json_laws_axioms])
  obtain f' where "sensor_factory_set alist_json Sensor_StateTopic ''home/temp'' f = Ret f'"
    by (simp add: sensor_factory_set_def cfg_set_def sensor_props)
  from sensor_state_published [OF alist.json_laws_axioms f this] f this show ?thesis by blast
qed

text \<open>
  A binary sensor of the factory publishes \<open>ON\<close> and \<open>OFF\<close>, retained and at most once, on its
  own default state topic. After \<open>set(PayloadOn, on)\<close> on the factory, and after nothing else, it
  publishes \<open>on\<close> instead of \<open>ON\<close>, and still \<open>OFF\<close>.
\<close>

theorem binary_sensor_state_published:
  assumes "json_laws J" and "binary_sensor_factory J uid = Ret f"
    and "binary_sensor_factory_set J BinarySensor_PayloadOn on f = Ret f'"
  shows "binary_sensor_update_state J C (binary_sensor_create f) st =
      c_publish C (default_component_state_topic BinarySensor_Component uid)
        (if st then ''ON'' else ''OFF'') at_most_once True \<and>
    binary_sensor_update_state J C (binary_sensor_create f') st =
      c_publish C (default_component_state_topic BinarySensor_Component uid)
        (if st then on else ''OFF'') at_most_once True"
proof -
  obtain f0 where f0: "binary_sensor_factory J uid = Ret f0" "f_qos f0 = at_most_once"
    "cfg_at J BinarySensor_StateTopic (f_cfg f0) =
       Ret (default_component_state_topic BinarySensor_Component uid)"
    "cfg_at J BinarySensor_PayloadOn (f_cfg f0) = Ret ''ON''"
    "cfg_at J BinarySensor_PayloadOff (f_cfg f0) = Ret ''OFF''"
    by (rule binary_sensor_factory_cfg [OF assms(1), of uid])
  with assms(2) have f: "f0 = f" by simp
  obtain ob where set: "cfg_set J BinarySensor_PayloadOn on (f_cfg f) = Ret ob"
    and "f' = f\<lparr>f_cfg := ob\<rparr>"
    using assms(3) by (auto simp: binary_sensor_factory_set_def map_res_def split: res.splits)
  moreover have "cfg_at J BinarySensor_PayloadOff ob = cfg_at J BinarySensor_PayloadOff (f_cfg f)"
    "cfg_at J BinarySensor_StateTopic ob = cfg_at J BinarySensor_StateTopic (f_cfg f)"
    by (rule json_laws.set_at_other [OF assms(1) set], simp add: apart_def sensor_props)+
  ultimately show ?thesis
    using json_laws.set_at_same [OF assms(1) set] f0
    by (simp add: f binary_sensor_update_state_def binary_sensor_create_def eval_res_def)
qed

theorem binary_sensor_state_published_witness:
  "\<exists>f f'. binary_sensor_factory alist_json ''door'' = Ret f \<and>
     binary_sensor_factory_set alist_json BinarySensor_PayloadOn ''open'' f = Ret f' \<and>
     binary_sensor_update_state alist_json sim_client_ops (binary_sensor_create f') True =
       c_publish sim_client_ops (default_component_state_topic BinarySensor_Component ''door'')
         ''open'' at_most_once True"
proof -
  obtain f where f: "binary_sensor_factory alist_json ''door'' = Ret f"
    by (rule binary_sensor_factory_cfg [OF alist.json_laws_axioms])
  obtain f' where "binary_sensor_factory_set alist_json BinarySensor_PayloadOn ''open'' f = Ret f'"
    by (simp add: binary_sensor_factory_set_def cfg_set_def sensor_props)
  from binary_sensor_state_published [OF alist.json_laws_axioms f this, of sim_client_ops True] f this
  show ?thesis by auto
qed

text \<open>
  A sensor of the factory that reports a successful setup has had its discovery document and
  \<open>online\<close> on its availability topic accepted, in this order, both retained and at most once.
\<close>

theorem sensor_setup_announces:
  assumes "client_contract C accepted" and "json_laws J" and "sensor_of J uid = Ret cf"
    and "entity_setup J (sensor_entity J C cf) s = Some (Ret e, s')" and "\<not> failed e"
  shows "\<exists>xs. accepted s' = accepted s @ xs \<and> subseq
    [Pub (default_component_discovery_topic Sensor_Component uid) (cfg_json J (ec_cfg cf))
       at_most_once True,
     Pub (default_component_availability_topic Sensor_Component uid) ''online'' at_most_once True] xs"
proof -
  note cf = sensor_of_cfg [OF assms(2,3)]
  have "announces accepted (entity_setup J (sensor_entity J C cf))
    [Pub (default_component_discovery_topic Sensor_Component uid) (cfg_json J (ec_cfg cf))
       (e_qos (sensor_entity J C cf)) True,
     Pub (default_component_availability_topic Sensor_Component uid) ''online''
       (e_qos (sensor_entity J C cf)) True]"
    by (rule state_entity_announcement [OF assms(1)])
       (simp_all add: sensor_entity_def sensor_discovery_impl_def sensor_subscribe_impl_def cf)
  from announcesD [OF this assms(4,5)] show ?thesis by (simp add: sensor_entity_def cf)
qed

theorem sensor_setup_announces_witness:
  "\<exists>cf e s'. sensor_of alist_json ''temp'' = Ret cf \<and>
     entity_setup alist_json (sensor_entity alist_json (direct_client (sim_transport sim_codes)) cf)
       (sim_started idle_sim) = Some (Ret e, s') \<and>
     subseq
      [Pub (default_component_discovery_topic Sensor_Component ''temp'') (cfg_json alist_json (ec_cfg cf))
         at_most_once True,
       Pub (default_component_availability_topic Sensor_Component ''temp'') ''online'' at_most_once True]
      (accepted_requests (sim_log (impl s')))"
proof -
  obtain cf where cf: "sensor_of alist_json ''temp'' = Ret cf"
    by (rule sensor_exists [OF alist.json_laws_axioms])
  let ?en = "sensor_entity alist_json
    (direct_client (sim_transport sim_codes) :: (sim, nat) host client_ops) cf"
  have "sim_ok (entity_setup alist_json ?en)"
    by (rule state_entity_sim)
       (simp_all add: sensor_entity_def sensor_discovery_impl_def sensor_subscribe_impl_def
         sensor_of_cfg [OF alist.json_laws_axioms cf])
  moreover have "sim_ready (sim_started idle_sim) []"
    by (simp add: sim_ready_def sim_started_def idle_sim_def DefaultMaxAutoreconnectAttempts_def)
  ultimately obtain e s' where run: "entity_setup alist_json ?en (sim_started idle_sim) = Some (Ret e, s')"
    and "\<not> failed e" by (rule sim_okE)
  from sensor_setup_announces [OF sim.direct.client_contract_axioms alist.json_laws_axioms cf this] run cf
  show ?thesis by (auto simp: sim_started_def idle_sim_def)
qed

end
