(* ===== verification/Never_Throws.thy ===== *)
theory Never_Throws
  imports Direct_Client Client_Sched
begin

text \<open>
  Coroutines that never end with an exception: a client whose operations never throw is the
  contract \<open>quiet_client\<close>, and an entity on such a client throws only what its own configuration
  makes it throw. An \<open>AsyncMqttClient\<close> over a transport without interference keeps the contract.
\<close>

definition never_throws :: "('a, 's) coro \<Rightarrow> bool" where
  "never_throws m \<longleftrightarrow> (\<forall>s e s'. m s \<noteq> Some (Exn e, s'))"

lemma never_throwsD: "never_throws m \<Longrightarrow> m s \<noteq> Some (Exn e, s')"
  by (simp add: never_throws_def)

lemma never_throws_return [simp, intro]: "never_throws (co_return a)"
  by (simp add: never_throws_def co_return_run)

lemma never_throws_await [intro]:
  "never_throws m \<Longrightarrow> (\<And>a. never_throws (k a)) \<Longrightarrow> never_throws (await m k)"
  by (simp add: never_throws_def await_Some_iff)

lemma never_throws_eval [intro]: "(\<And>a. r = Ret a \<Longrightarrow> never_throws (k a)) \<Longrightarrow> \<exists>a. r = Ret a \<Longrightarrow> never_throws (eval_res r k)"
  by (auto simp: eval_Ret)

lemma never_throws_reading [intro]: "(\<And>t. never_throws (k t)) \<Longrightarrow> never_throws (reading k)"
  by (simp add: never_throws_def reading_run)

lemma never_throws_assign [intro]: "never_throws k \<Longrightarrow> never_throws (assign g k)"
  by (simp add: never_throws_def assign_run)

lemma never_throws_if [intro]: "never_throws m \<Longrightarrow> never_throws k \<Longrightarrow> never_throws (if b then m else k)"
  by simp

lemmas quiet_steps =
  never_throws_await never_throws_if never_throws_reading never_throws_assign never_throws_return

lemma does_never_throws: "does events m ev \<Longrightarrow> never_throws m"
  unfolding never_throws_def by (metis does_def option.inject prod.inject res.distinct(1))

section \<open>Clients\<close>

locale quiet_client =
  fixes C :: "'s client_ops"
  assumes publish_quiet: "never_throws (c_publish C t p q r)"
    and subscribe_quiet: "never_throws (c_subscribe C ts)"
    and recv_quiet: "never_throws (c_recv C)"

context quiet_transport
begin

lemma gate_quiet: "never_throws body \<Longrightarrow> never_throws (when_connected T body)"
  unfolding when_connected_def async_wait_autoreconnect_def
  by (intro quiet_steps does_never_throws [OF autorec_wait_does])

lemma direct_quiet: "quiet_client (direct_client T)"
proof unfold_locales
  note ops = does_never_throws [OF acquire_does] does_never_throws [OF publish_does]
    does_never_throws [OF subscribe_does]
  show "never_throws (c_publish (direct_client T) t p q r)" for t p q r
    unfolding direct_client_simps async_publish_def by (intro gate_quiet) (auto intro: ops)
  show "never_throws (c_subscribe (direct_client T) ts)" for ts
    unfolding direct_client_simps async_subscribe_def by (intro gate_quiet) (auto intro: ops)
  show "never_throws (c_recv (direct_client T))"
    unfolding never_throws_def direct_client_simps
  proof (intro allI notI)
    fix s e s' assume run: "async_recv T s = Some (Exn e, s')"
    define g :: "unit strand" where "g = \<lparr>impl = (), config = config s, state = state s,
      attempt = attempt s, max_attempts = max_attempts s, pcs = [0 \<mapsto> Receiving]\<rparr>"
    have "agrees s g" "pcs g 0 = Some Receiving" by (simp_all add: agrees_def g_def)
    from recv_simulated [OF this run] show False by simp
  qed
qed

end

sublocale quiet_transport \<subseteq> direct_quiet: quiet_client "direct_client T"
  by (rule direct_quiet)

section \<open>Entities\<close>

context quiet_client
begin

lemma setup_quiet:
  assumes "e_client en = C" and "never_throws (e_discovery_impl en)" and "never_throws (e_subscribe_impl en)"
    and "never_throws (entity_update_availability J en True)"
  shows "never_throws (entity_setup J en)"
  unfolding entity_setup_def entity_discovery_def entity_subscribe_def by (intro quiet_steps assms)

lemma recv_loop_quiet:
  assumes "e_client en = C" and "never_throws (entity_setup J en)"
  shows "never_throws (entity_recv J en)"
proof -
  have "r \<noteq> Exn x" if "entity_recv J en s = Some (r, s')" for s r s' x
    using that
  proof (induction rule: entity_recv_induct)
    case (Recv_Exn s y s1)
    with recv_quiet assms(1) show ?case by (simp add: never_throws_def)
  next
    case (Handle_Exn s e s1 y s2)
    with assms(2) show ?case by (auto simp: handle_err_def never_throws_def co_return_run split: if_splits)
  qed simp_all
  then show ?thesis by (auto simp: never_throws_def)
qed

lemma run_loop_quiet:
  assumes "e_client en = C" and "never_throws (entity_setup J en)" and "\<And>p. never_throws (on_packet p)"
  shows "never_throws (run_loop J en on_packet)"
proof -
  have "r \<noteq> Exn x" if "run_loop J en on_packet s = Some (r, s')" for s r s' x
    using that
  proof (induction rule: run_loop_induct)
    case (Recv_Exn s y s1)
    with recv_loop_quiet [OF assms(1,2)] show ?case by (simp add: never_throws_def)
  next
    case (Packet_Exn s p s1 y s2)
    with assms(3) show ?case by (simp add: never_throws_def)
  qed simp_all
  then show ?thesis by (auto simp: never_throws_def)
qed

end

lemma spawn_if_quiet [simp, intro]: "never_throws (spawn_if spawn h)"
  by (cases h) (auto simp: spawn_if_def)

end
