(* ===== verification/Factory_Types.thy ===== *)
theory Factory_Types
  imports Never_Throws Cover Button
begin

text \<open>
  A type system for what a program does with a factory. A configuration is an untyped JSON object, and
  reading a property of the wrong kind throws. The environment says what is known of each key; each
  factory operation is typed, and a program that is well typed neither throws while it configures nor
  creates an entity that ever throws a lookup error.
\<close>

section \<open>Kinds\<close>

text \<open>
  What is known of a key: nothing stored, a string, an object, an object of strings only, or nothing.
\<close>

datatype kind = K_Absent | K_String | K_Object | K_Strings | K_Any

type_synonym kind_env = "string \<Rightarrow> kind"

definition strings_only :: "('o, 'v) json_api \<Rightarrow> 'o \<Rightarrow> bool" where
  "strings_only J ob \<longleftrightarrow> (\<forall>k w. j_find J ob k = Some w \<longrightarrow> (\<exists>x. w = j_string J x))"

fun has_kind :: "('o, 'v) json_api \<Rightarrow> 'v option \<Rightarrow> kind \<Rightarrow> bool" where
  "has_kind J v K_Absent = (v = None)"
| "has_kind J v K_String = (\<exists>x. v = Some (j_string J x))"
| "has_kind J v K_Object = (\<exists>ob. v = Some (j_object J ob))"
| "has_kind J v K_Strings = (\<exists>ob. v = Some (j_object J ob) \<and> strings_only J ob)"
| "has_kind J v K_Any = True"

definition typed :: "('o, 'v) json_api \<Rightarrow> kind_env \<Rightarrow> 'o \<Rightarrow> bool" where
  "typed J \<Gamma> ob \<longleftrightarrow> (\<forall>k. has_kind J (j_find J ob k) (\<Gamma> k))"

section \<open>Typing of the configuration operations\<close>

text \<open>The kind of a key after a property of the object under it has been set, if that cannot throw.\<close>

fun inner_kind :: "kind \<Rightarrow> kind option" where
  "inner_kind K_Absent = Some K_Strings"
| "inner_kind K_Strings = Some K_Strings"
| "inner_kind K_Object = Some K_Object"
| "inner_kind _ = None"

definition type_set :: "property \<Rightarrow> kind_env \<Rightarrow> kind_env option" where
  "type_set p \<Gamma> =
     (if obj_key p = '''' then Some (\<Gamma>(key p := K_String))
      else map_option (\<lambda>k. \<Gamma>(obj_key p := k)) (inner_kind (\<Gamma> (obj_key p))))"

definition type_set_null :: "property \<Rightarrow> kind_env \<Rightarrow> kind_env" where
  "type_set_null p \<Gamma> =
     (if obj_key p = '''' then \<Gamma>(key p := K_Any)
      else if \<Gamma> (obj_key p) = K_Absent then \<Gamma>(obj_key p := K_Any) else \<Gamma>)"

definition type_set_device :: "kind_env \<Rightarrow> kind_env" where
  "type_set_device \<Gamma> = \<Gamma>(''device'' := K_Object)"

definition type_default :: "property \<Rightarrow> kind_env \<Rightarrow> kind_env" where
  "type_default p \<Gamma> = (if \<Gamma> (key p) = K_Absent then \<Gamma>(key p := K_String) else \<Gamma>)"

lemma typed_upd:
  assumes "typed J \<Gamma> ob" and "j_find J ob' = (j_find J ob)(k := v)" and "has_kind J v t"
  shows "typed J (\<Gamma>(k := t)) ob'"
  using assms by (simp add: typed_def)

lemma typed_weaken: "typed J (\<Gamma>(k := t)) ob \<Longrightarrow> \<Gamma> k = K_Any \<Longrightarrow> typed J \<Gamma> ob"
  unfolding typed_def by (metis fun_upd_other has_kind.simps(5))

context json_laws
begin

lemma kind_of_nothing: "has_kind J None k \<longleftrightarrow> k = K_Absent \<or> k = K_Any"
  by (cases k) simp_all

lemma find_put_upd: "j_find J (j_put J ob k v) = (j_find J ob)(k := Some v)"
  by (rule ext) simp

lemma put_string_typed: "typed J \<Gamma> ob \<Longrightarrow> typed J (\<Gamma>(k := K_String)) (j_put J ob k (j_string J v))"
  by (rule typed_upd) (auto intro: find_put_upd)

lemma strings_only_put: "strings_only J ob \<Longrightarrow> strings_only J (j_put J ob k (j_string J x))"
  by (auto simp: strings_only_def)

lemma strings_only_empty: "strings_only J (j_empty J)"
  by (simp add: strings_only_def)

lemma set_typed:
  assumes "typed J \<Gamma> ob" and "type_set p \<Gamma> = Some \<Gamma>'"
  shows "\<exists>ob'. cfg_set J p v ob = Ret ob' \<and> typed J \<Gamma>' ob'"
proof (cases "obj_key p = ''''")
  case True
  with assms have "\<Gamma>' = \<Gamma>(key p := K_String)" by (simp add: type_set_def)
  with assms(1) show ?thesis by (simp add: set_simple [OF True] put_string_typed)
next
  case False
  with assms(2) obtain k where k: "inner_kind (\<Gamma> (obj_key p)) = Some k" and g: "\<Gamma>' = \<Gamma>(obj_key p := k)"
    by (auto simp: type_set_def)
  have old: "has_kind J (j_find J ob (obj_key p)) (\<Gamma> (obj_key p))" using assms(1) by (simp add: typed_def)
  show ?thesis
  proof (cases "j_find J ob (obj_key p)")
    case None
    with old k have "k = K_Strings" by (cases "\<Gamma> (obj_key p)") auto
    with None False show ?thesis unfolding g
      by (auto simp: set_nested_new find_put_upd intro!: typed_upd [OF assms(1)] strings_only_put
          strings_only_empty)
  next
    case (Some w)
    with old k obtain inner where w: "w = j_object J inner" and s: "k = K_Strings \<Longrightarrow> strings_only J inner"
      and "k = K_Strings \<or> k = K_Object" by (cases "\<Gamma> (obj_key p)") auto
    then show ?thesis unfolding g
      using set_nested_old [OF False Some, of inner v]
      by (auto intro!: typed_upd [OF assms(1) find_put_upd] strings_only_put)
  qed
qed

lemma set_null_typed:
  assumes "typed J \<Gamma> ob"
  shows "typed J (type_set_null p \<Gamma>) (cfg_set_null J p ob)"
proof -
  have "\<Gamma> (obj_key p) = K_Absent \<or> \<Gamma> (obj_key p) = K_Any" if "j_find J ob (obj_key p) = None"
    using assms that unfolding typed_def by (metis kind_of_nothing)
  with assms show ?thesis
    by (auto simp: type_set_null_def cfg_set_null_def typed_def)
qed

lemma set_device_typed: "typed J \<Gamma> ob \<Longrightarrow> typed J (type_set_device \<Gamma>) (cfg_set_device J d ob)"
  unfolding type_set_device_def cfg_set_device_def by (rule typed_upd [OF _ find_put_upd]) auto

lemma default_typed:
  assumes "typed J \<Gamma> ob" and "obj_key p = ''''"
  shows "\<exists>ob'. set_default J p v ob = Ret ob' \<and> typed J (type_default p \<Gamma>) ob'"
proof (cases "j_find J ob (key p) = None")
  case True
  note put_string_typed [OF assms(1), of "key p" v]
  moreover from assms(1) True have "\<Gamma> (key p) = K_Absent \<or> \<Gamma> (key p) = K_Any"
    unfolding typed_def by (metis kind_of_nothing)
  ultimately show ?thesis using assms(2) True
    by (auto simp: set_default_def cfg_contains_def set_simple type_default_def intro: typed_weaken)
next
  case False
  with assms(1) have "\<Gamma> (key p) \<noteq> K_Absent" unfolding typed_def by (metis has_kind.simps(1))
  with assms False show ?thesis by (simp add: set_default_def cfg_contains_def type_default_def)
qed

lemma at_typed: "typed J \<Gamma> ob \<Longrightarrow> \<Gamma> (key p) = K_String \<Longrightarrow> obj_key p = '''' \<Longrightarrow> \<exists>x. cfg_at J p ob = Ret x"
  unfolding typed_def cfg_at_def find_string_def by (drule spec [of _ "key p"]) auto

lemma availability_typed:
  assumes "typed J \<Gamma> ob" and "\<Gamma> ''availability'' \<in> {K_Strings, K_Absent}" and "obj_key p = ''availability''"
  shows "cfg_contains J p ob = Ret False \<or> (cfg_contains J p ob = Ret True \<and> (\<exists>x. cfg_at J p ob = Ret x))"
proof -
  have "has_kind J (j_find J ob ''availability'') (\<Gamma> ''availability'')"
    using assms(1) by (simp add: typed_def)
  with assms(2,3) show ?thesis
    by (auto simp: cfg_contains_def cfg_at_def find_string_def strings_only_def) (metis option.simps(5) string_as_string)
qed

lemma update_availability_quiet:
  assumes "quiet_client C" and "typed J \<Gamma> (e_cfg en)" and "\<Gamma> ''availability'' \<in> {K_Strings, K_Absent}"
    and "e_client en = C"
  shows "never_throws (entity_update_availability J en st)"
proof -
  note at = availability_typed [OF assms(2,3)]
  have "\<exists>x. at_or J p def (e_cfg en) = Ret x" if "obj_key p = ''availability''" for p def
    using at [OF that] by (auto simp: at_or_def)
  then have "\<exists>x. availability_payload J st (e_cfg en) = Ret x"
    by (simp add: availability_payload_def property_defs)
  moreover have "cfg_contains J Availability_Topic (e_cfg en) = Ret False \<or>
      (cfg_contains J Availability_Topic (e_cfg en) = Ret True \<and> (\<exists>x. cfg_at J Availability_Topic (e_cfg en) = Ret x))"
    by (rule at) (simp add: property_defs)
  ultimately show ?thesis
    using quiet_client.publish_quiet [OF assms(1)] assms(4)
    by (auto simp: entity_update_availability_def eval_Ret)
qed

end

section \<open>Programs over the factory of a cover\<close>

datatype 'h cover_op =
    Cover_Set property string
  | Cover_Set_Null property
  | Cover_Set_Device device
  | On_Open 'h
  | On_Close 'h
  | On_Stop 'h

fun run_cover_op ::
  "('o, 'v) json_api \<Rightarrow> 'h cover_op \<Rightarrow> ('o, 'h) cover_factory \<Rightarrow> ('o, 'h) cover_factory res" where
  "run_cover_op J (Cover_Set p v) f = cover_factory_set J p v f"
| "run_cover_op J (Cover_Set_Null p) f = Ret (cover_factory_set_null J p f)"
| "run_cover_op J (Cover_Set_Device d) f = Ret (cover_factory_set_device J d f)"
| "run_cover_op J (On_Open h) f = cover_on_open J h f"
| "run_cover_op J (On_Close h) f = cover_on_close J h f"
| "run_cover_op J (On_Stop h) f = cover_on_stop J h f"

fun run_cover_ops ::
  "('o, 'v) json_api \<Rightarrow> 'h cover_op list \<Rightarrow> ('o, 'h) cover_factory \<Rightarrow> ('o, 'h) cover_factory res" where
  "run_cover_ops J [] f = Ret f"
| "run_cover_ops J (c # cs) f = bind_res (run_cover_op J c f) (run_cover_ops J cs)"

fun type_cover_op :: "'h cover_op \<Rightarrow> kind_env \<Rightarrow> kind_env option" where
  "type_cover_op (Cover_Set p v) \<Gamma> = type_set p \<Gamma>"
| "type_cover_op (Cover_Set_Null p) \<Gamma> = Some (type_set_null p \<Gamma>)"
| "type_cover_op (Cover_Set_Device d) \<Gamma> = Some (type_set_device \<Gamma>)"
| "type_cover_op (On_Open h) \<Gamma> = Some (type_default Cover_PayloadOpen \<Gamma>)"
| "type_cover_op (On_Close h) \<Gamma> = Some (type_default Cover_PayloadClose \<Gamma>)"
| "type_cover_op (On_Stop h) \<Gamma> = Some (type_default Cover_PayloadStop \<Gamma>)"

fun type_cover_ops :: "'h cover_op list \<Rightarrow> kind_env \<Rightarrow> kind_env option" where
  "type_cover_ops [] \<Gamma> = Some \<Gamma>"
| "type_cover_ops (c # cs) \<Gamma> = Option.bind (type_cover_op c \<Gamma>) (type_cover_ops cs)"

fun type_init :: "(property \<times> string) list \<Rightarrow> kind_env \<Rightarrow> kind_env option" where
  "type_init [] \<Gamma> = Some \<Gamma>"
| "type_init ((p, v) # init) \<Gamma> = Option.bind (type_set p \<Gamma>) (type_init init)"

text \<open>What the factory of a cover starts with: a null under \<open>payload_stop\<close> among the rest.\<close>

definition cover_env :: kind_env where
  "cover_env = (\<lambda>_. K_Absent)
     (''unique_id'' := K_String, ''command_topic'' := K_String, ''state_topic'' := K_String,
      ''availability'' := K_Strings, ''payload_stop'' := K_Any)"

text \<open>What a cover needs: strings under the command topic and all three payloads.\<close>

definition cover_complete :: "kind_env \<Rightarrow> bool" where
  "cover_complete \<Gamma> \<longleftrightarrow>
     \<Gamma> ''command_topic'' = K_String \<and> \<Gamma> ''payload_open'' = K_String \<and> \<Gamma> ''payload_close'' = K_String \<and>
     \<Gamma> ''payload_stop'' = K_String \<and> \<Gamma> ''state_topic'' \<in> {K_String, K_Absent} \<and>
     \<Gamma> ''availability'' \<in> {K_Strings, K_Absent}"

section \<open>Well-typed programs do not go wrong\<close>

context json_laws
begin

lemma empty_typed: "typed J (\<lambda>_. K_Absent) (j_empty J)"
  by (simp add: typed_def)

lemma init_typed:
  "typed J \<Gamma> ob \<Longrightarrow> type_init init \<Gamma> = Some \<Gamma>' \<Longrightarrow> \<exists>ob'. cfg_init J init ob = Ret ob' \<and> typed J \<Gamma>' ob'"
proof (induction init arbitrary: ob \<Gamma>)
  case (Cons pv init)
  obtain p v where pv: "pv = (p, v)" by (cases pv)
  with Cons.prems(2) obtain \<Gamma>1 where "type_set p \<Gamma> = Some \<Gamma>1" and rest: "type_init init \<Gamma>1 = Some \<Gamma>'"
    by (auto simp: Option.bind_eq_Some_conv)
  with set_typed [OF Cons.prems(1)] obtain ob1 where "cfg_set J p v ob = Ret ob1" "typed J \<Gamma>1 ob1" by blast
  with Cons.IH [OF _ rest] pv show ?case by auto
qed simp

lemma cover_factory_typed: "\<exists>f. cover_factory J uid = Ret f \<and> typed J cover_env (f_cfg f)"
proof -
  let ?init = "[(Property ''unique_id'', uid),
    (Cover_CommandTopic, default_component_command_topic Cover_Component uid),
    (Cover_StateTopic, default_component_state_topic Cover_Component uid),
    (Availability_Topic, default_component_availability_topic Cover_Component uid)]"
  let ?\<Gamma> = "(\<lambda>_. K_Absent)(''unique_id'' := K_String, ''command_topic'' := K_String,
    ''state_topic'' := K_String, ''availability'' := K_Strings)"
  have "type_init ?init (\<lambda>_. K_Absent) = Some ?\<Gamma>" by (simp add: type_set_def cover_props)
  with init_typed [OF empty_typed] obtain ob where "cfg_init J ?init (j_empty J) = Ret ob" "typed J ?\<Gamma> ob"
    by blast
  moreover from this(2) have "typed J (type_set_null Cover_PayloadStop ?\<Gamma>) (cfg_set_null J Cover_PayloadStop ob)"
    by (rule set_null_typed)
  moreover have "type_set_null Cover_PayloadStop ?\<Gamma> = cover_env"
    by (simp add: type_set_null_def cover_env_def cover_props)
  ultimately show ?thesis by (simp add: cover_factory_def cover_factory_cfg_def EntityCfg_def)
qed

lemma cover_op_typed:
  assumes "typed J \<Gamma> (f_cfg f)" and "type_cover_op c \<Gamma> = Some \<Gamma>'"
  shows "\<exists>f'. run_cover_op J c f = Ret f' \<and> typed J \<Gamma>' (f_cfg f')"
proof (cases c)
  case (Cover_Set p v)
  with assms set_typed [OF assms(1), of p _ v] show ?thesis
    by (auto simp: cover_factory_set_def common_factory_set_def)
next
  case (Cover_Set_Null p)
  with assms set_null_typed show ?thesis by (auto simp: cover_factory_set_null_def common_factory_set_null_def)
next
  case (Cover_Set_Device d)
  with assms set_device_typed show ?thesis
    by (auto simp: cover_factory_set_device_def common_factory_set_device_def)
next
  case (On_Open h)
  with assms default_typed [OF assms(1), of Cover_PayloadOpen cover_default_PayloadOpen] show ?thesis
    by (auto simp: cover_on_open_def cover_props)
next
  case (On_Close h)
  with assms default_typed [OF assms(1), of Cover_PayloadClose cover_default_PayloadClose] show ?thesis
    by (auto simp: cover_on_close_def cover_props)
next
  case (On_Stop h)
  with assms default_typed [OF assms(1), of Cover_PayloadStop cover_default_PayloadStop] show ?thesis
    by (auto simp: cover_on_stop_def cover_props)
qed

lemma cover_ops_typed:
  "typed J \<Gamma> (f_cfg f) \<Longrightarrow> type_cover_ops cs \<Gamma> = Some \<Gamma>' \<Longrightarrow>
   \<exists>f'. run_cover_ops J cs f = Ret f' \<and> typed J \<Gamma>' (f_cfg f')"
proof (induction cs arbitrary: f \<Gamma>)
  case (Cons c cs)
  then obtain \<Gamma>1 where "type_cover_op c \<Gamma> = Some \<Gamma>1" and rest: "type_cover_ops cs \<Gamma>1 = Some \<Gamma>'"
    by (auto simp: Option.bind_eq_Some_conv)
  with cover_op_typed [OF Cons.prems(1)] obtain f1 where "run_cover_op J c f = Ret f1" "typed J \<Gamma>1 (f_cfg f1)"
    by blast
  with Cons.IH [OF _ rest] show ?case by auto
qed simp

lemma complete_covers_quiet:
  assumes "quiet_client C" and "typed J \<Gamma> (ec_cfg cf)" and "cover_complete \<Gamma>"
  shows "never_throws (entity_setup J (cover_entity J C cf))"
    and "never_throws (cover_update_state J C cf st)"
    and "never_throws (cover_run J spawn C cf)"
proof -
  have at: "\<exists>x. cfg_at J p (ec_cfg cf) = Ret x"
    if "p \<in> {Cover_CommandTopic, Cover_PayloadOpen, Cover_PayloadClose, Cover_PayloadStop}" for p
    by (rule at_typed [OF assms(2)]) (use that assms(3) in \<open>auto simp: cover_complete_def cover_props\<close>)
  note quiet = quiet_client.publish_quiet [OF assms(1)] quiet_client.subscribe_quiet [OF assms(1)]
  have "never_throws (entity_update_availability J (cover_entity J C cf) st)" for st
    by (rule update_availability_quiet [OF assms(1), of \<Gamma>])
      (use assms(2,3) in \<open>auto simp: cover_entity_def cover_complete_def\<close>)
  then show ready: "never_throws (entity_setup J (cover_entity J C cf))"
    using quiet at by (intro quiet_client.setup_quiet [OF assms(1)])
      (auto simp: cover_entity_def cover_discovery_impl_def cover_subscribe_impl_def)
  have "never_throws (cover_dispatch J spawn cf cmd)" for cmd
    using at unfolding cover_dispatch_def by (intro never_throws_eval never_throws_if spawn_if_quiet never_throws_return) auto
  then have "never_throws (cover_on_packet J spawn cf pk)" for pk
    using at by (cases pk) (auto simp: cover_on_packet_def)
  with ready show "never_throws (cover_run J spawn C cf)"
    unfolding cover_run_def by (intro quiet_client.run_loop_quiet [OF assms(1)]) (simp_all add: cover_entity_def)
  have "has_kind J (j_find J (ec_cfg cf) ''state_topic'') (\<Gamma> ''state_topic'')" using assms(2) by (simp add: typed_def)
  with assms(3) have "cfg_contains J Cover_StateTopic (ec_cfg cf) = Ret False \<or>
      (cfg_contains J Cover_StateTopic (ec_cfg cf) = Ret True \<and> (\<exists>x. cfg_at J Cover_StateTopic (ec_cfg cf) = Ret x))"
    by (auto simp: cover_complete_def cfg_contains_def cfg_at_def find_string_def cover_props)
  then show "never_throws (cover_update_state J C cf st)"
    using quiet by (auto simp: cover_update_state_def eval_Ret)
qed

end

text \<open>
  C21: A program over the factory of a cover that is well typed runs without an exception, and if it
  leaves strings under the command topic and the three payloads, the cover it creates never throws:
  neither in its setup nor in a state update nor in its run loop, whatever packets arrive.
\<close>

theorem typed_covers_do_not_go_wrong:
  assumes "json_laws J" and "type_cover_ops cs cover_env = Some \<Gamma>"
  shows "\<exists>f0 f. cover_factory J uid = Ret f0 \<and> run_cover_ops J cs f0 = Ret f \<and>
    (quiet_client C \<and> cover_complete \<Gamma> \<longrightarrow>
       never_throws (entity_setup J (cover_entity J C (cover_create f))) \<and>
       never_throws (cover_update_state J C (cover_create f) st) \<and>
       never_throws (cover_run J spawn C (cover_create f)))"
proof -
  obtain f0 f where "cover_factory J uid = Ret f0" "run_cover_ops J cs f0 = Ret f" and "typed J \<Gamma> (f_cfg f)"
    using json_laws.cover_factory_typed [OF assms(1)] json_laws.cover_ops_typed [OF assms(1) _ assms(2)] by blast
  moreover from this(3) have "typed J \<Gamma> (ec_cfg (cover_create f))" by (simp add: cover_create_def)
  ultimately show ?thesis using json_laws.complete_covers_quiet [OF assms(1)] by blast
qed

text \<open>
  With an explicit stop payload the program is well typed and complete; without it is well typed, but
  the null of the factory stays and it is not complete.
\<close>

definition good_cover :: "nat cover_op list" where
  "good_cover = [On_Open 1, Cover_Set Cover_PayloadStop ''HALT'', On_Close 2, On_Stop 3,
     Cover_Set Availability_PayloadNotAvailable ''gone'']"

lemma stop_needs_payload:
  "\<exists>\<Gamma>. type_cover_ops [On_Open ho, On_Close hc, On_Stop hs] cover_env = Some \<Gamma> \<and> \<not> cover_complete \<Gamma>"
  by (simp add: type_default_def cover_props cover_env_def cover_complete_def)

theorem typed_covers_do_not_go_wrong_witness:
  "\<exists>f0 f. cover_factory alist_json ''c1'' = Ret f0 \<and> run_cover_ops alist_json good_cover f0 = Ret f \<and>
     never_throws (cover_run alist_json spawn_host sim_client_ops (cover_create f))"
proof -
  let ?\<Gamma> = "cover_env(''payload_open'' := K_String, ''payload_stop'' := K_String, ''payload_close'' := K_String)"
  have "type_cover_ops good_cover cover_env = Some ?\<Gamma>"
    by (auto simp: good_cover_def type_set_def type_default_def cover_props cover_env_def)
  moreover have "cover_complete ?\<Gamma>" by (simp add: cover_complete_def cover_env_def)
  moreover have "quiet_client sim_client_ops" unfolding sim_client_ops_def by (rule sim.direct_quiet)
  ultimately show ?thesis
    using typed_covers_do_not_go_wrong [OF alist.json_laws_axioms, of good_cover ?\<Gamma> "''c1''"
        "sim_client_ops :: (sim, nat) host client_ops" "''open''" spawn_host] by blast
qed

end
