(* ===== verification/Entity_Types.thy ===== *)
theory Entity_Types
  imports Factory_Types Sensors
begin

text \<open>
  The type system of \<open>Factory_Types\<close> for the factories of buttons, sensors and binary sensors: a program
  that is well typed configures without an exception, and when it leaves a string under every property
  the entity reads, the entity never throws.
\<close>

section \<open>Operations on the configuration\<close>

datatype cfg_op =
    Set_String property string
  | Set_Null property
  | Set_Device device

fun run_cfg_op :: "('o, 'v) json_api \<Rightarrow> cfg_op \<Rightarrow> 'o \<Rightarrow> 'o res" where
  "run_cfg_op J (Set_String p v) ob = cfg_set J p v ob"
| "run_cfg_op J (Set_Null p) ob = Ret (cfg_set_null J p ob)"
| "run_cfg_op J (Set_Device d) ob = Ret (cfg_set_device J d ob)"

fun type_cfg_op :: "cfg_op \<Rightarrow> kind_env \<Rightarrow> kind_env option" where
  "type_cfg_op (Set_String p v) \<Gamma> = type_set p \<Gamma>"
| "type_cfg_op (Set_Null p) \<Gamma> = Some (type_set_null p \<Gamma>)"
| "type_cfg_op (Set_Device d) \<Gamma> = Some (type_set_device \<Gamma>)"

fun type_cfg_ops :: "cfg_op list \<Rightarrow> kind_env \<Rightarrow> kind_env option" where
  "type_cfg_ops [] \<Gamma> = Some \<Gamma>"
| "type_cfg_ops (c # cs) \<Gamma> = Option.bind (type_cfg_op c \<Gamma>) (type_cfg_ops cs)"

text \<open>A program over a factory, given what each of its operations does.\<close>

fun run_factory_ops :: "('c \<Rightarrow> 'f \<Rightarrow> 'f res) \<Rightarrow> 'c list \<Rightarrow> 'f \<Rightarrow> 'f res" where
  "run_factory_ops run [] f = Ret f"
| "run_factory_ops run (c # cs) f = bind_res (run c f) (run_factory_ops run cs)"

context json_laws
begin

lemma cfg_op_typed:
  "typed J \<Gamma> ob \<Longrightarrow> type_cfg_op c \<Gamma> = Some \<Gamma>' \<Longrightarrow> \<exists>ob'. run_cfg_op J c ob = Ret ob' \<and> typed J \<Gamma>' ob'"
  using set_typed set_null_typed set_device_typed by (cases c) auto

text \<open>
  A factory whose operations act on the configuration like \<open>cfg_op\<close>s: every well-typed program over it
  works. \<open>cfg_of\<close> is \<open>None\<close> for an operation that leaves the configuration alone.
\<close>

lemma factory_ops_typed:
  assumes step: "\<And>c f. case cfg_of c of
      None \<Rightarrow> (\<exists>f'. run c f = Ret f' \<and> obj f' = obj f)
    | Some d \<Rightarrow> (\<forall>ob. run_cfg_op J d (obj f) = Ret ob \<longrightarrow> (\<exists>f'. run c f = Ret f' \<and> obj f' = ob))"
  shows "typed J \<Gamma> (obj f) \<Longrightarrow> type_cfg_ops (List.map_filter cfg_of cs) \<Gamma> = Some \<Gamma>' \<Longrightarrow>
    \<exists>f'. run_factory_ops run cs f = Ret f' \<and> typed J \<Gamma>' (obj f')"
proof (induction cs arbitrary: f \<Gamma>)
  case Nil
  then show ?case by (simp add: List.map_filter_def)
next
  case (Cons c cs)
  show ?case
  proof (cases "cfg_of c")
    case None
    with step [of c f] obtain f1 where "run c f = Ret f1" "obj f1 = obj f" by auto
    with Cons.IH [of \<Gamma> f1] Cons.prems None show ?thesis by (simp add: List.map_filter_def)
  next
    case (Some d)
    with Cons.prems(2) obtain \<Gamma>1 where "type_cfg_op d \<Gamma> = Some \<Gamma>1"
      and rest: "type_cfg_ops (List.map_filter cfg_of cs) \<Gamma>1 = Some \<Gamma>'"
      by (auto simp: List.map_filter_def Option.bind_eq_Some_conv)
    with cfg_op_typed [OF Cons.prems(1)] obtain ob where "run_cfg_op J d (obj f) = Ret ob" "typed J \<Gamma>1 ob" by blast
    with step [of c f] Some obtain f1 where "run c f = Ret f1" "typed J \<Gamma>1 (obj f1)" by auto
    with Cons.IH [OF this(2) rest] show ?thesis by simp
  qed
qed

end

section \<open>Programs over the three factories\<close>

datatype 'h button_op = Button_Cfg cfg_op | On_Press 'h

fun run_button_op ::
  "('o, 'v) json_api \<Rightarrow> 'h button_op \<Rightarrow> ('o, 'h) button_factory \<Rightarrow> ('o, 'h) button_factory res" where
  "run_button_op J (Button_Cfg (Set_String p v)) f = button_factory_set J p v f"
| "run_button_op J (Button_Cfg (Set_Null p)) f = Ret (button_factory_set_null J p f)"
| "run_button_op J (Button_Cfg (Set_Device d)) f = Ret (button_factory_set_device J d f)"
| "run_button_op J (On_Press h) f = Ret (button_on_press h f)"

fun button_cfg_op :: "'h button_op \<Rightarrow> cfg_op option" where
  "button_cfg_op (Button_Cfg c) = Some c"
| "button_cfg_op (On_Press h) = None"

fun run_sensor_op :: "('o, 'v) json_api \<Rightarrow> cfg_op \<Rightarrow> 'o factory \<Rightarrow> 'o factory res" where
  "run_sensor_op J (Set_String p v) f = sensor_factory_set J p v f"
| "run_sensor_op J (Set_Null p) f = Ret (sensor_factory_set_null J p f)"
| "run_sensor_op J (Set_Device d) f = Ret (sensor_factory_set_device J d f)"

fun run_binary_sensor_op :: "('o, 'v) json_api \<Rightarrow> cfg_op \<Rightarrow> 'o factory \<Rightarrow> 'o factory res" where
  "run_binary_sensor_op J (Set_String p v) f = binary_sensor_factory_set J p v f"
| "run_binary_sensor_op J (Set_Null p) f = Ret (binary_sensor_factory_set_null J p f)"
| "run_binary_sensor_op J (Set_Device d) f = Ret (binary_sensor_factory_set_device J d f)"

text \<open>What the factories start with, and what the entities read.\<close>

definition button_env :: kind_env where
  "button_env = (\<lambda>_. K_Absent)
     (''unique_id'' := K_String, ''payload_press'' := K_String, ''command_topic'' := K_String,
      ''availability'' := K_Strings)"

definition sensor_env :: kind_env where
  "sensor_env = (\<lambda>_. K_Absent)
     (''unique_id'' := K_String, ''state_topic'' := K_String, ''availability'' := K_Strings)"

definition binary_sensor_env :: kind_env where
  "binary_sensor_env = (\<lambda>_. K_Absent)
     (''unique_id'' := K_String, ''payload_on'' := K_String, ''payload_off'' := K_String,
      ''state_topic'' := K_String, ''availability'' := K_Strings)"

definition complete_for :: "string list \<Rightarrow> kind_env \<Rightarrow> bool" where
  "complete_for ks \<Gamma> \<longleftrightarrow> (\<forall>k \<in> set ks. \<Gamma> k = K_String) \<and> \<Gamma> ''availability'' \<in> {K_Strings, K_Absent}"

context json_laws
begin

lemma button_factory_typed: "\<exists>f. button_factory J uid = Ret f \<and> typed J button_env (f_cfg f)"
proof -
  let ?init = "[(Property ''unique_id'', uid), (Button_PayloadPress, button_default_PayloadPress),
    (Button_CommandTopic, default_component_command_topic Button_Component uid),
    (Availability_Topic, default_component_availability_topic Button_Component uid)]"
  have "type_init ?init (\<lambda>_. K_Absent) = Some button_env"
    by (simp add: type_set_def button_props button_env_def)
  from init_typed [OF empty_typed this] show ?thesis
    by (auto simp: button_factory_def button_factory_cfg_def EntityCfg_def)
qed

lemma sensor_factory_typed: "\<exists>f. sensor_factory J uid = Ret f \<and> typed J sensor_env (f_cfg f)"
proof -
  let ?init = "[(Property ''unique_id'', uid),
    (Sensor_StateTopic, default_component_state_topic Sensor_Component uid),
    (Availability_Topic, default_component_availability_topic Sensor_Component uid)]"
  have "type_init ?init (\<lambda>_. K_Absent) = Some sensor_env"
    by (simp add: type_set_def sensor_props sensor_env_def)
  from init_typed [OF empty_typed this] show ?thesis
    by (auto simp: sensor_factory_def sensor_factory_cfg_def EntityCfg_def)
qed

lemma binary_sensor_factory_typed: "\<exists>f. binary_sensor_factory J uid = Ret f \<and> typed J binary_sensor_env (f_cfg f)"
proof -
  let ?init = "[(Property ''unique_id'', uid), (BinarySensor_PayloadOn, binary_sensor_default_PayloadOn),
    (BinarySensor_PayloadOff, binary_sensor_default_PayloadOff),
    (BinarySensor_StateTopic, default_component_state_topic BinarySensor_Component uid),
    (Availability_Topic, default_component_availability_topic BinarySensor_Component uid)]"
  have "type_init ?init (\<lambda>_. K_Absent) = Some binary_sensor_env"
    by (simp add: type_set_def sensor_props binary_sensor_env_def)
  from init_typed [OF empty_typed this] show ?thesis
    by (auto simp: binary_sensor_factory_def binary_sensor_factory_cfg_def EntityCfg_def)
qed

end

text \<open>What an operation does to the factory is what it does to the configuration.\<close>

lemma button_op_acts:
  "case button_cfg_op c of
     None \<Rightarrow> (\<exists>f'. run_button_op J c f = Ret f' \<and> f_cfg f' = f_cfg f)
   | Some d \<Rightarrow> (\<forall>ob. run_cfg_op J d (f_cfg f) = Ret ob \<longrightarrow> (\<exists>f'. run_button_op J c f = Ret f' \<and> f_cfg f' = ob))"
  by (cases "(J, c, f)" rule: run_button_op.cases)
    (auto simp: button_factory_set_def button_factory_set_null_def button_factory_set_device_def button_on_press_def)

lemma sensor_op_acts:
  "run_cfg_op J d (f_cfg f) = Ret ob \<Longrightarrow> \<exists>f'. run_sensor_op J d f = Ret f' \<and> f_cfg f' = ob"
  "run_cfg_op J d (f_cfg f) = Ret ob \<Longrightarrow> \<exists>f'. run_binary_sensor_op J d f = Ret f' \<and> f_cfg f' = ob"
  by (cases d; auto simp: sensor_factory_set_def sensor_factory_set_null_def sensor_factory_set_device_def
      binary_sensor_factory_set_def binary_sensor_factory_set_null_def binary_sensor_factory_set_device_def)+

context json_laws
begin

lemmas button_ops_typed = factory_ops_typed [where obj = f_cfg and cfg_of = button_cfg_op, OF button_op_acts]

lemma sensor_ops_typed:
  assumes "typed J \<Gamma> (f_cfg f)" and "type_cfg_ops cs \<Gamma> = Some \<Gamma>'"
  shows "\<exists>f'. run_factory_ops (run_sensor_op J) cs f = Ret f' \<and> typed J \<Gamma>' (f_cfg f')"
    and "\<exists>f'. run_factory_ops (run_binary_sensor_op J) cs f = Ret f' \<and> typed J \<Gamma>' (f_cfg f')"
proof -
  have cs: "type_cfg_ops (List.map_filter Some cs) \<Gamma> = Some \<Gamma>'" using assms(2) by (simp add: List.map_filter_def)
  show "\<exists>f'. run_factory_ops (run_sensor_op J) cs f = Ret f' \<and> typed J \<Gamma>' (f_cfg f')"
    by (rule factory_ops_typed [where obj = f_cfg and cfg_of = Some, OF _ assms(1) cs]) (simp add: sensor_op_acts)
  show "\<exists>f'. run_factory_ops (run_binary_sensor_op J) cs f = Ret f' \<and> typed J \<Gamma>' (f_cfg f')"
    by (rule factory_ops_typed [where obj = f_cfg and cfg_of = Some, OF _ assms(1) cs]) (simp add: sensor_op_acts)
qed

section \<open>Complete entities do not throw\<close>

lemma at_complete:
  "typed J \<Gamma> ob \<Longrightarrow> complete_for ks \<Gamma> \<Longrightarrow> key p \<in> set ks \<Longrightarrow> obj_key p = '''' \<Longrightarrow> \<exists>x. cfg_at J p ob = Ret x"
  by (rule at_typed [of \<Gamma>]) (simp_all add: complete_for_def)

lemma complete_buttons_quiet:
  assumes "quiet_client C" and "typed J \<Gamma> (ec_cfg cf)" and "complete_for [''command_topic'', ''payload_press''] \<Gamma>"
  shows "never_throws (entity_setup J (button_entity J C cf))" and "never_throws (button_run J spawn C cf)"
proof -
  obtain topic press where at: "cfg_at J Button_CommandTopic (ec_cfg cf) = Ret topic"
    "cfg_at J Button_PayloadPress (ec_cfg cf) = Ret press"
    using at_complete [OF assms(2,3), of Button_CommandTopic] at_complete [OF assms(2,3), of Button_PayloadPress]
    by (auto simp: button_props)
  note quiet = quiet_client.publish_quiet [OF assms(1)] quiet_client.subscribe_quiet [OF assms(1)]
  have "never_throws (entity_update_availability J (button_entity J C cf) st)" for st
    by (rule update_availability_quiet [OF assms(1), of \<Gamma>])
      (use assms(2,3) in \<open>auto simp: button_entity_def complete_for_def\<close>)
  then show ready: "never_throws (entity_setup J (button_entity J C cf))"
    using quiet by (intro quiet_client.setup_quiet [OF assms(1)])
      (simp_all add: button_entity_def button_discovery_impl_def button_subscribe_impl_def at eval_Ret)
  have "never_throws (button_on_packet J spawn cf pk)" for pk
    by (cases pk) (auto simp: button_on_packet_def at eval_Ret)
  with ready show "never_throws (button_run J spawn C cf)"
    unfolding button_run_def by (intro quiet_client.run_loop_quiet [OF assms(1)]) (simp_all add: button_entity_def)
qed

text \<open>Sensors and binary sensors: a setup without a subscription, and a loop that ignores its packets.\<close>

lemma state_entities_quiet:
  assumes "quiet_client C" and "typed J \<Gamma> (e_cfg en)" and "complete_for ks \<Gamma>" and "e_client en = C"
    and "e_discovery_impl en = c_publish C dt dp q True" and "e_subscribe_impl en = co_return default_error"
  shows "never_throws (entity_setup J en)" and "never_throws (run_loop J en (\<lambda>p. co_return ()))"
proof -
  have "never_throws (entity_update_availability J en st)" for st
    by (rule update_availability_quiet [OF assms(1,2) _ assms(4)]) (use assms(3) in \<open>simp add: complete_for_def\<close>)
  then show ready: "never_throws (entity_setup J en)"
    using quiet_client.publish_quiet [OF assms(1)]
    by (intro quiet_client.setup_quiet [OF assms(1,4)]) (simp_all add: assms(5,6))
  then show "never_throws (run_loop J en (\<lambda>p. co_return ()))"
    by (intro quiet_client.run_loop_quiet [OF assms(1,4)]) simp_all
qed

lemma complete_sensors_quiet:
  assumes "quiet_client C" and "typed J \<Gamma> (ec_cfg cf)" and "complete_for [''state_topic''] \<Gamma>"
  shows "never_throws (entity_setup J (sensor_entity J C cf))" and "never_throws (sensor_update_state J C cf st)"
    and "never_throws (sensor_run J C cf)"
proof -
  have "\<exists>x. cfg_at J Sensor_StateTopic (ec_cfg cf) = Ret x"
    by (rule at_complete [OF assms(2,3)]) (simp_all add: sensor_props)
  then show "never_throws (sensor_update_state J C cf st)"
    using quiet_client.publish_quiet [OF assms(1)] by (auto simp: sensor_update_state_def)
  note quiet = state_entities_quiet [OF assms(1), where en = "sensor_entity J C cf" and \<Gamma> = \<Gamma> and ks = "[''state_topic'']"]
  show "never_throws (entity_setup J (sensor_entity J C cf))" and "never_throws (sensor_run J C cf)"
    using quiet assms(2,3) by (simp_all add: sensor_entity_def sensor_discovery_impl_def sensor_subscribe_impl_def sensor_run_def)
qed

lemma complete_binary_sensors_quiet:
  assumes "quiet_client C" and "typed J \<Gamma> (ec_cfg cf)"
    and "complete_for [''state_topic'', ''payload_on'', ''payload_off''] \<Gamma>"
  shows "never_throws (entity_setup J (binary_sensor_entity J C cf))"
    and "never_throws (binary_sensor_update_state J C cf b)" and "never_throws (binary_sensor_run J C cf)"
proof -
  obtain topic on off where at: "cfg_at J BinarySensor_StateTopic (ec_cfg cf) = Ret topic"
    "cfg_at J BinarySensor_PayloadOn (ec_cfg cf) = Ret on" "cfg_at J BinarySensor_PayloadOff (ec_cfg cf) = Ret off"
    using at_complete [OF assms(2,3), of BinarySensor_StateTopic] at_complete [OF assms(2,3), of BinarySensor_PayloadOn]
      at_complete [OF assms(2,3), of BinarySensor_PayloadOff] by (auto simp: sensor_props)
  show "never_throws (binary_sensor_update_state J C cf b)"
    using quiet_client.publish_quiet [OF assms(1)] by (simp add: binary_sensor_update_state_def at eval_Ret)
  note quiet = state_entities_quiet [OF assms(1), where en = "binary_sensor_entity J C cf" and \<Gamma> = \<Gamma>
      and ks = "[''state_topic'', ''payload_on'', ''payload_off'']"]
  show "never_throws (entity_setup J (binary_sensor_entity J C cf))" and "never_throws (binary_sensor_run J C cf)"
    using quiet assms(2,3)
    by (simp_all add: binary_sensor_entity_def binary_sensor_discovery_impl_def binary_sensor_subscribe_impl_def
        binary_sensor_run_def)
qed

end

section \<open>Property\<close>

text \<open>
  C22: Well-typed programs over the factories of buttons, sensors and binary sensors run without an
  exception, and when they leave a string under each property the entity reads, the entity never
  throws: neither in its setup, nor in a state update, nor in its run loop.
\<close>

theorem typed_factories_do_not_go_wrong:
  assumes "json_laws J"
  shows "(type_cfg_ops (List.map_filter button_cfg_op bs) button_env = Some \<Gamma>1 \<longrightarrow>
      (\<exists>f0 f. button_factory J uid = Ret f0 \<and> run_factory_ops (run_button_op J) bs f0 = Ret f \<and>
        (quiet_client C \<and> complete_for [''command_topic'', ''payload_press''] \<Gamma>1 \<longrightarrow>
          never_throws (entity_setup J (button_entity J C (button_create f))) \<and>
          never_throws (button_run J spawn C (button_create f))))) \<and>
    (type_cfg_ops cs sensor_env = Some \<Gamma>2 \<longrightarrow>
      (\<exists>f0 f. sensor_factory J uid = Ret f0 \<and> run_factory_ops (run_sensor_op J) cs f0 = Ret f \<and>
        (quiet_client C \<and> complete_for [''state_topic''] \<Gamma>2 \<longrightarrow>
          never_throws (entity_setup J (sensor_entity J C (sensor_create f))) \<and>
          never_throws (sensor_update_state J C (sensor_create f) st) \<and>
          never_throws (sensor_run J C (sensor_create f))))) \<and>
    (type_cfg_ops cs binary_sensor_env = Some \<Gamma>3 \<longrightarrow>
      (\<exists>f0 f. binary_sensor_factory J uid = Ret f0 \<and> run_factory_ops (run_binary_sensor_op J) cs f0 = Ret f \<and>
        (quiet_client C \<and> complete_for [''state_topic'', ''payload_on'', ''payload_off''] \<Gamma>3 \<longrightarrow>
          never_throws (entity_setup J (binary_sensor_entity J C (binary_sensor_create f))) \<and>
          never_throws (binary_sensor_update_state J C (binary_sensor_create f) b) \<and>
          never_throws (binary_sensor_run J C (binary_sensor_create f)))))"
proof (intro conjI impI)
  assume "type_cfg_ops (List.map_filter button_cfg_op bs) button_env = Some \<Gamma>1"
  with json_laws.button_factory_typed [OF assms] json_laws.button_ops_typed [OF assms]
  obtain f0 f where f: "button_factory J uid = Ret f0" "run_factory_ops (run_button_op J) bs f0 = Ret f"
    and "typed J \<Gamma>1 (f_cfg f)" by metis
  then have "typed J \<Gamma>1 (ec_cfg (button_create f))" by (simp add: button_create_def)
  with f json_laws.complete_buttons_quiet [OF assms] show "\<exists>f0 f. button_factory J uid = Ret f0 \<and>
      run_factory_ops (run_button_op J) bs f0 = Ret f \<and>
        (quiet_client C \<and> complete_for [''command_topic'', ''payload_press''] \<Gamma>1 \<longrightarrow>
          never_throws (entity_setup J (button_entity J C (button_create f))) \<and>
          never_throws (button_run J spawn C (button_create f)))" by blast
next
  assume "type_cfg_ops cs sensor_env = Some \<Gamma>2"
  with json_laws.sensor_factory_typed [OF assms] json_laws.sensor_ops_typed(1) [OF assms]
  obtain f0 f where f: "sensor_factory J uid = Ret f0" "run_factory_ops (run_sensor_op J) cs f0 = Ret f"
    and "typed J \<Gamma>2 (f_cfg f)" by metis
  then have "typed J \<Gamma>2 (ec_cfg (sensor_create f))" by (simp add: sensor_create_def)
  with f json_laws.complete_sensors_quiet [OF assms] show "\<exists>f0 f. sensor_factory J uid = Ret f0 \<and>
      run_factory_ops (run_sensor_op J) cs f0 = Ret f \<and>
        (quiet_client C \<and> complete_for [''state_topic''] \<Gamma>2 \<longrightarrow>
          never_throws (entity_setup J (sensor_entity J C (sensor_create f))) \<and>
          never_throws (sensor_update_state J C (sensor_create f) st) \<and>
          never_throws (sensor_run J C (sensor_create f)))" by blast
next
  assume "type_cfg_ops cs binary_sensor_env = Some \<Gamma>3"
  with json_laws.binary_sensor_factory_typed [OF assms] json_laws.sensor_ops_typed(2) [OF assms]
  obtain f0 f where f: "binary_sensor_factory J uid = Ret f0" "run_factory_ops (run_binary_sensor_op J) cs f0 = Ret f"
    and "typed J \<Gamma>3 (f_cfg f)" by metis
  then have "typed J \<Gamma>3 (ec_cfg (binary_sensor_create f))" by (simp add: binary_sensor_create_def)
  with f json_laws.complete_binary_sensors_quiet [OF assms] show "\<exists>f0 f. binary_sensor_factory J uid = Ret f0 \<and>
      run_factory_ops (run_binary_sensor_op J) cs f0 = Ret f \<and>
        (quiet_client C \<and> complete_for [''state_topic'', ''payload_on'', ''payload_off''] \<Gamma>3 \<longrightarrow>
          never_throws (entity_setup J (binary_sensor_entity J C (binary_sensor_create f))) \<and>
          never_throws (binary_sensor_update_state J C (binary_sensor_create f) b) \<and>
          never_throws (binary_sensor_run J C (binary_sensor_create f)))" by blast
qed

text \<open>Programs that are well typed and complete; the availability payload keeps its object one of strings.\<close>

definition good_button :: "nat button_op list" where
  "good_button = [On_Press 7, Button_Cfg (Set_String Button_PayloadPress ''GO''),
     Button_Cfg (Set_String Availability_PayloadNotAvailable ''gone'')]"

definition good_sensor :: "cfg_op list" where
  "good_sensor = [Set_String Sensor_StateTopic ''home/x'', Set_String Availability_PayloadAvailable ''up'']"

theorem typed_factories_do_not_go_wrong_witness:
  "(\<exists>f0 f. button_factory alist_json ''b1'' = Ret f0 \<and>
     run_factory_ops (run_button_op alist_json) good_button f0 = Ret f \<and>
     never_throws (button_run alist_json spawn_host sim_client_ops (button_create f))) \<and>
   (\<exists>f0 f. sensor_factory alist_json ''b1'' = Ret f0 \<and>
     run_factory_ops (run_sensor_op alist_json) good_sensor f0 = Ret f \<and>
     never_throws (sensor_update_state alist_json sim_client_ops (sensor_create f) ''1'')) \<and>
   (\<exists>f0 f. binary_sensor_factory alist_json ''b1'' = Ret f0 \<and>
     run_factory_ops (run_binary_sensor_op alist_json) good_sensor f0 = Ret f \<and>
     never_throws (binary_sensor_update_state alist_json sim_client_ops (binary_sensor_create f) True))"
proof -
  have "type_cfg_ops (List.map_filter button_cfg_op good_button) button_env = Some button_env"
    by (auto simp: good_button_def List.map_filter_def type_set_def button_props button_env_def fun_eq_iff)
  moreover have "type_cfg_ops good_sensor sensor_env = Some sensor_env"
    by (auto simp: good_sensor_def type_set_def sensor_props sensor_env_def fun_eq_iff)
  moreover have "type_cfg_ops good_sensor binary_sensor_env = Some binary_sensor_env"
    by (auto simp: good_sensor_def type_set_def sensor_props binary_sensor_env_def fun_eq_iff)
  moreover have "complete_for [''command_topic'', ''payload_press''] button_env"
    "complete_for [''state_topic''] sensor_env"
    "complete_for [''state_topic'', ''payload_on'', ''payload_off''] binary_sensor_env"
    by (simp_all add: complete_for_def button_env_def sensor_env_def binary_sensor_env_def)
  moreover have "quiet_client sim_client_ops" unfolding sim_client_ops_def by (rule sim.direct_quiet)
  ultimately show ?thesis
    using typed_factories_do_not_go_wrong [OF alist.json_laws_axioms, of good_button button_env "''b1''"
        "sim_client_ops :: (sim, nat) host client_ops" spawn_host good_sensor sensor_env "''1''" binary_sensor_env True]
    by blast
qed

end
