(* ===== verification/Shared_Client.thy ===== *)
theory Shared_Client
  imports Inbox
begin

text \<open>
  One connection shared by several entities (\<open>shared_mqtt_client.h\<close>): \<open>SharedAsyncMqttConnection\<close>
  with the pump that distributes what the connection receives, and the proxies
  \<open>SharedAsyncMqttClient\<close> with their queues.

  The state of the connection extends that of its \<open>AsyncMqttClient\<close> by the list \<open>clients\<close> of weak
  pointers and by the heap \<open>states\<close> of the \<open>SharedClientState\<close> objects. A weak pointer is the
  number of its object; it locks as long as the object is in the heap. The timers of the queues
  are a parameter: waiting on one is a suspension, cancelling one wakes its waiters.
\<close>

section \<open>State\<close>

record shared_state =
  sc_queue :: "recv_result list"
  sc_topics :: "topic_subopts list"

record 'w shared = "'w client" +
  clients :: "nat list"
  states :: "nat \<Rightarrow> shared_state option"

record 's queue_timers =
  q_wait :: "nat \<Rightarrow> (error_code, 's) coro"
  q_cancel :: "nat \<Rightarrow> 's \<Rightarrow> 's"

definition empty_state :: shared_state where
  "empty_state = \<lparr>sc_queue = [], sc_topics = []\<rparr>"

text \<open>\<open>SharedAsyncMqttConnection::create\<close>, \<open>make_client\<close> (with \<open>i\<close> the address the allocator
  gives) and the end of the last owner of the client's state.\<close>

definition shared_connection :: "'w client \<Rightarrow> 'w shared" where
  "shared_connection c =
     \<lparr>impl = impl c, config = config c, state = state c, attempt = attempt c,
      max_attempts = max_attempts c, clients = [], states = Map.empty\<rparr>"

definition make_client :: "nat \<Rightarrow> ('w, 'z) shared_scheme \<Rightarrow> ('w, 'z) shared_scheme" where
  "make_client i s = s\<lparr>states := (states s)(i \<mapsto> empty_state)\<rparr>"

definition drop_client :: "nat \<Rightarrow> ('w, 'z) shared_scheme \<Rightarrow> ('w, 'z) shared_scheme" where
  "drop_client i s = s\<lparr>states := (states s)(i := None)\<rparr>"

text \<open>\<open>weak_client.lock() == state\<close> for the state \<open>i\<close> of a live client.\<close>

definition locks :: "('w, 'z) shared_scheme \<Rightarrow> nat \<Rightarrow> nat \<Rightarrow> bool" where
  "locks s i w \<longleftrightarrow> states s w \<noteq> None \<and> w = i"

definition registered :: "('w, 'z) shared_scheme \<Rightarrow> nat \<Rightarrow> bool" where
  "registered s i = list_ex (locks s i) (clients s)"

definition queue_of :: "('w, 'z) shared_scheme \<Rightarrow> nat \<Rightarrow> recv_result list" where
  "queue_of s i = (case states s i of None \<Rightarrow> [] | Some c \<Rightarrow> sc_queue c)"

definition topics_of :: "('w, 'z) shared_scheme \<Rightarrow> nat \<Rightarrow> topic_subopts list" where
  "topics_of s i = (case states s i of None \<Rightarrow> [] | Some c \<Rightarrow> sc_topics c)"

text \<open>A change of the object \<open>i\<close>, which only a holder of a strong pointer to it makes.\<close>

definition change_state ::
  "nat \<Rightarrow> (shared_state \<Rightarrow> shared_state) \<Rightarrow> ('w, 'z) shared_scheme \<Rightarrow> ('w, 'z) shared_scheme" where
  "change_state i f s = s\<lparr>states := (states s)(i := map_option f (states s i))\<rparr>"

section \<open>RecvResultQueue\<close>

definition queue_push ::
  "('w, 'z) shared_scheme queue_timers \<Rightarrow> nat \<Rightarrow> recv_result \<Rightarrow> (unit, ('w, 'z) shared_scheme) coro" where
  "queue_push Q i r =
     assign (\<lambda>s. q_cancel Q i (change_state i (sc_queue_update (\<lambda>q. q @ [r])) s)) (co_return ())"

text \<open>
  The bodies below are cut where a coroutine may be suspended: \<open>queue_take\<close> is what \<open>pop_front\<close> does
  after its wait, \<open>subscribe_answered\<close> and \<open>pump_received\<close> what a subscribe and the pump do after the
  answer of the client.
\<close>

definition queue_take ::
  "ext_codes \<Rightarrow> nat \<Rightarrow> error_code \<Rightarrow> (recv_result, ('w, 'z) shared_scheme) coro" where
  "queue_take E i ec =
     reading (\<lambda>s. case queue_of s i of
        [] \<Rightarrow> (if failed ec then co_return (Inl (map_err E ec))
               else co_return (Inl (make_error_code InternalError)))
      | r # rs \<Rightarrow> assign (change_state i (sc_queue_update tl)) (co_return r))"

definition queue_pop ::
  "ext_codes \<Rightarrow> ('w, 'z) shared_scheme queue_timers \<Rightarrow> nat \<Rightarrow>
   (recv_result, ('w, 'z) shared_scheme) coro" where
  "queue_pop E Q i =
     await (reading (\<lambda>s. if queue_of s i = [] then q_wait Q i
                         else co_return default_error)) (queue_take E i)"

section \<open>Operations of the connection\<close>

definition register_client :: "nat \<Rightarrow> ('w, 'z) shared_scheme \<Rightarrow> ('w, 'z) shared_scheme" where
  "register_client i s = (if registered s i then s else s\<lparr>clients := clients s @ [i]\<rparr>)"

text \<open>A topic that is registered already is replaced where it stands.\<close>

fun register_topic :: "topic_subopts \<Rightarrow> topic_subopts list \<Rightarrow> topic_subopts list" where
  "register_topic t [] = [t]"
| "register_topic t (r # rs) = (if sub_topic r = sub_topic t then t # rs else r # register_topic t rs)"

definition register_topics :: "topic_subopts list \<Rightarrow> topic_subopts list \<Rightarrow> topic_subopts list" where
  "register_topics ts rs = fold register_topic ts rs"

definition subscribe_answered ::
  "nat \<Rightarrow> topic_subopts list \<Rightarrow> error_code \<Rightarrow> (error_code, ('w, 'z) shared_scheme) coro" where
  "subscribe_answered i ts err =
     (if failed err then co_return err
      else assign (\<lambda>s. register_client i (change_state i (sc_topics_update (register_topics ts)) s))
        (co_return err))"

definition shared_subscribe ::
  "('w, 'z) shared_scheme transport \<Rightarrow> nat \<Rightarrow> topic_subopts list \<Rightarrow>
   (error_code, ('w, 'z) shared_scheme) coro" where
  "shared_subscribe T i ts = await (async_subscribe T ts) (subscribe_answered i ts)"

definition shared_recv ::
  "('w, 'z) shared_scheme transport \<Rightarrow> ('w, 'z) shared_scheme queue_timers \<Rightarrow> nat \<Rightarrow>
   (recv_result, ('w, 'z) shared_scheme) coro" where
  "shared_recv T Q i = assign (register_client i) (queue_pop (t_codes T) Q i)"

definition shared_detach :: "nat \<Rightarrow> (error_code, ('w, 'z) shared_scheme) coro" where
  "shared_detach i =
     assign (\<lambda>s. s\<lparr>clients := filter (\<lambda>w. \<not> locks s i w) (clients s)\<rparr>)
       (co_return default_error)"

definition shared_publish ::
  "('w, 'z) shared_scheme transport \<Rightarrow> string \<Rightarrow> string \<Rightarrow> qos \<Rightarrow> bool \<Rightarrow>
   (error_code, ('w, 'z) shared_scheme) coro" where
  "shared_publish T topic payload qos retain = async_publish T topic payload qos retain"

definition shared_connect ::
  "('w, 'z) shared_scheme transport \<Rightarrow> (error_code, ('w, 'z) shared_scheme) coro" where
  "shared_connect T = async_connect T"

definition shared_close ::
  "('w, 'z) shared_scheme transport \<Rightarrow> (error_code, ('w, 'z) shared_scheme) coro" where
  "shared_close T = async_close T"

section \<open>The pump\<close>

primrec for_each :: "'a list \<Rightarrow> ('a \<Rightarrow> (unit, 's) coro) \<Rightarrow> (unit, 's) coro" where
  "for_each [] f = co_return ()"
| "for_each (x # xs) f = await (f x) (\<lambda>_. for_each xs f)"

definition remove_expired_clients :: "('w, 'z) shared_scheme \<Rightarrow> ('w, 'z) shared_scheme" where
  "remove_expired_clients s = s\<lparr>clients := filter (\<lambda>w. states s w \<noteq> None) (clients s)\<rparr>"

text \<open>The body of the loop over the clients that forwards an error, and of the one for a packet.\<close>

definition forward_error ::
  "('w, 'z) shared_scheme queue_timers \<Rightarrow> recv_result \<Rightarrow> nat \<Rightarrow> (unit, ('w, 'z) shared_scheme) coro" where
  "forward_error Q result w =
     reading (\<lambda>s. case states s w of None \<Rightarrow> co_return () | Some _ \<Rightarrow> queue_push Q w result)"

definition forward_packet ::
  "('w, 'z) shared_scheme queue_timers \<Rightarrow> publish_packet \<Rightarrow> nat \<Rightarrow> (unit, ('w, 'z) shared_scheme) coro" where
  "forward_packet Q pk w =
     reading (\<lambda>s. case states s w of
        None \<Rightarrow> co_return ()
      | Some c \<Rightarrow> for_each (sc_topics c) (\<lambda>t.
          if sub_topic t = pk_topic pk then queue_push Q w (Inr (Publish pk)) else co_return ()))"

definition pump_received ::
  "('w, 'z) shared_scheme queue_timers \<Rightarrow> recv_result \<Rightarrow> (error_code, ('w, 'z) shared_scheme) coro" where
  "pump_received Q result =
     (case result of
        Inl e \<Rightarrow>
          reading (\<lambda>s. await (for_each (clients s) (forward_error Q result)) (\<lambda>_.
            co_return (if e = make_error_code SessionReset then make_error_code Success else e)))
      | Inr (Other_Packet _) \<Rightarrow> co_return (make_error_code Success)
      | Inr (Publish pk) \<Rightarrow>
          reading (\<lambda>s. await (for_each (clients s) (forward_packet Q pk)) (\<lambda>_.
            co_return (make_error_code Success))))"

definition async_pump_one_impl ::
  "('w, 'z) shared_scheme transport \<Rightarrow> ('w, 'z) shared_scheme queue_timers \<Rightarrow>
   (error_code, ('w, 'z) shared_scheme) coro" where
  "async_pump_one_impl T Q = assign remove_expired_clients (await (async_recv T) (pump_received Q))"

definition async_pump_one ::
  "('w, 'z) shared_scheme transport \<Rightarrow> ('w, 'z) shared_scheme queue_timers \<Rightarrow>
   (unit, ('w, 'z) shared_scheme) coro" where
  "async_pump_one T Q = await (async_pump_one_impl T Q) (\<lambda>_. co_return ())"

partial_function (option) shared_run ::
  "('w, 'z) shared_scheme transport \<Rightarrow> ('w, 'z) shared_scheme queue_timers \<Rightarrow> ('w, 'z) shared_scheme \<Rightarrow>
   (unit res \<times> ('w, 'z) shared_scheme) option" where
  "shared_run T Q s =
     await (async_pump_one_impl T Q) (\<lambda>err s. if failed err then co_return () s else shared_run T Q s) s"

section \<open>SharedAsyncMqttClient\<close>

definition shared_client ::
  "('w, 'z) shared_scheme transport \<Rightarrow> ('w, 'z) shared_scheme queue_timers \<Rightarrow> nat \<Rightarrow>
   ('w, 'z) shared_scheme client_ops" where
  "shared_client T Q i =
     \<lparr>c_publish = shared_publish T, c_subscribe = shared_subscribe T i, c_recv = shared_recv T Q i,
      c_close = shared_detach i\<rparr>"

end
