(* ===== verification/Shared_Pump.thy ===== *)
theory Shared_Pump
  imports Shared_Client
begin

text \<open>
  What the pump of a shared connection puts into the queues of its clients. The locale
  \<open>timer_laws\<close> is what is relied on of the queue timers: cancelling one wakes waiters, which run
  later, changes neither the list of clients nor their states and puts nothing on the wire; while
  a coroutine waits on one, the wire log grows at most.
\<close>

locale timer_laws =
  fixes Q :: "('w, 'z) shared_scheme queue_timers"
    and events :: "'w \<Rightarrow> event list"
  assumes cancel_clients: "clients (q_cancel Q i s) = clients s"
    and cancel_states: "states (q_cancel Q i s) = states s"
    and cancel_events: "events (impl (q_cancel Q i s)) = events (impl s)"
    and wait_logs: "logs events (q_wait Q i) (\<lambda>_. [])"

section \<open>Appending to queues\<close>

text \<open>\<open>pushed s s' n\<close>: every live client \<open>i\<close> has \<open>n i\<close> more in its queue, nothing else has changed.\<close>

definition pushed ::
  "('w, 'z) shared_scheme \<Rightarrow> ('w, 'z) shared_scheme \<Rightarrow> (nat \<Rightarrow> recv_result list) \<Rightarrow> bool" where
  "pushed s s' n \<longleftrightarrow> clients s' = clients s \<and>
     (\<forall>i. states s' i = map_option (sc_queue_update (\<lambda>q. q @ n i)) (states s i))"

lemma push_nothing [simp]: "map_option (sc_queue_update (\<lambda>q. q)) x = x"
  by (cases x) simp_all

lemma pushed_refl [simp]: "pushed s s (\<lambda>i. [])"
  by (simp add: pushed_def)

lemma pushed_dead: "states s w = None \<Longrightarrow> pushed s s (\<lambda>i. if i = w then xs else [])"
  by (simp add: pushed_def)

lemma pushed_trans:
  "pushed s t n \<Longrightarrow> pushed t u m \<Longrightarrow> pushed s u (\<lambda>i. n i @ m i)"
  unfolding pushed_def by (auto simp: option.map_comp o_def)

lemma pushed_topics: "pushed s s' n \<Longrightarrow> topics_of s' i = topics_of s i"
  by (auto simp: pushed_def topics_of_def split: option.splits)

lemma pushed_queue:
  "pushed s s' n \<Longrightarrow> queue_of s' i = queue_of s i @ (if states s i = None then [] else n i)"
  by (auto simp: pushed_def queue_of_def split: option.splits)

lemma pushed_live: "pushed s s' n \<Longrightarrow> states s' i = None \<longleftrightarrow> states s i = None"
  by (simp add: pushed_def)

lemma pushed_cong: "pushed s s' n \<Longrightarrow> (\<And>i. states s i \<noteq> None \<Longrightarrow> n i = m i) \<Longrightarrow> pushed s s' m"
  unfolding pushed_def by (fastforce intro!: option.map_cong)

text \<open>A loop of pushes over clients or topics, whose bodies push the same whatever was pushed before.\<close>

lemma for_each_pushes:
  assumes body: "\<And>x s. \<exists>s'. f x s = Some (Ret (), s') \<and> pushed s s' (n s x)"
    and same: "\<And>x s s' m i. pushed s s' m \<Longrightarrow> n s' x i = n s x i"
  shows "\<exists>s'. for_each xs f s = Some (Ret (), s') \<and> pushed s s' (\<lambda>i. concat (map (\<lambda>x. n s x i) xs))"
proof (induction xs arbitrary: s)
  case Nil
  then show ?case by (simp add: co_return_run)
next
  case (Cons x xs)
  obtain s1 where s1: "f x s = Some (Ret (), s1)" and p1: "pushed s s1 (n s x)" using body by blast
  obtain s2 where s2: "for_each xs f s1 = Some (Ret (), s2)"
    and p2: "pushed s1 s2 (\<lambda>i. concat (map (\<lambda>x. n s1 x i) xs))" using Cons.IH by blast
  have "pushed s s2 (\<lambda>i. n s x i @ concat (map (\<lambda>x. n s x i) xs))"
    using pushed_trans [OF p1 p2] by (simp add: same [OF p1])
  with s1 s2 show ?case by (simp add: await_Ret)
qed

lemma concat_singles:
  assumes "distinct xs"
  shows "concat (map (\<lambda>x. if i = x then g x else []) xs) = (if i \<in> set xs then g i else [])"
  using assms by (induction xs) auto

lemma concat_matching:
  assumes "distinct (map g xs)"
  shows "concat (map (\<lambda>x. if g x = k then ys else []) xs) = (if k \<in> g ` set xs then ys else [])"
  using assms by (induction xs) auto

section \<open>One turn of the pump\<close>

text \<open>No client is listed twice and no client has a topic twice.\<close>

definition shared_inv :: "('w, 'z) shared_scheme \<Rightarrow> bool" where
  "shared_inv s \<longleftrightarrow> distinct (clients s) \<and> (\<forall>i. distinct (map sub_topic (topics_of s i)))"

text \<open>What of a received result is meant for client \<open>i\<close>.\<close>

definition relevant :: "('w, 'z) shared_scheme \<Rightarrow> nat \<Rightarrow> recv_result \<Rightarrow> recv_result list" where
  "relevant s i r =
     (if i \<in> set (clients s) \<and> states s i \<noteq> None then
        (case r of
           Inl e \<Rightarrow> [r]
         | Inr (Other_Packet _) \<Rightarrow> []
         | Inr (Publish pk) \<Rightarrow> (if pk_topic pk \<in> sub_topic ` set (topics_of s i) then [r] else []))
      else [])"

definition pump_result :: "recv_result \<Rightarrow> error_code" where
  "pump_result r =
     (case r of
        Inl e \<Rightarrow> (if e = make_error_code SessionReset then make_error_code Success else e)
      | Inr _ \<Rightarrow> make_error_code Success)"

context timer_laws
begin

lemma push_run:
  "\<exists>s'. queue_push Q i r s = Some (Ret (), s') \<and> pushed s s' (\<lambda>j. if j = i then [r] else [])"
  by (simp add: queue_push_def assign_run co_return_run pushed_def cancel_clients cancel_states
      change_state_def)

lemma forward_error_run:
  "\<exists>s'. forward_error Q r w s = Some (Ret (), s') \<and> pushed s s' (\<lambda>j. if j = w then [r] else [])"
proof (cases "states s w")
  case None
  then show ?thesis
    by (simp add: forward_error_def reading_run co_return_run pushed_dead)
qed (simp add: forward_error_def reading_run push_run)

lemma forward_packet_run:
  "\<exists>s'. forward_packet Q pk w s = Some (Ret (), s') \<and>
     pushed s s' (\<lambda>j. if j = w then concat (map (\<lambda>t. if sub_topic t = pk_topic pk
        then [Inr (Publish pk)] else []) (topics_of s w)) else [])"
proof (cases "states s w")
  case None
  then show ?thesis
    by (simp add: forward_packet_def reading_run co_return_run pushed_dead)
next
  case (Some c)
  let ?f = "\<lambda>t. if sub_topic t = pk_topic pk then queue_push Q w (Inr (Publish pk)) else co_return ()"
  let ?n = "\<lambda>s t j. if sub_topic t = pk_topic pk \<and> j = w then [Inr (Publish pk)] else []"
  have "\<exists>s'. ?f t s = Some (Ret (), s') \<and> pushed s s' (?n s t)" for t s
    using push_run [of w "Inr (Publish pk)" s] by (auto simp: co_return_run)
  from for_each_pushes [where f = ?f and n = ?n and xs = "sc_topics c" and s = s, OF this]
  obtain s' where run: "for_each (sc_topics c) ?f s = Some (Ret (), s')"
    and p: "pushed s s' (\<lambda>j. concat (map (\<lambda>t. ?n s t j) (sc_topics c)))" by auto
  have each: "concat (map (\<lambda>t. ?n s t j) (sc_topics c)) = (if j = w then concat (map (\<lambda>t.
      if sub_topic t = pk_topic pk then [Inr (Publish pk)] else []) (topics_of s w)) else [])" for j
    using Some by (cases "j = w") (simp_all add: topics_of_def)
  from p show ?thesis unfolding each using Some run by (auto simp: forward_packet_def reading_run)
qed

lemma forward_all:
  assumes "shared_inv s"
  shows "\<exists>s'. for_each (clients s) (forward_error Q (Inl e)) s = Some (Ret (), s') \<and>
      pushed s s' (\<lambda>i. relevant s i (Inl e))"
    and "\<exists>s'. for_each (clients s) (forward_packet Q pk) s = Some (Ret (), s') \<and>
      pushed s s' (\<lambda>i. relevant s i (Inr (Publish pk)))"
proof -
  have d: "distinct (clients s)" "\<And>i. distinct (map sub_topic (topics_of s i))"
    using assms by (simp_all add: shared_inv_def)
  obtain s' where "for_each (clients s) (forward_error Q (Inl e)) s = Some (Ret (), s')"
    and "pushed s s' (\<lambda>i. concat (map (\<lambda>w. if i = w then [Inl e] else []) (clients s)))"
    using for_each_pushes [where f = "forward_error Q (Inl e)" and xs = "clients s" and s = s
        and n = "\<lambda>s w j. if j = w then [Inl e] else []", OF forward_error_run] by auto
  then show "\<exists>s'. for_each (clients s) (forward_error Q (Inl e)) s = Some (Ret (), s') \<and>
      pushed s s' (\<lambda>i. relevant s i (Inl e))"
    by (auto simp: concat_singles [OF d(1)] relevant_def elim!: pushed_cong)
  let ?n = "\<lambda>s w j. if j = w then concat (map (\<lambda>t. if sub_topic t = pk_topic pk
      then [Inr (Publish pk)] else []) (topics_of s w)) else []"
  have "\<exists>s'. for_each (clients s) (forward_packet Q pk) s = Some (Ret (), s') \<and>
      pushed s s' (\<lambda>i. concat (map (\<lambda>w. ?n s w i) (clients s)))"
    by (rule for_each_pushes [where n = ?n, OF forward_packet_run]) (simp add: pushed_topics)
  then obtain s' where run: "for_each (clients s) (forward_packet Q pk) s = Some (Ret (), s')"
    and p: "pushed s s' (\<lambda>i. concat (map (\<lambda>w. ?n s w i) (clients s)))" by blast
  have each: "concat (map (\<lambda>w. ?n s w i) (clients s)) =
      (if i \<in> set (clients s) \<and> pk_topic pk \<in> sub_topic ` set (topics_of s i) then [Inr (Publish pk)] else [])" for i
    unfolding concat_singles [OF d(1)] concat_matching [OF d(2)] by simp
  from p have "pushed s s' (\<lambda>i. relevant s i (Inr (Publish pk)))"
    unfolding each by (rule pushed_cong) (simp add: relevant_def)
  with run show "\<exists>s'. for_each (clients s) (forward_packet Q pk) s = Some (Ret (), s') \<and>
      pushed s s' (\<lambda>i. relevant s i (Inr (Publish pk)))" by blast
qed

lemma pump_received_run:
  assumes "shared_inv s"
  shows "\<exists>s'. pump_received Q r s = Some (Ret (pump_result r), s') \<and> pushed s s' (\<lambda>i. relevant s i r)"
proof (cases r)
  case (Inl e)
  obtain s' where "for_each (clients s) (forward_error Q r) s = Some (Ret (), s')"
    and "pushed s s' (\<lambda>i. relevant s i r)"
    using forward_all(1) [OF assms] Inl by blast
  with Inl show ?thesis
    by (simp add: pump_received_def reading_run await_Ret co_return_run pump_result_def)
next
  case (Inr p)
  show ?thesis
  proof (cases p)
    case (Publish pk)
    obtain s' where "for_each (clients s) (forward_packet Q pk) s = Some (Ret (), s')"
      and "pushed s s' (\<lambda>i. relevant s i r)"
      using forward_all(2) [OF assms] Inr Publish by blast
    with Inr Publish show ?thesis
      by (simp add: pump_received_def reading_run await_Ret co_return_run pump_result_def)
  next
    case (Other_Packet k)
    with Inr show ?thesis
      by (auto simp: pump_received_def co_return_run pump_result_def
          relevant_def intro: pushed_cong [OF pushed_refl])
  qed
qed

lemma pump_run:
  assumes "async_recv T (remove_expired_clients s) = Some (Ret r, s1)" and "shared_inv s1"
  shows "\<exists>s'. async_pump_one_impl T Q s = Some (Ret (pump_result r), s') \<and> pushed s1 s' (\<lambda>i. relevant s1 i r)"
  using pump_received_run [OF assms(2), of r] assms(1)
  by (simp add: async_pump_one_impl_def assign_run await_Ret)

text \<open>Forwarding puts nothing on the wire.\<close>

lemma push_keeps: "keeps (\<lambda>s. events (impl s)) (queue_push Q i r)"
  by (simp add: queue_push_def keeps_def assign_run co_return_run cancel_events change_state_def)

lemma for_each_keeps: "(\<And>x. keeps f (g x)) \<Longrightarrow> keeps f (for_each xs g)"
  by (induction xs) (auto intro: keeps_await)

lemma forward_keeps:
  "keeps (\<lambda>s. events (impl s)) (forward_error Q r w)"
  "keeps (\<lambda>s. events (impl s)) (forward_packet Q pk w)"
  unfolding forward_error_def forward_packet_def
  by (rule keeps_reading, simp add: push_keeps for_each_keeps split: option.split)+

lemma pump_events:
  assumes "async_recv T (remove_expired_clients s) = Some (Ret r, s1)"
    and "async_pump_one_impl T Q s = Some (q, s')"
  shows "events (impl s') = events (impl s1)"
proof -
  have "keeps (\<lambda>s. events (impl s)) (pump_received Q r)"
    unfolding pump_received_def
    by (auto split: sum.split packet.split intro!: keeps_reading keeps_await for_each_keeps forward_keeps)
  from keepsD [OF this] show ?thesis
    using assms by (simp add: async_pump_one_impl_def assign_run await_Ret)
qed

end

end
