(* ===== verification/Shared_Props.thy ===== *)
theory Shared_Props
  imports Shared_Pump
begin

text \<open>
  What holds of a shared connection: its invariant under every operation and under whatever other
  coroutines do meanwhile, who gets a copy of what the pump receives, what the run loop
  distributes, and what subscribing and detaching do to a client.
\<close>

section \<open>Operations\<close>

datatype shared_op =
    Make_Client nat
  | Drop_Client nat
  | Shared_Connect
  | Shared_Close
  | Shared_Publish string string qos bool
  | Shared_Subscribe nat "topic_subopts list"
  | Shared_Recv nat
  | Shared_Detach nat
  | Shared_Pump

fun run_shared_op ::
  "('w, 'z) shared_scheme transport \<Rightarrow> ('w, 'z) shared_scheme queue_timers \<Rightarrow> shared_op \<Rightarrow>
   ('w, 'z) shared_scheme \<Rightarrow> ('w, 'z) shared_scheme option" where
  "run_shared_op T Q (Make_Client i) s = Some (make_client i s)"
| "run_shared_op T Q (Drop_Client i) s = Some (drop_client i s)"
| "run_shared_op T Q Shared_Connect s = map_option snd (shared_connect T s)"
| "run_shared_op T Q Shared_Close s = map_option snd (shared_close T s)"
| "run_shared_op T Q (Shared_Publish t p q r) s = map_option snd (shared_publish T t p q r s)"
| "run_shared_op T Q (Shared_Subscribe i ts) s = map_option snd (shared_subscribe T i ts s)"
| "run_shared_op T Q (Shared_Recv i) s = map_option snd (shared_recv T Q i s)"
| "run_shared_op T Q (Shared_Detach i) s = map_option snd (shared_detach i s)"
| "run_shared_op T Q Shared_Pump s = map_option snd (async_pump_one T Q s)"

section \<open>The invariant\<close>

text \<open>
  The client whose operation it is; its \<open>shared_ptr\<close> is a parameter of the coroutine and keeps the
  state alive until the operation ends. An operation of a client starts with the client alive, and
  a new client gets an address no pointer refers to.
\<close>

fun owners :: "shared_op \<Rightarrow> nat set" where
  "owners (Shared_Subscribe i ts) = {i}"
| "owners (Shared_Recv i) = {i}"
| "owners (Shared_Detach i) = {i}"
| "owners _ = {}"

definition valid_op :: "('w, 'z) shared_scheme \<Rightarrow> shared_op \<Rightarrow> bool" where
  "valid_op s op \<longleftrightarrow> (\<forall>i \<in> owners op. states s i \<noteq> None) \<and>
     (\<forall>i. op = Make_Client i \<longrightarrow> states s i = None \<and> i \<notin> set (clients s))"

text \<open>What every coroutine of the strand does while others are suspended.\<close>

definition guar :: "nat set \<Rightarrow> ('w, 'z) shared_scheme \<Rightarrow> ('w, 'z) shared_scheme \<Rightarrow> bool" where
  "guar own s s' \<longleftrightarrow> (shared_inv s \<longrightarrow> shared_inv s') \<and>
     (\<forall>i \<in> own. states s i \<noteq> None \<longrightarrow> states s' i \<noteq> None)"

lemma guar_refl [simp]: "guar own s s"
  by (simp add: guar_def)

lemma guar_trans: "guar own s t \<Longrightarrow> guar own t u \<Longrightarrow> guar own s u"
  by (simp add: guar_def)

lemma guar_same: "clients s' = clients s \<Longrightarrow> states s' = states s \<Longrightarrow> guar own s s'"
  by (simp add: guar_def shared_inv_def topics_of_def)

lemma shared_inv_init: "shared_inv (shared_connection c)"
  by (simp add: shared_inv_def shared_connection_def topics_of_def)

lemma register_topic_distinct:
  "distinct (map sub_topic rs) \<Longrightarrow> distinct (map sub_topic (register_topic t rs)) \<and>
     sub_topic ` set (register_topic t rs) = insert (sub_topic t) (sub_topic ` set rs)"
  by (induction rs) auto

lemma register_topics_distinct:
  "distinct (map sub_topic rs) \<Longrightarrow> distinct (map sub_topic (register_topics ts rs))"
  by (induction ts arbitrary: rs) (simp_all add: register_topics_def register_topic_distinct)

lemma registered_live: "states s i \<noteq> None \<Longrightarrow> registered s i \<longleftrightarrow> i \<in> set (clients s)"
  by (auto simp: registered_def locks_def list_ex_iff)

text \<open>Only live clients register; a dead one would be listed again and again.\<close>

lemma register_client_clients:
  "states s i \<noteq> None \<Longrightarrow> clients (register_client i s) =
     (if i \<in> set (clients s) then clients s else clients s @ [i])"
  by (simp add: register_client_def registered_live)

lemma topics_change:
  "topics_of (change_state i f s) j =
     (if j = i then (case states s i of None \<Rightarrow> [] | Some c \<Rightarrow> sc_topics (f c)) else topics_of s j)"
  by (simp add: topics_of_def change_state_def split: option.split)

section \<open>Each operation keeps the invariant\<close>

lemma topics_register: "topics_of (register_client i s) j = topics_of s j"
  by (simp add: register_client_def topics_of_def)

lemma register_inv:
  assumes "shared_inv s" and "states s i \<noteq> None"
  shows "shared_inv (register_client i s)"
  using assms by (simp add: shared_inv_def register_client_clients topics_register)

lemma change_inv:
  assumes "shared_inv s" and "\<And>c. distinct (map sub_topic (sc_topics c)) \<Longrightarrow> distinct (map sub_topic (sc_topics (f c)))"
  shows "shared_inv (change_state i f s)"
  using assms unfolding shared_inv_def
  by (auto simp: topics_change change_state_def topics_of_def split: option.splits)

lemma pushed_guar: "pushed s s' n \<Longrightarrow> guar own s s'"
  by (simp add: guar_def shared_inv_def pushed_topics) (simp add: pushed_def)

lemma expired_inv: "shared_inv s \<Longrightarrow> shared_inv (remove_expired_clients s)"
  by (auto simp: shared_inv_def remove_expired_clients_def topics_of_def)

lemma detach_inv:
  "shared_detach i s = Some (r, s') \<Longrightarrow> shared_inv s \<Longrightarrow> shared_inv s'"
  by (auto simp: shared_detach_def assign_run co_return_run shared_inv_def topics_of_def)

lemma register_live: "states (register_client i s) = states s"
  by (simp add: register_client_def)

lemma change_live: "states (change_state i f s) j = None \<longleftrightarrow> states s j = None"
  by (simp add: change_state_def)

lemma subscribe_inv:
  assumes "rely T True (guar {i})" and "shared_subscribe T i ts s = Some (r, s')"
    and "shared_inv s" and "states s i \<noteq> None"
  shows "shared_inv s'"
  using assms(2) unfolding shared_subscribe_def subscribe_answered_def
proof (cases rule: await_Some_cases)
  case (Exn e)
  with steps_inD_any [OF rely.async_subscribe_steps [OF assms(1)]] assms(3) show ?thesis
    by (auto simp: guar_def)
next
  case (Ret e s1)
  from steps_inD_any [OF rely.async_subscribe_steps [OF assms(1)] Ret(1)] assms(3,4)
  have s1: "shared_inv s1" "states s1 i \<noteq> None" by (simp_all add: guar_def)
  then have "shared_inv (register_client i (change_state i (sc_topics_update (register_topics ts)) s1))"
    by (intro register_inv change_inv) (simp_all add: register_topics_distinct change_live)
  with Ret(2) s1 show ?thesis by (auto simp: co_return_run assign_run split: if_splits)
qed

lemma recv_inv:
  assumes "steps_in True (guar {i}) (q_wait Q i)" and "shared_recv T Q i s = Some (r, s')"
    and "shared_inv s" and "states s i \<noteq> None"
  shows "shared_inv s'"
proof -
  let ?s0 = "register_client i s"
  have s0: "shared_inv ?s0" "states ?s0 i \<noteq> None"
    using register_inv [OF assms(3,4)] assms(4) by (simp_all add: register_live)
  from assms(2) have "queue_pop (t_codes T) Q i ?s0 = Some (r, s')"
    by (simp add: shared_recv_def assign_run)
  then show ?thesis unfolding queue_pop_def queue_take_def
  proof (cases rule: await_Some_cases)
    case (Exn e)
    then show ?thesis using steps_inD_any [OF assms(1)] s0
      by (fastforce simp: reading_run co_return_run guar_def split: if_splits)
  next
    case (Ret e s1)
    have "guar {i} ?s0 s1"
      using Ret(1) steps_inD_any [OF assms(1)] by (auto simp: reading_run co_return_run split: if_splits)
    then have "shared_inv s1" using s0 by (simp add: guar_def)
    moreover from this have "shared_inv (change_state i (sc_queue_update tl) s1)"
      by (rule change_inv) simp
    ultimately show ?thesis using Ret(2)
      by (auto simp: reading_run assign_run co_return_run split: list.splits if_splits)
  qed
qed

lemma pump_inv:
  assumes "timer_laws Q events" and "rely_recv T True (guar {})"
    and "async_pump_one T Q s = Some (r, s')" and "shared_inv s"
  shows "shared_inv s'"
proof -
  have inv: "shared_inv (remove_expired_clients s)" by (rule expired_inv) fact
  from assms(3) obtain r1 where run: "async_pump_one_impl T Q s = Some (r1, s')"
    by (auto simp: async_pump_one_def co_return_run elim!: await_Some_cases)
  then obtain r2 s1 where recv: "async_recv T (remove_expired_clients s) = Some (r2, s1)"
    by (auto simp: async_pump_one_impl_def assign_run elim!: await_Some_cases)
  have s1: "shared_inv s1"
    using steps_inD_any [OF rely_recv.async_recv_steps [OF assms(2)] recv] inv by (simp add: guar_def)
  show ?thesis
  proof (cases r2)
    case (Ret res)
    with recv obtain s2 where "async_pump_one_impl T Q s = Some (Ret (pump_result res), s2)"
      and "pushed s1 s2 (\<lambda>i. relevant s1 i res)"
      using timer_laws.pump_run [OF assms(1) _ s1] by blast
    with run s1 pushed_guar show ?thesis by (fastforce simp: guar_def)
  next
    case (Exn e)
    with recv run s1 show ?thesis by (auto simp: async_pump_one_impl_def assign_run await_Exn)
  qed
qed

section \<open>Transports of a shared connection\<close>

text \<open>A quiet transport leaves the clients of the connection alone.\<close>

sublocale private_transport \<subseteq> more: rely_recv T True "\<lambda>s s'. client.more s' = client.more s"
  by unfold_locales (simp_all add: more_kept flip: keeps_steps)

lemma shared_more: "client.more s = client.more t \<Longrightarrow> clients s = clients t \<and> states s = states t"
  by (cases s; cases t) simp

locale shared_transport = private_transport T events
  for T :: "('w, 'z) shared_scheme transport" and events :: "'w \<Rightarrow> event list"

text \<open>What the run loop sees of a state when it decides who gets what.\<close>

definition same_view :: "('w, 'z) shared_scheme \<Rightarrow> ('w, 'z) shared_scheme \<Rightarrow> bool" where
  "same_view s t \<longleftrightarrow> (shared_inv s \<longrightarrow> shared_inv t) \<and> (\<forall>i r. relevant t i r = relevant s i r)"

lemma same_view_trans: "same_view s t \<Longrightarrow> same_view t u \<Longrightarrow> same_view s u"
  by (simp add: same_view_def)

lemma relevant_cong:
  assumes "states t i = None \<longleftrightarrow> states s i = None" and "topics_of t i = topics_of s i"
    and "states s i \<noteq> None \<Longrightarrow> i \<in> set (clients t) \<longleftrightarrow> i \<in> set (clients s)"
  shows "relevant t i r = relevant s i r"
  unfolding relevant_def assms(2) using assms(1,3) by auto

lemma relevant_dead: "states s i = None \<Longrightarrow> relevant s i r = []"
  by (simp add: relevant_def)

lemma same_view_pushed:
  assumes "pushed s t n"
  shows "same_view s t"
proof -
  have "clients t = clients s" using assms by (simp add: pushed_def)
  then have "relevant t i r = relevant s i r" for i r
    by (intro relevant_cong pushed_live [OF assms] pushed_topics [OF assms]) simp
  with pushed_guar [OF assms, of "{}"] show ?thesis by (simp add: same_view_def guar_def)
qed

lemma same_view_expired: "same_view s (remove_expired_clients s)"
  unfolding same_view_def
proof (intro conjI impI allI)
  show "relevant (remove_expired_clients s) i r = relevant s i r" for i r
    by (rule relevant_cong) (auto simp: remove_expired_clients_def topics_of_def)
qed (rule expired_inv)

lemma same_view_same: "clients t = clients s \<Longrightarrow> states t = states s \<Longrightarrow> same_view s t"
  using guar_same [of t s "{}"] unfolding same_view_def guar_def
  by (auto intro!: relevant_cong simp: topics_of_def)

text \<open>\<open>distributes events s rs s'\<close>: from \<open>s\<close> to \<open>s'\<close> the results \<open>rs\<close> have been received and handed out.\<close>

definition packets :: "recv_result list \<Rightarrow> packet list" where
  "packets rs = concat (map (\<lambda>r. case r of Inr p \<Rightarrow> [p] | Inl _ \<Rightarrow> []) rs)"

definition distributes ::
  "('w \<Rightarrow> event list) \<Rightarrow> ('w, 'z) shared_scheme \<Rightarrow> recv_result list \<Rightarrow> ('w, 'z) shared_scheme \<Rightarrow> bool" where
  "distributes events s rs s' \<longleftrightarrow>
     delivered_packets (events (impl s')) = delivered_packets (events (impl s)) @ packets rs \<and>
     (\<forall>i. queue_of s' i = queue_of s i @ concat (map (relevant s i) rs))"

lemma distributes_Nil:
  "delivered_packets (events (impl s')) = delivered_packets (events (impl s)) \<Longrightarrow>
   (\<And>i. queue_of s' i = queue_of s i) \<Longrightarrow> distributes events s [] s'"
  by (simp add: distributes_def packets_def)

lemma distributes_Cons:
  assumes "delivered_packets (events (impl t)) = delivered_packets (events (impl s)) @
      (case r of Inr p \<Rightarrow> [p] | Inl _ \<Rightarrow> [])"
    and "\<And>i. queue_of t i = queue_of s i @ relevant s i r" and "same_view s t" and "distributes events t rs u"
  shows "distributes events s (r # rs) u"
proof -
  have "relevant t i = relevant s i" for i using assms(3) by (auto simp: same_view_def)
  with assms show ?thesis by (simp add: distributes_def packets_def)
qed

lemma shared_run_turn:
  "async_pump_one_impl T Q s = Some (Ret e, s1) \<Longrightarrow>
   shared_run T Q s = (if failed e then Some (Ret (), s1) else shared_run T Q s1)"
  by (subst shared_run.simps) (simp add: await_Ret co_return_run)

context shared_transport
begin

text \<open>One turn of the pump, as a whole.\<close>

lemma pump_turn:
  assumes "timer_laws Q events" and "shared_inv s" and "async_pump_one_impl T Q s = Some (q, s')"
  shows "(\<exists>x. q = Exn x \<and> delivered_packets (events (impl s')) = delivered_packets (events (impl s)) \<and>
        (\<forall>i. queue_of s' i = queue_of s i)) \<or>
    (\<exists>r. q = Ret (pump_result r) \<and> same_view s s' \<and> (\<forall>i. queue_of s' i = queue_of s i @ relevant s i r) \<and>
      delivered_packets (events (impl s')) = delivered_packets (events (impl s)) @
        (case r of Inr p \<Rightarrow> [p] | Inl _ \<Rightarrow> []))"
proof -
  let ?s0 = "remove_expired_clients s"
  from assms(3) obtain r2 s1 where recv: "async_recv T ?s0 = Some (r2, s1)"
    by (auto simp: async_pump_one_impl_def assign_run elim!: await_Some_cases)
  have "client.more s1 = client.more ?s0" using steps_inD_any [OF more.async_recv_steps recv] .
  then have s1: "clients s1 = clients ?s0" "states s1 = states ?s0" using shared_more by blast+
  then have view: "same_view s s1" using same_view_trans [OF same_view_expired] same_view_same by blast
  have queue: "queue_of s1 i = queue_of s i" for i
    using s1(2) by (simp add: queue_of_def remove_expired_clients_def)
  have del: "delivered_packets (events (impl s1)) = delivered_packets (events (impl s)) @
      (case r2 of Ret (Inr pk) \<Rightarrow> [pk] | _ \<Rightarrow> [])"
    using recv_inbox(2) [OF recv] by (simp add: remove_expired_clients_def)
  show ?thesis
  proof (cases r2)
    case (Exn x)
    with recv assms(3) have "q = Exn x" "s' = s1"
      by (simp_all add: async_pump_one_impl_def assign_run await_Exn)
    with del queue Exn show ?thesis by simp
  next
    case (Ret r)
    have "shared_inv s1" using view assms(2) by (simp add: same_view_def)
    from timer_laws.pump_run [OF assms(1) recv [unfolded Ret] this] assms(3)
    have q: "q = Ret (pump_result r)" and p: "pushed s1 s' (\<lambda>i. relevant s1 i r)" by auto
    have "queue_of s' i = queue_of s i @ relevant s i r" for i
      using pushed_queue [OF p, of i] queue view
      by (cases "states s1 i = None") (auto simp: same_view_def relevant_dead dest: relevant_dead)
    moreover have "events (impl s') = events (impl s1)"
      by (rule timer_laws.pump_events [OF assms(1) recv [unfolded Ret] assms(3)])
    ultimately show ?thesis
      using q del Ret same_view_trans [OF view same_view_pushed [OF p]] by auto
  qed
qed

lemma shared_run_distributes_all:
  assumes laws: "timer_laws Q events" and run: "shared_run T Q s = Some (r, s')" and inv: "shared_inv s"
  shows "\<exists>rs. distributes events s rs s' \<and> (\<forall>x \<in> set (butlast rs). \<not> failed (pump_result x)) \<and>
    (r = Ret () \<longrightarrow> rs \<noteq> [] \<and> failed (pump_result (last rs)))"
proof -
  let ?goal = "\<lambda>s r s'. \<exists>rs. distributes events s rs s' \<and> (\<forall>x \<in> set (butlast rs). \<not> failed (pump_result x)) \<and>
    (r = Ret () \<longrightarrow> rs \<noteq> [] \<and> failed (pump_result (last rs)))"
  let ?Q = "\<lambda>T' Q' s x. T' = T \<and> Q' = Q \<and> shared_inv s \<longrightarrow> ?goal s (fst x) (snd x)"
  have "?Q T Q s (r, s')"
  proof (rule shared_run.raw_induct [where P = ?Q, OF _ run], intro impI, elim conjE)
    fix f T' Q' s x
    assume IH: "\<And>T' Q' s x. f T' Q' s = Some x \<Longrightarrow> ?Q T' Q' s x"
      and turn: "await (async_pump_one_impl T' Q') (\<lambda>err s. if failed err then co_return () s else f T' Q' s) s =
        Some x"
      and eq: "T' = T" "Q' = Q" and inv: "shared_inv s"
    obtain r s' where x: "x = (r, s')" by (cases x)
    from turn have "?goal s r s'" unfolding x eq
    proof (cases rule: await_Some_cases)
      case (Exn e)
      from pump_turn [OF laws inv Exn(1)] have "distributes events s [] s'"
        by (intro distributes_Nil) auto
      with Exn(2) show ?thesis by (intro exI [of _ "[]"]) simp
    next
      case (Ret err s1)
      from pump_turn [OF laws inv Ret(1)] obtain q where q: "err = pump_result q"
        and view: "same_view s s1" and handed: "\<And>i. queue_of s1 i = queue_of s i @ relevant s i q"
          "delivered_packets (events (impl s1)) = delivered_packets (events (impl s)) @
             (case q of Inr p \<Rightarrow> [p] | Inl _ \<Rightarrow> [])" by auto
      note step = distributes_Cons [OF handed(2,1) view]
      show ?thesis
      proof (cases "failed err")
        case True
        with Ret(2) have "r = Ret ()" "s' = s1" by (simp_all add: co_return_run)
        with step [OF distributes_Nil [where s = s1 and s' = s1]] q True show ?thesis by (intro exI [of _ "[q]"]) simp
      next
        case False
        with Ret(2) have "f T Q s1 = Some (r, s')" by simp
        from IH [OF this] view inv obtain rs where rs: "distributes events s1 rs s'"
          "\<forall>x \<in> set (butlast rs). \<not> failed (pump_result x)"
          "r = Ret () \<longrightarrow> rs \<noteq> [] \<and> failed (pump_result (last rs))"
          by (auto simp: same_view_def)
        with step [OF rs(1)] q False show ?thesis by (intro exI [of _ "q # rs"]) auto
      qed
    qed
    then show "?goal s (fst x) (snd x)" by (simp add: x)
  qed
  then show ?thesis using inv by simp
qed

end

end
