(* ===== verification/Shared_Claims.thy ===== *)
theory Shared_Claims
  imports Shared_Props
begin

text \<open>The properties of a shared connection, with a simulated broker for their witnesses.\<close>

section \<open>A shared connection to the simulated broker\<close>

text \<open>No other coroutine runs, so a wait for an empty queue never ends.\<close>

definition sim_timers :: "(sim, 'z) shared_scheme queue_timers" where
  "sim_timers = \<lparr>q_wait = (\<lambda>i s. None), q_cancel = (\<lambda>i s. s)\<rparr>"

interpretation sim_timers: timer_laws sim_timers sim_log
  by unfold_locales (simp_all add: sim_timers_def logs_def)

interpretation sim_shared: shared_transport "sim_transport E" sim_log for E
  by (rule shared_transport.intro) (rule sim_private.private_transport_axioms)

lemma more_guar:
  fixes m :: "('a, ('w, 'z) shared_scheme) coro"
  shows "steps_in True (\<lambda>s s'. client.more s' = client.more s) m \<Longrightarrow> steps_in True (guar own) m"
  unfolding steps_in_def using shared_more guar_same by metis

text \<open>A quiet transport also satisfies the rely of a shared connection.\<close>

sublocale shared_transport \<subseteq> own: rely_recv T True "guar own" for own
proof unfold_locales
  fix s t u :: "('w, 'z) shared_scheme"
  show "guar own s t \<Longrightarrow> guar own t u \<Longrightarrow> guar own s u" by (rule guar_trans)
qed (rule more_guar more.handshake_steps more.start_steps more.acquire_steps more.publish_steps
       more.subscribe_steps more.autorec_wait_steps more.sleep_steps more.disconnect_steps
       more.close_steps more.recv_steps
     | simp add: guar_same | rule guar_same; use shared_more more_kept in blast)+

definition sub :: "string \<Rightarrow> topic_subopts" where
  "sub t = \<lparr>sub_topic = t, sub_qos = at_least_once\<rparr>"

text \<open>Two registered clients: 1 with the topic \<open>a\<close>, 2 with \<open>a\<close> and \<open>b/+\<close>.\<close>

definition sim_pair :: "sim \<Rightarrow> sim shared" where
  "sim_pair w =
     \<lparr>impl = w, config = default_config, state = Connected, attempt = 0,
      max_attempts = DefaultMaxAutoreconnectAttempts, clients = [1, 2],
      states = [1 \<mapsto> \<lparr>sc_queue = [], sc_topics = [sub ''a'']\<rparr>,
                2 \<mapsto> \<lparr>sc_queue = [], sc_topics = [sub ''a'', sub ''b/+'']\<rparr>]\<rparr>"

lemma sim_pair_inv: "shared_inv (sim_pair w)"
  by (simp add: shared_inv_def sim_pair_def topics_of_def sub_def)

section \<open>Properties\<close>

text \<open>
  C14: No operation of a shared connection, and nothing that other coroutines do meanwhile, ever
  lists a client twice or a topic twice in a client, given that the interference of others keeps
  this too and a client's state outlives its own operations; and a new connection starts so.
\<close>

theorem shared_invariant:
  assumes "timer_laws Q events" and "rely_recv T True (guar (owners op))"
    and "\<And>i. steps_in True (guar (owners op)) (q_wait Q i)"
    and "shared_inv s" and "valid_op s op" and "run_shared_op T Q op s = Some s'"
  shows "shared_inv s' \<and> shared_inv (shared_connection c)"
proof -
  note rely = rely_recv.axioms(1) [OF assms(2)]
  have through: "shared_inv s'" if "steps_in True (guar (owners op)) m" and "map_option snd (m s) = Some s'"
    for m :: "(error_code, ('a, 'b) shared_scheme) coro"
    using that assms(4) by (auto simp: guar_def dest!: steps_inD_any)
  have "shared_inv s'"
  proof (cases op)
    case (Make_Client i)
    with assms(4-6) show ?thesis
      by (auto simp: shared_inv_def make_client_def topics_of_def empty_state_def)
  next
    case (Drop_Client i)
    with assms(4,6) show ?thesis by (auto simp: shared_inv_def drop_client_def topics_of_def)
  next
    case Shared_Connect
    with through [OF rely.connect_steps [OF rely]] assms(6) show ?thesis by (simp add: shared_connect_def)
  next
    case Shared_Close
    with through [OF rely.async_close_steps [OF rely]] assms(6) show ?thesis by (simp add: shared_close_def)
  next
    case (Shared_Publish t p q r)
    with through [OF rely.async_publish_steps [OF rely]] assms(6) show ?thesis
      by (simp add: shared_publish_def)
  next
    case (Shared_Subscribe i ts)
    with subscribe_inv [of T i ts s] rely assms(4-6) show ?thesis by (auto simp: valid_op_def)
  next
    case (Shared_Recv i)
    with recv_inv [of i Q T s] assms(3-6) show ?thesis by (auto simp: valid_op_def)
  next
    case (Shared_Detach i)
    with detach_inv [of i s] assms(4,6) show ?thesis by auto
  next
    case Shared_Pump
    with pump_inv [OF assms(1), of T s] assms(2,4,6) show ?thesis by auto
  qed
  then show ?thesis by (simp add: shared_inv_init)
qed

theorem shared_invariant_witness:
  "\<exists>s'. run_shared_op (sim_transport sim_codes) sim_timers (Shared_Subscribe 1 [sub ''c'', sub ''a''])
      (sim_pair idle_sim) = Some s' \<and> clients s' = [1, 2] \<and>
     map sub_topic (topics_of s' 1) = [''a'', ''c''] \<and> shared_inv s'"
proof -
  let ?op = "Shared_Subscribe 1 [sub ''c'', sub ''a'']"
  have "case run_shared_op (sim_transport sim_codes) sim_timers ?op (sim_pair idle_sim) of None \<Rightarrow> False
     | Some s' \<Rightarrow> clients s' = [1, 2] \<and> map sub_topic (topics_of s' 1) = [''a'', ''c'']"
    by code_simp
  then obtain s' where s': "run_shared_op (sim_transport sim_codes) sim_timers ?op (sim_pair idle_sim) = Some s'"
    "clients s' = [1, 2]" "map sub_topic (topics_of s' 1) = [''a'', ''c'']"
    by (auto split: option.splits)
  have valid: "valid_op (sim_pair idle_sim) ?op" by (simp add: valid_op_def sim_pair_def)
  have wait: "steps_in True (guar (owners ?op)) (q_wait sim_timers i)" for i
    by (simp add: steps_in_def sim_timers_def)
  have "shared_inv s'"
    by (rule conjunct1, rule shared_invariant [OF sim_timers.timer_laws_axioms
          sim_shared.own.rely_recv_axioms wait sim_pair_inv valid s'(1)])
  then show ?thesis by (intro exI [of _ s'] conjI s')
qed

text \<open>
  One turn of the pump puts an error into the queue of every registered live client, a publish
  packet into the queue of every registered live client that has the packet's topic among its own,
  once each, and any other packet nowhere; it changes no topics and no registration, and it
  reports a session reset as success and any other error as itself.
\<close>

theorem pump_delivers_once:
  assumes "timer_laws Q events" and "rely_recv T True (guar {})" and "shared_inv s"
    and "async_recv T (remove_expired_clients s) = Some (Ret r, s1)"
  shows "\<exists>s'. async_pump_one_impl T Q s = Some (Ret (pump_result r), s') \<and> clients s' = clients s1 \<and>
    (\<forall>i. topics_of s' i = topics_of s1 i \<and> queue_of s' i = queue_of s1 i @ relevant s1 i r)"
proof -
  have "shared_inv s1"
    using steps_inD_any [OF rely_recv.async_recv_steps [OF assms(2)] assms(4)] expired_inv [OF assms(3)]
    by (simp add: guar_def)
  then obtain s' where "async_pump_one_impl T Q s = Some (Ret (pump_result r), s')"
    and p: "pushed s1 s' (\<lambda>i. relevant s1 i r)"
    using timer_laws.pump_run [OF assms(1,4)] by blast
  moreover have "queue_of s' i = queue_of s1 i @ relevant s1 i r" for i
    using pushed_queue [OF p, of i] relevant_dead [of s1 i r] by (cases "states s1 i = None") auto
  moreover have "clients s' = clients s1" using p by (simp add: pushed_def)
  ultimately show ?thesis using pushed_topics [OF p] by blast
qed

definition a_packet :: publish_packet where
  "a_packet = \<lparr>pk_id = 0, pk_topic = ''a'', pk_payload = ''x'', pk_qos = at_most_once, pk_retain = False\<rparr>"

text \<open>
  C8: What the run loop of a connection does to every queue, when no other coroutine interferes:
  the queue of each client grows by exactly those received results that are meant for it, in the
  order of their reception; the loop runs on through session resets and packets and, if it ends,
  ends with the first other error, which it has still handed out.
\<close>

theorem shared_run_distributes:
  assumes "shared_transport T events" and "timer_laws Q events" and "shared_inv s"
    and "shared_run T Q s = Some (r, s')"
  shows "\<exists>rs. delivered_packets (events (impl s')) = delivered_packets (events (impl s)) @ packets rs \<and>
    (\<forall>i. queue_of s' i = queue_of s i @ concat (map (relevant s i) rs)) \<and>
    (\<forall>x \<in> set (butlast rs). \<not> failed (pump_result x)) \<and>
    (r = Ret () \<longrightarrow> rs \<noteq> [] \<and> failed (pump_result (last rs)))"
  using shared_transport.shared_run_distributes_all [OF assms(1,2,4,3)]
  by (simp add: distributes_def)

theorem shared_run_distributes_witness:
  "\<exists>s'. shared_run (sim_transport sim_codes) sim_timers
       (sim_pair (sim_delivering [Publish a_packet])) = Some (Ret (), s') \<and>
     queue_of s' 1 = [Inr (Publish a_packet), Inl (make_error_code InvalidPacket)]"
proof -
  let ?T = "sim_transport sim_codes" and ?s = "sim_pair (sim_delivering [Publish a_packet])"
  have "case async_pump_one_impl ?T sim_timers ?s of None \<Rightarrow> False | Some (r1, s1) \<Rightarrow>
      r1 = Ret (make_error_code Success) \<and> (case async_pump_one_impl ?T sim_timers s1 of None \<Rightarrow> False
        | Some (r2, s2) \<Rightarrow> r2 = Ret (make_error_code InvalidPacket) \<and>
            queue_of s2 1 = [Inr (Publish a_packet), Inl (make_error_code InvalidPacket)])"
    by code_simp
  then obtain s1 s2 where "async_pump_one_impl ?T sim_timers ?s = Some (Ret (make_error_code Success), s1)"
    and "async_pump_one_impl ?T sim_timers s1 = Some (Ret (make_error_code InvalidPacket), s2)"
    and queue: "queue_of s2 1 = [Inr (Publish a_packet), Inl (make_error_code InvalidPacket)]"
    by (auto split: option.splits)
  then have run: "shared_run ?T sim_timers ?s = Some (Ret (), s2)" by (simp add: shared_run_turn)
  from shared_run_distributes [OF sim_shared.shared_transport_axioms sim_timers.timer_laws_axioms
      sim_pair_inv run] run queue show ?thesis by blast
qed

text \<open>
  After a client has detached, a turn of the pump leaves its queue as it is, whatever is
  received, as long as it does not subscribe or receive again; every other client gets what it
  would have got.
\<close>

theorem detached_gets_nothing:
  assumes "states s i \<noteq> None" and "shared_detach i s = Some (Ret e, s1)"
  shows "i \<notin> set (clients s1) \<and> relevant s1 i r = [] \<and>
    (\<forall>j. queue_of s1 j = queue_of s j \<and> (j \<noteq> i \<longrightarrow> relevant s1 j r = relevant s j r))"
proof -
  have s1: "s1 = s\<lparr>clients := filter (\<lambda>w. \<not> locks s i w) (clients s)\<rparr>"
    using assms(2) by (simp add: shared_detach_def assign_run co_return_run)
  have "relevant s1 j r = relevant s j r" if "j \<noteq> i" for j
    by (rule relevant_cong) (use that in \<open>auto simp: s1 topics_of_def locks_def\<close>)
  moreover have "i \<notin> set (clients s1)" using assms(1) by (simp add: s1 locks_def)
  ultimately show ?thesis by (simp add: relevant_def) (simp add: s1 queue_of_def)
qed

theorem detached_gets_nothing_witness:
  "\<exists>s1. shared_detach 1 (sim_pair idle_sim) = Some (Ret default_error, s1) \<and>
     clients s1 = [2] \<and> relevant s1 1 (Inr (Publish a_packet)) = []"
proof -
  obtain s1 where s1: "shared_detach 1 (sim_pair idle_sim) = Some (Ret default_error, s1)"
    and cl: "clients s1 = [2]"
    by (simp add: shared_detach_def assign_run co_return_run sim_pair_def locks_def)
  have "states (sim_pair idle_sim) 1 \<noteq> None" by (simp add: sim_pair_def)
  from detached_gets_nothing [OF this s1] s1 cl show ?thesis by blast
qed

definition topic_options :: "topic_subopts list \<Rightarrow> string \<Rightarrow> topic_subopts option" where
  "topic_options ts t = find (\<lambda>r. sub_topic r = t) ts"

lemma register_topic_options:
  "topic_options (register_topic r rs) t = (if t = sub_topic r then Some r else topic_options rs t)"
  by (induction rs) (auto simp: topic_options_def)

lemma register_topics_options:
  "topic_options (register_topics ts rs) t =
     (case topic_options (rev ts) t of None \<Rightarrow> topic_options rs t | Some r \<Rightarrow> Some r)"
proof (induction ts arbitrary: rs)
  case Nil
  then show ?case by (simp add: register_topics_def topic_options_def)
next
  case (Cons r ts)
  have "find P (xs @ [r]) = (case find P xs of None \<Rightarrow> (if P r then Some r else None) | Some x \<Rightarrow> Some x)"
    for P and xs :: "topic_subopts list" by (induction xs) auto
  with Cons [of "register_topic r rs"] show ?case
    by (auto simp: register_topics_def topic_options_def
        register_topic_options [unfolded topic_options_def] split: option.split)
qed

text \<open>
  C31: A subscription that fails changes no registration and no topics. One that succeeds registers
  the client once, gives each requested topic the options requested last for it, and leaves its
  other topics and all other clients as they were when the broker answered.
\<close>

theorem subscribe_registers:
  assumes "async_subscribe T ts s = Some (Ret e, s1)" and "states s1 i \<noteq> None"
  shows "\<exists>s'. shared_subscribe T i ts s = Some (Ret e, s') \<and>
    (failed e \<longrightarrow> s' = s1) \<and>
    (\<not> failed e \<longrightarrow>
       clients s' = (if i \<in> set (clients s1) then clients s1 else clients s1 @ [i]) \<and>
       (\<forall>t. topic_options (topics_of s' i) t = (case topic_options (rev ts) t of
          None \<Rightarrow> topic_options (topics_of s1 i) t | Some r \<Rightarrow> Some r)) \<and>
       (\<forall>j. queue_of s' j = queue_of s1 j \<and> (j \<noteq> i \<longrightarrow> topics_of s' j = topics_of s1 j)))"
proof -
  let ?s = "change_state i (sc_topics_update (register_topics ts)) s1"
  have "clients (register_client i ?s) = (if i \<in> set (clients s1) then clients s1 else clients s1 @ [i])"
    using assms(2) by (simp add: register_client_clients change_live) (simp add: change_state_def)
  moreover have "topics_of (register_client i ?s) j =
      (if j = i then register_topics ts (topics_of s1 i) else topics_of s1 j)" for j
    using assms(2) unfolding topics_register topics_change by (auto simp: topics_of_def)
  moreover have "queue_of (register_client i ?s) j = queue_of s1 j" for j
    by (simp add: queue_of_def register_live change_state_def split: option.split)
  ultimately show ?thesis
    using assms(1)
    by (auto simp: shared_subscribe_def subscribe_answered_def await_Ret co_return_run assign_run register_topics_options)
qed

theorem subscribe_registers_witness:
  "\<exists>s'. shared_subscribe (sim_transport sim_codes) 1 [sub ''c''] (sim_pair idle_sim) =
       Some (Ret (make_error_code Success), s') \<and>
     topic_options (topics_of s' 1) ''c'' = Some (sub ''c'') \<and> clients s' = [1, 2]"
proof -
  have "case async_subscribe (sim_transport sim_codes) [sub ''c''] (sim_pair idle_sim) of None \<Rightarrow> False
     | Some (r, s1) \<Rightarrow> r = Ret (make_error_code Success) \<and> clients s1 = [1, 2] \<and> states s1 1 \<noteq> None"
    by code_simp
  then obtain s1 where run: "async_subscribe (sim_transport sim_codes) [sub ''c''] (sim_pair idle_sim) =
      Some (Ret (make_error_code Success), s1)" and s1: "clients s1 = [1, 2]" "states s1 1 \<noteq> None"
    by (auto split: option.splits)
  from subscribe_registers [OF run s1(2)] s1(1) show ?thesis
    by (auto simp: topic_options_def sub_def)
qed

definition has_wildcard :: "string \<Rightarrow> bool" where
  "has_wildcard t \<longleftrightarrow> CHR ''+'' \<in> set t \<or> CHR ''#'' \<in> set t"

text \<open>
  C37: A topic filter with a wildcard is subscribed at the broker, but no packet that comes back for
  it reaches the client: packets carry plain topic names, and the pump compares for equality.
\<close>

theorem wildcard_never_delivered:
  assumes "timer_laws Q events" and "rely_recv T True (guar {})" and "shared_inv s"
    and "async_recv T (remove_expired_clients s) = Some (Ret (Inr (Publish pk)), s1)"
    and "\<forall>t \<in> set (topics_of s1 i). has_wildcard (sub_topic t)" and "\<not> has_wildcard (pk_topic pk)"
  shows "\<exists>s'. async_pump_one_impl T Q s = Some (Ret (make_error_code Success), s') \<and>
    queue_of s' i = queue_of s1 i"
proof -
  have inv: "shared_inv s1"
    using steps_inD_any [OF rely_recv.async_recv_steps [OF assms(2)] assms(4)] expired_inv [OF assms(3)]
    by (simp add: guar_def)
  have "relevant s1 i (Inr (Publish pk)) = []" using assms(5,6) by (auto simp: relevant_def)
  with timer_laws.pump_run [OF assms(1,4) inv] pushed_queue show ?thesis
    by (fastforce simp: pump_result_def)
qed

definition plus_packet :: publish_packet where
  "plus_packet = a_packet\<lparr>pk_topic := ''b/x''\<rparr>"

text \<open>Client 3 has subscribed to \<open>b/+\<close>.\<close>

definition sim_wild :: "sim shared" where
  "sim_wild = (sim_pair (sim_delivering [Publish plus_packet]))
     \<lparr>clients := [3], states := [3 \<mapsto> \<lparr>sc_queue = [], sc_topics = [sub ''b/+'']\<rparr>]\<rparr>"

theorem wildcard_never_delivered_witness:
  "\<exists>s'. async_pump_one_impl (sim_transport sim_codes) sim_timers sim_wild =
       Some (Ret (make_error_code Success), s') \<and> queue_of s' 3 = []"
proof -
  have inv: "shared_inv sim_wild" by (simp add: sim_wild_def shared_inv_def topics_of_def sub_def)
  have "sim_recvs (impl (remove_expired_clients sim_wild)) =
      (no_error, Some (Publish plus_packet)) # [(no_error, None)]"
    by (simp add: remove_expired_clients_def sim_wild_def sim_pair_def sim_delivering_def)
  note recv = sim_recv_packet [OF this, of sim_codes]
  let ?s1 = "snd (the (async_recv (sim_transport sim_codes) (remove_expired_clients sim_wild)))"
  have "\<forall>t \<in> set (topics_of ?s1 3). has_wildcard (sub_topic t)" "queue_of ?s1 3 = []"
    unfolding recv by (simp_all add: topics_of_def queue_of_def remove_expired_clients_def sim_wild_def
        sub_def has_wildcard_def)
  moreover have "\<not> has_wildcard (pk_topic plus_packet)"
    by (simp add: plus_packet_def has_wildcard_def)
  ultimately show ?thesis
    using wildcard_never_delivered [OF sim_timers.timer_laws_axioms sim_shared.own.rely_recv_axioms inv recv,
        of 3] unfolding recv by auto
qed

end
