(* ===== verification/Shared_Sched.thy ===== *)
theory Shared_Sched
  imports Shared_Claims
begin

text \<open>
  Coroutines of one shared connection on its strand: receives on the clients with their waits for
  the queue timers, subscriptions, the pump and its run loop, and clients that come, detach and go.
  The bodies are those of \<open>Shared_Client\<close>, run piecewise; the queue timer of a client is here the set
  of coroutines suspended on it, so that a lost wake-up would be visible. What the physical client
  receives, and the error with which a cancelled wait ends, are left open.
\<close>

section \<open>State\<close>

text \<open>
  Where a coroutine is suspended: in \<open>pop_front\<close>, before or after the cancellation of the timer, in
  the physical client with a subscription, or there with the pump, which runs once or, with \<open>True\<close>, in
  the loop of \<open>async_run\<close>.
\<close>

datatype shared_pc =
    Queue_Waiting nat
  | Queue_Woken nat
  | Subscribing nat "topic_subopts list"
  | Pumping bool
  | Popped recv_result
  | Done error_code

record 'w shared_strand = "'w shared" +
  procs :: "nat \<Rightarrow> shared_pc option"

type_synonym ('w, 'z) shared_piece = "nat \<Rightarrow> ('w, 'z) shared_strand_scheme \<Rightarrow> ('w, 'z) shared_strand_scheme"

definition enter :: "shared_pc \<Rightarrow> ('w, 'z) shared_piece" where
  "enter l p s = s\<lparr>procs := (procs s)(p := Some l)\<rparr>"

text \<open>Whoever awaits a coroutine takes its result, and its number is free again.\<close>

definition leave :: "('w, 'z) shared_piece" where
  "leave p s = s\<lparr>procs := (procs s)(p := None)\<rparr>"

fun ended :: "shared_pc option \<Rightarrow> bool" where
  "ended (Some (Popped r)) = True"
| "ended (Some (Done e)) = True"
| "ended _ = False"

text \<open>Cancelling the timer of a queue ends the waits on it; the coroutines run on later.\<close>

definition wake_queue :: "nat \<Rightarrow> ('w, 'z) shared_strand_scheme \<Rightarrow> ('w, 'z) shared_strand_scheme" where
  "wake_queue i s =
     s\<lparr>procs := (\<lambda>p. if procs s p = Some (Queue_Waiting i) then Some (Queue_Woken i) else procs s p)\<rparr>"

text \<open>A wait is where a piece ends, so no piece runs one to its end.\<close>

definition strand_timers :: "('w, ('z) shared_strand_ext) shared_scheme queue_timers" where
  "strand_timers = \<lparr>q_wait = (\<lambda>i s. None), q_cancel = wake_queue\<rparr>"

text \<open>Running a body to its end: the coroutine has its result.\<close>

definition finish ::
  "('a \<Rightarrow> shared_pc) \<Rightarrow> nat \<Rightarrow> ('a, ('w, 'z) shared_strand_scheme) coro \<Rightarrow>
   ('w, 'z) shared_strand_scheme \<Rightarrow> ('w, 'z) shared_strand_scheme" where
  "finish f p m s = (case m s of Some (Ret a, s') \<Rightarrow> enter (f a) p s' | _ \<Rightarrow> s)"

section \<open>The pieces\<close>

text \<open>\<open>async_recv\<close> of a client up to the wait, or to the end when something is queued; and after it.\<close>

definition recv_resume :: "ext_codes \<Rightarrow> nat \<Rightarrow> error_code \<Rightarrow> ('w, 'z) shared_piece" where
  "recv_resume E i ec p = finish Popped p (queue_take E i ec)"

definition recv_begin :: "ext_codes \<Rightarrow> nat \<Rightarrow> ('w, 'z) shared_piece" where
  "recv_begin E i p s =
     (let s1 = register_client i s in
      if queue_of s1 i = [] then enter (Queue_Waiting i) p s1 else recv_resume E i default_error p s1)"

definition subscribe_end :: "nat \<Rightarrow> topic_subopts list \<Rightarrow> error_code \<Rightarrow> ('w, 'z) shared_piece" where
  "subscribe_end i ts err p = finish Done p (subscribe_answered i ts err)"

definition detach_piece :: "nat \<Rightarrow> ('w, 'z) shared_piece" where
  "detach_piece i p = finish Done p (shared_detach i)"

text \<open>The pump up to its receive, and from the result to its end or to the next receive of the loop.\<close>

definition pump_begin :: "bool \<Rightarrow> ('w, 'z) shared_piece" where
  "pump_begin again p s = enter (Pumping again) p (remove_expired_clients s)"

definition pump_end :: "bool \<Rightarrow> recv_result \<Rightarrow> ('w, 'z) shared_piece" where
  "pump_end again r p s =
     (case pump_received strand_timers r s of
        Some (Ret e, s') \<Rightarrow> (if again \<and> \<not> failed e then pump_begin again p s' else enter (Done e) p s')
      | _ \<Rightarrow> s)"

section \<open>Steps\<close>

text \<open>
  What a step shows: a result received by the pump, a result taken from the queue of a client, a
  receive that ends without one, the end of a client.
\<close>

datatype shared_event =
    Silent
  | Arrived recv_result
  | Took nat recv_result
  | Missed nat
  | Dropped nat

definition resume_event :: "nat \<Rightarrow> ('w, 'z) shared_scheme \<Rightarrow> shared_event" where
  "resume_event i s = (case queue_of s i of [] \<Rightarrow> Missed i | r # _ \<Rightarrow> Took i r)"

definition begin_event :: "nat \<Rightarrow> ('w, 'z) shared_scheme \<Rightarrow> shared_event" where
  "begin_event i s = (if queue_of s i = [] then Silent else resume_event i s)"

text \<open>A coroutine suspended in \<open>pop_front\<close> of client \<open>i\<close>; one that holds the state of \<open>i\<close> alive.\<close>

fun popping :: "shared_pc option \<Rightarrow> nat \<Rightarrow> bool" where
  "popping (Some (Queue_Waiting j)) i = (j = i)"
| "popping (Some (Queue_Woken j)) i = (j = i)"
| "popping _ i = False"

fun holds_client :: "shared_pc option \<Rightarrow> nat \<Rightarrow> bool" where
  "holds_client (Some (Queue_Waiting j)) i = (j = i)"
| "holds_client (Some (Queue_Woken j)) i = (j = i)"
| "holds_client (Some (Subscribing j ts)) i = (j = i)"
| "holds_client _ i = False"

text \<open>
  With \<open>solo\<close> a receive on a client begins only when no other is under way on it, as entities do. The
  steps of other coroutines of the strand, among them those of the physical client, leave the
  members of the connection alone.
\<close>

inductive shared_step ::
  "ext_codes \<Rightarrow> bool \<Rightarrow> ('w, 'z) shared_strand_scheme \<Rightarrow> shared_event \<Rightarrow> ('w, 'z) shared_strand_scheme \<Rightarrow> bool"
  for E solo where
  begin_recv: "procs s p = None \<Longrightarrow> states s i \<noteq> None \<Longrightarrow> (solo \<Longrightarrow> \<forall>q. \<not> popping (procs s q) i) \<Longrightarrow>
    shared_step E solo s (begin_event i s) (recv_begin E i p s)"
| resume_recv: "procs s p = Some (Queue_Woken i) \<Longrightarrow>
    shared_step E solo s (resume_event i s) (recv_resume E i ec p s)"
| begin_subscribe: "procs s p = None \<Longrightarrow> states s i \<noteq> None \<Longrightarrow>
    shared_step E solo s Silent (enter (Subscribing i ts) p s)"
| end_subscribe: "procs s p = Some (Subscribing i ts) \<Longrightarrow>
    shared_step E solo s Silent (subscribe_end i ts err p s)"
| detach: "procs s p = None \<Longrightarrow> states s i \<noteq> None \<Longrightarrow> shared_step E solo s Silent (detach_piece i p s)"
| begin_pump: "procs s p = None \<Longrightarrow> shared_step E solo s Silent (pump_begin again p s)"
| end_pump: "procs s p = Some (Pumping again) \<Longrightarrow>
    shared_step E solo s (Arrived r) (pump_end again r p s)"
| collect: "ended (procs s p) \<Longrightarrow> shared_step E solo s Silent (leave p s)"
| make: "states s i = None \<Longrightarrow> i \<notin> set (clients s) \<Longrightarrow> shared_step E solo s Silent (make_client i s)"
| drop: "\<forall>p. \<not> holds_client (procs s p) i \<Longrightarrow> shared_step E solo s (Dropped i) (drop_client i s)"
| elsewhere: "clients s' = clients s \<Longrightarrow> states s' = states s \<Longrightarrow> procs s' = procs s \<Longrightarrow>
    shared_step E solo s Silent s'"

inductive_cases shared_stepE: "shared_step E solo s e s'"

text \<open>A run, with the state before each step and what the step shows.\<close>

inductive shared_trace ::
  "ext_codes \<Rightarrow> bool \<Rightarrow> ('w, 'z) shared_strand_scheme \<Rightarrow>
   (('w, 'z) shared_strand_scheme \<times> shared_event) list \<Rightarrow> ('w, 'z) shared_strand_scheme \<Rightarrow> bool"
  for E solo s0 where
  trace_Nil: "shared_trace E solo s0 [] s0"
| trace_snoc: "shared_trace E solo s0 tr s \<Longrightarrow> shared_step E solo s e s' \<Longrightarrow>
    shared_trace E solo s0 (tr @ [(s, e)]) s'"

section \<open>What the pieces do\<close>

interpretation strand_timers: timer_laws strand_timers events for events :: "'w \<Rightarrow> event list"
  by unfold_locales (simp_all add: strand_timers_def wake_queue_def logs_def)

lemma enter_simps [simp]:
  "clients (enter l p s) = clients s" "states (enter l p s) = states s"
  "procs (enter l p s) = (procs s)(p := Some l)"
  by (simp_all add: enter_def)

lemma queue_of_enter [simp]: "queue_of (enter l p s) i = queue_of s i"
  by (simp add: queue_of_def)

lemma leave_simps [simp]:
  "clients (leave p s) = clients s" "states (leave p s) = states s" "procs (leave p s) = (procs s)(p := None)"
  "queue_of (leave p s) i = queue_of s i" "topics_of (leave p s) i = topics_of s i"
  by (simp_all add: leave_def queue_of_def topics_of_def)

lemma queue_take_run:
  "queue_take E i ec s =
     (case queue_of s i of
        [] \<Rightarrow> Some (Ret (Inl (if failed ec then map_err E ec else make_error_code InternalError)), s)
      | r # rs \<Rightarrow> Some (Ret r, change_state i (sc_queue_update tl) s))"
  by (simp add: queue_take_def reading_run assign_run co_return_run split: list.split)

lemma resume_empty:
  "queue_of s i = [] \<Longrightarrow> recv_resume E i ec p s =
     enter (Popped (Inl (if failed ec then map_err E ec else make_error_code InternalError))) p s"
  by (simp add: recv_resume_def finish_def queue_take_run)

lemma resume_next:
  "queue_of s i = r # rs \<Longrightarrow> recv_resume E i ec p s =
     enter (Popped r) p (change_state i (sc_queue_update tl) s)"
  by (simp add: recv_resume_def finish_def queue_take_run)

text \<open>The pieces of a receive, put together again, are the coroutine of the sequential model.\<close>

lemma recv_in_pieces:
  "shared_recv T Q i s =
     (if queue_of (register_client i s) i = [] then
        await (q_wait Q i) (queue_take (t_codes T) i) (register_client i s)
      else queue_take (t_codes T) i default_error (register_client i s))"
  by (simp add: shared_recv_def queue_pop_def assign_run await_def reading_run co_return_run)

lemma subscribe_end_run:
  "subscribe_end i ts err p s = enter (Done err) p
     (if failed err then s else register_client i (change_state i (sc_topics_update (register_topics ts)) s))"
  by (simp add: subscribe_end_def finish_def subscribe_answered_def co_return_run assign_run)

lemma detach_run:
  "detach_piece i p s = enter (Done default_error) p
     (s\<lparr>clients := filter (\<lambda>w. \<not> locks s i w) (clients s)\<rparr>)"
  by (simp add: detach_piece_def finish_def shared_detach_def co_return_run assign_run)

section \<open>Who is woken\<close>

text \<open>
  Between \<open>s\<close> and \<open>t\<close> a coroutine stays where it is, and then if it waits on a queue, this queue is
  as before; or it has waited and is woken, and then something is queued. Queues grow.
\<close>

definition woken :: "('w, 'z) shared_strand_scheme \<Rightarrow> ('w, 'z) shared_strand_scheme \<Rightarrow> bool" where
  "woken s t \<longleftrightarrow>
     (\<forall>i. (states t i = None \<longleftrightarrow> states s i = None) \<and> grows (queue_of s i) (queue_of t i)) \<and>
     (\<forall>q. (procs t q = procs s q \<and>
             (\<forall>i. procs s q = Some (Queue_Waiting i) \<longrightarrow> queue_of t i = queue_of s i)) \<or>
       (\<exists>i. procs s q = Some (Queue_Waiting i) \<and> procs t q = Some (Queue_Woken i) \<and>
          (states t i \<noteq> None \<longrightarrow> queue_of t i \<noteq> [])))"

lemma woken_cases [consumes 1, case_names stays woken]:
  assumes "woken s t"
  obtains "procs t q = procs s q" and "\<And>i. procs s q = Some (Queue_Waiting i) \<Longrightarrow> queue_of t i = queue_of s i"
  | i where "procs s q = Some (Queue_Waiting i)" and "procs t q = Some (Queue_Woken i)"
      and "states t i \<noteq> None \<Longrightarrow> queue_of t i \<noteq> []"
  using assms unfolding woken_def by metis

lemma woken_live: "woken s t \<Longrightarrow> states t i = None \<longleftrightarrow> states s i = None"
  by (simp add: woken_def)

lemma woken_refl [simp]: "woken s s"
  by (simp add: woken_def)

lemma woken_trans:
  assumes "woken s t" and "woken t u"
  shows "woken s u"
proof -
  have same: "states u i = None \<longleftrightarrow> states s i = None" and grow: "grows (queue_of s i) (queue_of t i)"
    "grows (queue_of t i) (queue_of u i)" and live: "states u i = None \<longleftrightarrow> states t i = None" for i
    using assms by (simp_all add: woken_def)
  have "(procs u q = procs s q \<and> (\<forall>i. procs s q = Some (Queue_Waiting i) \<longrightarrow> queue_of u i = queue_of s i)) \<or>
    (\<exists>i. procs s q = Some (Queue_Waiting i) \<and> procs u q = Some (Queue_Woken i) \<and>
       (states u i \<noteq> None \<longrightarrow> queue_of u i \<noteq> []))" for q
    using assms(1)
  proof (cases rule: woken_cases [of _ _ q])
    case stays
    from assms(2) show ?thesis
      by (cases rule: woken_cases [of _ _ q]) (use stays in auto)
  next
    case (woken i)
    from assms(2) have "procs u q = Some (Queue_Woken i)"
      by (cases rule: woken_cases [of _ _ q]) (use woken in auto)
    moreover have "queue_of u i \<noteq> []" if "states u i \<noteq> None"
      using woken(3) that live grow(2) [of i] by (auto simp: grows_def)
    ultimately show ?thesis using woken(1) by blast
  qed
  with same grow grows_trans show ?thesis unfolding woken_def by blast
qed

lemma push_woken:
  fixes i :: nat
  shows "steps_in True woken
    (queue_push (strand_timers :: ('w, 'z shared_strand_ext) shared_scheme queue_timers) i r)"
  by (auto simp: steps_in_def queue_push_def assign_run co_return_run strand_timers_def woken_def
      wake_queue_def change_state_def queue_of_def grows_def split: option.split)

lemma for_each_steps:
  assumes "\<And>x. steps_in ex R (f x)" and "\<And>s. R s s" and "\<And>s t u. R s t \<Longrightarrow> R t u \<Longrightarrow> R s u"
  shows "steps_in ex R (for_each xs f)"
  by (induction xs) (auto intro: steps_await steps_return assms)

lemma received_woken: "steps_in True woken (pump_received strand_timers r)"
  unfolding pump_received_def forward_error_def forward_packet_def
  by (auto split: sum.split packet.split option.split
      intro!: steps_reading steps_await [OF _ _ woken_trans] for_each_steps [OF _ woken_refl woken_trans]
        steps_return push_woken)

lemma pump_end_run:
  fixes s :: "('w, 'z) shared_strand_scheme"
  assumes "shared_inv s"
  obtains t where "pushed s t (\<lambda>i. relevant s i r)" and "woken s t"
    and "pump_end again r p s = (if again \<and> \<not> failed (pump_result r) then pump_begin again p t
       else enter (Done (pump_result r)) p t)"
proof -
  obtain t where run: "pump_received strand_timers r s = Some (Ret (pump_result r), t)"
    and "pushed s t (\<lambda>i. relevant s i r)"
    using strand_timers.pump_received_run [OF assms] by blast
  moreover have "woken s t" by (rule steps_inD_any [OF received_woken run])
  ultimately show ?thesis using that by (simp add: pump_end_def)
qed

section \<open>First in, first out\<close>

text \<open>What a step adds to the queue of client \<open>i\<close>, and what it takes from it.\<close>

fun meant :: "nat \<Rightarrow> ('w, 'z) shared_scheme \<times> shared_event \<Rightarrow> recv_result list" where
  "meant i (s, Arrived r) = relevant s i r"
| "meant i (s, _) = []"

fun taken :: "nat \<Rightarrow> shared_event \<Rightarrow> recv_result list" where
  "taken i (Took j r) = (if j = i then [r] else [])"
| "taken i _ = []"

lemma queue_of_simps:
  "queue_of (register_client i s) j = queue_of s j"
  "queue_of (change_state i (sc_topics_update g) s) j = queue_of s j"
  "queue_of (change_state i (sc_queue_update f) s) j =
     (if j = i \<and> states s i \<noteq> None then f (queue_of s i) else queue_of s j)"
  "queue_of (s\<lparr>clients := cs\<rparr>) j = queue_of s j"
  "queue_of (remove_expired_clients s) j = queue_of s j"
  "queue_of (pump_begin again p s') j = queue_of s' j"
  by (auto simp: queue_of_def register_live change_state_def remove_expired_clients_def pump_begin_def
      split: option.split)

lemma live_simps:
  "states (register_client i s) j = states s j"
  "states (remove_expired_clients s) j = states s j"
  "states (pump_begin again p s') j = states s' j"
  "states (s\<lparr>clients := cs\<rparr>) j = states s j"
  by (simp_all add: register_client_def remove_expired_clients_def pump_begin_def)

lemma pump_end_queue:
  assumes "shared_inv s"
  shows "queue_of (pump_end again r p s) i = queue_of s i @ relevant s i r"
    and "states (pump_end again r p s) i = None \<longleftrightarrow> states s i = None"
proof -
  obtain t where t: "pushed s t (\<lambda>i. relevant s i r)"
    and e: "pump_end again r p s = (if again \<and> \<not> failed (pump_result r) then pump_begin again p t
       else enter (Done (pump_result r)) p t)"
    by (rule pump_end_run [OF assms])
  show "queue_of (pump_end again r p s) i = queue_of s i @ relevant s i r"
    using pushed_queue [OF t, of i] relevant_dead [of s i r] by (simp add: e queue_of_simps)
  show "states (pump_end again r p s) i = None \<longleftrightarrow> states s i = None"
    using pushed_live [OF t] by (simp add: e live_simps)
qed

lemma resume_queue:
  assumes "states s i \<noteq> None"
  shows "queue_of s j = taken j (resume_event i s) @ queue_of (recv_resume E i ec p s) j"
    and "states (recv_resume E i ec p s) j = None \<longleftrightarrow> states s j = None"
  using assms by (cases "queue_of s i"; auto simp: resume_event_def resume_empty resume_next queue_of_simps
      change_live)+

lemma begin_queue:
  assumes "states s i \<noteq> None"
  shows "queue_of s j = taken j (begin_event i s) @ queue_of (recv_begin E i p s) j"
    and "states (recv_begin E i p s) j = None \<longleftrightarrow> states s j = None"
  using resume_queue [where s = "register_client i s" and i = i and E = E and ec = default_error and p = p and j = j] assms
  by (auto simp: begin_event_def resume_event_def recv_begin_def Let_def queue_of_simps live_simps)

lemma step_queue:
  assumes "shared_step E solo s e s'" and "shared_inv s" and "\<And>p i. holds_client (procs s p) i \<Longrightarrow> states s i \<noteq> None"
    and "states s i \<noteq> None" and "e \<noteq> Dropped i"
  shows "states s' i \<noteq> None \<and> queue_of s i @ meant i (s, e) = taken i e @ queue_of s' i"
  using assms(1)
proof (cases rule: shared_step.cases)
  case (begin_recv p j)
  then show ?thesis using assms(4) begin_queue [where s = s and i = j and j = i and E = E and p = p]
    by (auto simp: begin_event_def resume_event_def split: list.splits)
next
  case (resume_recv p j ec)
  then have "states s j \<noteq> None" using assms(3) [of p j] by simp
  with resume_recv show ?thesis using assms(4) resume_queue [where s = s and i = j and j = i and E = E and ec = ec and p = p]
    by (auto simp: resume_event_def split: list.splits)
next
  case (end_pump p again r)
  with assms(4) pump_end_queue [OF assms(2), where i = i] show ?thesis by (simp del: not_None_eq)
next
  case (end_subscribe p j ts err)
  with assms(4) show ?thesis
    by (simp add: subscribe_end_run queue_of_simps live_simps change_live del: not_None_eq)
qed (use assms(4,5) in \<open>auto simp: subscribe_end_run detach_run queue_of_simps live_simps change_live
       make_client_def drop_client_def queue_of_def\<close>)

section \<open>The invariant\<close>

text \<open>
  Beside the invariant of the connection: what a coroutine holds is alive, and a coroutine waits only
  for a queue that is empty.
\<close>

definition sched_inv :: "('w, 'z) shared_strand_scheme \<Rightarrow> bool" where
  "sched_inv s \<longleftrightarrow> shared_inv s \<and> (\<forall>p i. holds_client (procs s p) i \<longrightarrow> states s i \<noteq> None) \<and>
     (\<forall>p i. procs s p = Some (Queue_Waiting i) \<longrightarrow> queue_of s i = [])"

lemma procs_simps [simp]:
  "procs (register_client i s) = procs s" "procs (change_state i g s) = procs s"
  "procs (remove_expired_clients s) = procs s" "procs (make_client i s) = procs s"
  "procs (drop_client i s) = procs s"
  by (simp_all add: register_client_def change_state_def remove_expired_clients_def make_client_def
      drop_client_def)

lemma shared_inv_enter [simp]: "shared_inv (enter l p s) = shared_inv s"
  by (simp add: shared_inv_def topics_of_def)

lemma inv_enter:
  assumes "sched_inv s" and "\<And>i. holds_client (Some l) i \<Longrightarrow> states s i \<noteq> None"
    and "\<And>i. l = Queue_Waiting i \<Longrightarrow> queue_of s i = []"
  shows "sched_inv (enter l p s)"
  using assms by (simp add: sched_inv_def)

lemma inv_leave: "sched_inv s \<Longrightarrow> sched_inv (leave p s)"
  by (auto simp: sched_inv_def shared_inv_def)

lemma inv_register: "sched_inv s \<Longrightarrow> states s i \<noteq> None \<Longrightarrow> sched_inv (register_client i s)"
  by (simp add: sched_inv_def register_inv live_simps queue_of_simps)

lemma inv_take: "sched_inv s \<Longrightarrow> sched_inv (change_state i (sc_queue_update tl) s)"
  unfolding sched_inv_def procs_simps change_live by (auto simp: change_inv queue_of_simps)

lemma inv_topics: "sched_inv s \<Longrightarrow> sched_inv (change_state i (sc_topics_update (register_topics ts)) s)"
  unfolding sched_inv_def procs_simps change_live
  by (auto simp: register_topics_distinct queue_of_simps intro!: change_inv)

lemma inv_detach: "sched_inv s \<Longrightarrow> sched_inv (s\<lparr>clients := filter P (clients s)\<rparr>)"
  by (simp add: sched_inv_def shared_inv_def topics_of_def queue_of_def)

lemma inv_expired: "sched_inv s \<Longrightarrow> sched_inv (remove_expired_clients s)"
  by (simp add: sched_inv_def expired_inv queue_of_simps live_simps)

lemma inv_pump_begin: "sched_inv s \<Longrightarrow> sched_inv (pump_begin again p s)"
  unfolding pump_begin_def by (rule inv_enter [OF inv_expired]) simp_all

lemma inv_resume: "sched_inv s \<Longrightarrow> sched_inv (recv_resume E i ec p s)"
  by (cases "queue_of s i") (auto simp: resume_empty resume_next intro!: inv_enter inv_take)

lemma woken_holds: "woken s t \<Longrightarrow> holds_client (procs t q) i = holds_client (procs s q) i"
  by (erule woken_cases [of _ _ q]) auto

lemma inv_pushed:
  assumes "sched_inv s" and "pushed s t n" and "woken s t"
  shows "sched_inv t"
proof -
  have "shared_inv t" using pushed_guar [OF assms(2)] assms(1) by (simp add: guar_def sched_inv_def)
  moreover have "queue_of t i = []" if "procs t q = Some (Queue_Waiting i)" for q i
    using assms(3) by (cases rule: woken_cases [of _ _ q]) (use assms(1) that in \<open>auto simp: sched_inv_def\<close>)
  ultimately show ?thesis
    using assms(1) woken_holds [OF assms(3)] pushed_live [OF assms(2)] by (simp add: sched_inv_def)
qed

lemma inv_pump_end:
  assumes "sched_inv s"
  shows "sched_inv (pump_end again r p s)"
proof -
  have "shared_inv s" using assms by (simp add: sched_inv_def)
  then obtain t where "pushed s t (\<lambda>i. relevant s i r)" and "woken s t"
    and e: "pump_end again r p s = (if again \<and> \<not> failed (pump_result r) then pump_begin again p t
       else enter (Done (pump_result r)) p t)"
    by (rule pump_end_run)
  with assms have "sched_inv t" by (blast intro: inv_pushed)
  then show ?thesis by (auto simp: e intro: inv_pump_begin inv_enter)
qed

lemma shared_step_inv:
  assumes "shared_step E solo s e s'" and "sched_inv s"
  shows "sched_inv s'"
  using assms(1)
proof (cases rule: shared_step.cases)
  case (begin_recv p i)
  have reg: "sched_inv (register_client i s)" using assms(2) begin_recv by (blast intro: inv_register)
  show ?thesis
  proof (cases "queue_of (register_client i s) i = []")
    case True
    have "sched_inv (enter (Queue_Waiting i) p (register_client i s))"
      using True begin_recv(4) by (intro inv_enter [OF reg]) (auto simp: live_simps)
    with True show ?thesis by (simp add: begin_recv(2) recv_begin_def)
  next
    case False
    with inv_resume [OF reg] show ?thesis by (simp add: begin_recv(2) recv_begin_def Let_def)
  qed
next
  case (resume_recv p i ec)
  with assms(2) show ?thesis by (simp add: inv_resume)
next
  case (begin_subscribe p i ts)
  have "sched_inv (enter (Subscribing i ts) p s)"
    by (rule inv_enter [OF assms(2)]) (use begin_subscribe in simp_all)
  with begin_subscribe show ?thesis by simp
next
  case (end_subscribe p i ts err)
  then have "states s i \<noteq> None" using assms(2) unfolding sched_inv_def by (metis holds_client.simps(3))
  then have "sched_inv (register_client i (change_state i (sc_topics_update (register_topics ts)) s))"
    by (intro inv_register inv_topics assms(2)) (simp only: change_live not_False_eq_True)
  with end_subscribe assms(2) show ?thesis by (auto simp: subscribe_end_run intro!: inv_enter)
next
  case (make i)
  then have "\<not> holds_client (procs s p) i" for p using assms(2) unfolding sched_inv_def by blast
  then have "procs s p \<noteq> Some (Queue_Waiting i)" for p by (metis holds_client.simps(1))
  with make assms(2) show ?thesis
    by (auto simp: sched_inv_def make_client_def shared_inv_def topics_of_def queue_of_def empty_state_def)
next
  case (drop i)
  then show ?thesis using assms(2)
    by (auto simp: sched_inv_def drop_client_def shared_inv_def topics_of_def queue_of_def)
next
  case elsewhere
  with assms(2) show ?thesis by (simp add: sched_inv_def shared_inv_def topics_of_def queue_of_def)
qed (use assms(2) in \<open>auto simp: detach_run intro!: inv_enter inv_leave inv_detach inv_pump_begin inv_pump_end\<close>)

lemma shared_trace_inv: "shared_trace E solo s0 tr s \<Longrightarrow> sched_inv s0 \<Longrightarrow> sched_inv s"
  by (induction rule: shared_trace.induct) (blast intro: shared_step_inv)+

text \<open>When receives on a client do not overlap, a coroutine that is woken finds something to take.\<close>

definition solo_inv :: "('w, 'z) shared_strand_scheme \<Rightarrow> bool" where
  "solo_inv s \<longleftrightarrow>
     (\<forall>p q i. popping (procs s p) i \<longrightarrow> popping (procs s q) i \<longrightarrow> p = q) \<and>
     (\<forall>p i. procs s p = Some (Queue_Woken i) \<longrightarrow> queue_of s i \<noteq> [])"

lemma solo_enter:
  assumes "solo_inv s" and "\<And>i. \<not> popping (Some l) i"
  shows "solo_inv (enter l p s)"
proof -
  have "l \<noteq> Queue_Woken i" for i by (metis assms(2) popping.simps(2))
  with assms show ?thesis by (auto simp: solo_inv_def)
qed

lemma solo_leave: "solo_inv s \<Longrightarrow> solo_inv (leave p s)"
  by (auto simp: solo_inv_def)

lemma solo_cong: "solo_inv s \<Longrightarrow> procs t = procs s \<Longrightarrow> (\<And>i. queue_of t i = queue_of s i) \<Longrightarrow> solo_inv t"
  by (simp add: solo_inv_def)

lemma solo_pump_begin: "solo_inv s \<Longrightarrow> solo_inv (pump_begin again p s)"
  unfolding pump_begin_def by (rule solo_enter [OF solo_cong]) (simp_all add: queue_of_simps)

lemma solo_begin:
  assumes "solo_inv s" and "\<forall>q. \<not> popping (procs s q) i"
  shows "solo_inv (recv_begin E i p s)"
proof (cases "queue_of s i = []")
  case True
  with assms show ?thesis
    by (auto simp: recv_begin_def queue_of_simps solo_inv_def split: if_splits)
next
  case False
  then obtain r rs where q: "queue_of (register_client i s) i = r # rs"
    by (auto simp: queue_of_simps neq_Nil_conv)
  have other: "procs s q \<noteq> Some (Queue_Woken i)" for q using assms(2) by (metis popping.simps(2))
  have "solo_inv (change_state i (sc_queue_update tl) (register_client i s))"
    using assms(1) other by (auto simp: solo_inv_def queue_of_simps)
  then show ?thesis
    using False by (simp add: recv_begin_def resume_next [OF q] queue_of_simps solo_enter)
qed

lemma solo_resume:
  assumes "solo_inv s" and "procs s p = Some (Queue_Woken i)"
  shows "solo_inv (recv_resume E i ec p s)"
proof -
  have sole: "q = p" if "procs s q = Some (Queue_Woken i)" for q
    using assms that unfolding solo_inv_def by (metis popping.simps(2))
  obtain r rs where "queue_of s i = r # rs"
    using assms unfolding solo_inv_def by (metis neq_Nil_conv)
  from resume_next [OF this] show ?thesis
    using assms(1) sole by (auto simp: solo_inv_def queue_of_simps split: if_splits)
qed

lemma woken_popping: "woken s t \<Longrightarrow> popping (procs t q) i = popping (procs s q) i"
  by (erule woken_cases [of _ _ q]) auto

lemma solo_woken:
  assumes "solo_inv s" and "sched_inv s" and "woken s t"
  shows "solo_inv t"
proof -
  have "queue_of t i \<noteq> []" if at: "procs t q = Some (Queue_Woken i)" for q i
    using assms(3)
  proof (cases rule: woken_cases [of _ _ q])
    case stays
    then have "queue_of s i \<noteq> []" using assms(1) at by (simp add: solo_inv_def)
    moreover have "grows (queue_of s i) (queue_of t i)" using assms(3) by (simp add: woken_def)
    ultimately show ?thesis by (auto simp: grows_def)
  next
    case (woken j)
    from woken(2) at have j: "j = i" by simp
    have "states s i \<noteq> None" using assms(2) woken(1) unfolding sched_inv_def j
      by (metis holds_client.simps(1))
    then have "states t i \<noteq> None" by (simp only: woken_live [OF assms(3)] not_False_eq_True)
    with woken(3) j show ?thesis by simp
  qed
  with assms(1) show ?thesis by (simp add: solo_inv_def woken_popping [OF assms(3)])
qed

lemma solo_step_inv:
  assumes "shared_step E True s e s'" and "sched_inv s" and "solo_inv s"
  shows "solo_inv s'"
  using assms(1)
proof (cases rule: shared_step.cases)
  case (begin_recv p i)
  with assms(3) show ?thesis by (simp add: solo_begin)
next
  case (resume_recv p i ec)
  with assms(3) show ?thesis by (simp add: solo_resume)
next
  case (end_subscribe p i ts err)
  have "solo_inv (register_client i (change_state i (sc_topics_update (register_topics ts)) s))"
    by (rule solo_cong [OF assms(3)]) (simp_all add: queue_of_simps)
  with end_subscribe assms(3) show ?thesis by (simp add: subscribe_end_run solo_enter)
next
  case (detach p i)
  have "solo_inv (s\<lparr>clients := filter (\<lambda>w. \<not> locks s i w) (clients s)\<rparr>)"
    by (rule solo_cong [OF assms(3)]) (simp_all add: queue_of_simps)
  with detach show ?thesis by (simp add: detach_run solo_enter)
next
  case (begin_pump p again)
  with solo_pump_begin [OF assms(3)] show ?thesis by simp
next
  case (end_pump p again r)
  from assms(2) have "shared_inv s" by (simp add: sched_inv_def)
  then obtain t where "woken s t"
    and t: "pump_end again r p s = (if again \<and> \<not> failed (pump_result r) then pump_begin again p t
       else enter (Done (pump_result r)) p t)"
    by (rule pump_end_run)
  with assms(2,3) have "solo_inv t" by (blast intro: solo_woken)
  with end_pump t show ?thesis by (simp add: solo_pump_begin solo_enter)
next
  case (make i)
  then have "queue_of (make_client i s) j = queue_of s j" for j
    by (simp add: queue_of_def make_client_def empty_state_def)
  then have "solo_inv (make_client i s)" by (intro solo_cong [OF assms(3)]) simp_all
  with make show ?thesis by simp
next
  case (drop i)
  then have "procs s q \<noteq> Some (Queue_Woken i)" for q by (metis holds_client.simps(2))
  with drop assms(3) show ?thesis by (auto simp: solo_inv_def drop_client_def queue_of_def)
next
  case elsewhere
  then show ?thesis by (intro solo_cong [OF assms(3)]) (simp_all add: queue_of_def)
qed (use assms(3) in \<open>auto intro: solo_enter solo_leave\<close>)

section \<open>Runs from a fresh connection\<close>

definition shared_fresh :: "'w \<Rightarrow> client_config \<Rightarrow> 'w shared_strand" where
  "shared_fresh w cfg =
     \<lparr>impl = w, config = cfg, state = Closed, attempt = 0,
      max_attempts = DefaultMaxAutoreconnectAttempts, clients = [], states = Map.empty, procs = Map.empty\<rparr>"

definition shared_reachable :: "ext_codes \<Rightarrow> bool \<Rightarrow> 'w shared_strand \<Rightarrow> bool" where
  "shared_reachable E solo s \<longleftrightarrow> (\<exists>w cfg tr. shared_trace E solo (shared_fresh w cfg) tr s)"

lemma reachable_fresh [intro]: "shared_reachable E solo (shared_fresh w cfg)"
  unfolding shared_reachable_def by (blast intro: trace_Nil)

lemma reachable_step: "shared_reachable E solo s \<Longrightarrow> shared_step E solo s e s' \<Longrightarrow> shared_reachable E solo s'"
  unfolding shared_reachable_def by (blast intro: trace_snoc)

lemma fresh_inv: "sched_inv (shared_fresh w cfg)" "solo_inv (shared_fresh w cfg)"
  by (simp_all add: sched_inv_def solo_inv_def shared_fresh_def shared_inv_def topics_of_def)

lemma reachable_inv: "shared_reachable E solo s \<Longrightarrow> sched_inv s"
  unfolding shared_reachable_def by (elim exE) (rule shared_trace_inv [OF _ fresh_inv(1)])

lemma solo_trace_inv:
  assumes "shared_trace E True s0 tr s" and "sched_inv s0" and "solo_inv s0"
  shows "solo_inv s \<and> (\<forall>i. Missed i \<notin> snd ` set tr)"
  using assms
proof (induction rule: shared_trace.induct)
  case (trace_snoc tr s e s')
  then have inv: "sched_inv s" "solo_inv s" by (blast intro: shared_trace_inv)+
  have "e \<noteq> Missed i" for i
    using trace_snoc.hyps(2) inv(2)
    by (cases rule: shared_step.cases)
      (auto simp: begin_event_def resume_event_def solo_inv_def split: list.splits if_splits)
  then show ?case using trace_snoc solo_step_inv [OF trace_snoc.hyps(2) inv] by auto
qed simp

lemma reachable_solo: "shared_reachable E True s \<Longrightarrow> solo_inv s"
  unfolding shared_reachable_def by (elim exE) (rule conjunct1, rule solo_trace_inv [OF _ fresh_inv])

section \<open>Waiting and waking\<close>

text \<open>A woken coroutine stays so, with the queue of its client unchanged in front, until it runs on.\<close>

lemma woken_moves:
  assumes "shared_step E solo s e s'" and "procs s p = Some (Queue_Woken i)" and "sched_inv s"
  shows "procs s' p = Some (Queue_Woken i) \<or> (\<exists>ec. e = resume_event i s \<and> s' = recv_resume E i ec p s)"
  using assms(1)
proof (cases rule: shared_step.cases)
  case (begin_recv q j)
  with assms(2) have "q \<noteq> p" by auto
  with begin_recv assms(2) show ?thesis
    by (cases "queue_of (register_client j s) j") (auto simp: recv_begin_def resume_next)
next
  case (resume_recv q j ec)
  with assms(2) show ?thesis
    by (cases "q = p"; cases "queue_of s j") (auto simp: resume_next resume_empty)
next
  case (end_pump q again r)
  from assms(3) have "shared_inv s" by (simp add: sched_inv_def)
  then obtain t where "woken s t"
    and t: "pump_end again r q s = (if again \<and> \<not> failed (pump_result r) then pump_begin again q t
       else enter (Done (pump_result r)) q t)"
    by (rule pump_end_run)
  then have "procs t p = Some (Queue_Woken i)" using assms(2) by (cases rule: woken_cases [of _ _ p]) auto
  with end_pump assms(2) t show ?thesis by (auto simp: pump_begin_def)
qed (use assms(2) in \<open>auto simp: subscribe_end_run detach_run pump_begin_def\<close>)

lemma woken_step:
  assumes "shared_step E True s e s'" and "sched_inv s" and "solo_inv s"
    and "procs s p = Some (Queue_Woken i)" and "queue_of s i = r # rs"
  shows "(procs s' p = Some (Queue_Woken i) \<and> (\<exists>rs'. queue_of s' i = r # rs')) \<or>
    (procs s' p = Some (Popped r) \<and> e = Took i r)"
  using woken_moves [OF assms(1,4,2)]
proof (elim disjE exE conjE)
  fix ec assume "e = resume_event i s" and "s' = recv_resume E i ec p s"
  with assms(5) show ?thesis by (simp add: resume_event_def resume_next)
next
  assume at: "procs s' p = Some (Queue_Woken i)"
  have inv: "shared_inv s" "\<And>q j. holds_client (procs s q) j \<Longrightarrow> states s j \<noteq> None"
    using assms(2) unfolding sched_inv_def by blast+
  have "holds_client (procs s p) i" using assms(4) by simp
  then have live: "states s i \<noteq> None" by (rule inv(2))
  from assms(1) have kept: "e \<noteq> Dropped i"
    by (cases rule: shared_step.cases)
      (use \<open>holds_client (procs s p) i\<close> in \<open>auto simp: begin_event_def resume_event_def
         split: list.splits if_splits\<close>)
  from step_queue [OF assms(1) inv live kept] have "queue_of s i @ meant i (s, e) = taken i e @ queue_of s' i" ..
  moreover have "taken i e = []"
    using assms(1)
  proof (cases rule: shared_step.cases)
    case (begin_recv q j)
    then have "j \<noteq> i" using assms(4) by (metis popping.simps(2))
    with begin_recv show ?thesis by (auto simp: begin_event_def resume_event_def split: list.split)
  next
    case (resume_recv q j ec)
    have "j \<noteq> i"
    proof
      assume "j = i"
      with resume_recv(3) assms(3,4) have "q = p" unfolding solo_inv_def by (metis popping.simps(2))
      with resume_recv at show False by (cases "queue_of s j") (auto simp: resume_next resume_empty)
    qed
    with resume_recv show ?thesis by (auto simp: resume_event_def split: list.split)
  qed simp_all
  ultimately have "queue_of s' i = r # (rs @ meant i (s, e))" using assms(5) by simp
  with at show ?thesis by blast
qed

lemma waiting_woken:
  assumes "sched_inv s" and "procs s p = Some (Queue_Waiting i)" and "procs s q = Some (Pumping again)"
    and "relevant s i r \<noteq> []"
  shows "procs (pump_end again r q s) p = Some (Queue_Woken i) \<and> queue_of (pump_end again r q s) i = [r]"
proof -
  have "q \<noteq> p" using assms(2,3) by auto
  have inv: "shared_inv s" and empty: "queue_of s i = []" using assms(1,2) by (simp_all add: sched_inv_def)
  obtain t where pushed: "pushed s t (\<lambda>i. relevant s i r)" and "woken s t"
    and t: "pump_end again r q s = (if again \<and> \<not> failed (pump_result r) then pump_begin again q t
       else enter (Done (pump_result r)) q t)"
    by (rule pump_end_run [OF inv])
  have "relevant s i r = [r]" using assms(4) by (auto simp: relevant_def split: sum.splits packet.splits if_splits)
  with pump_end_queue(1) [OF inv, of again r q i] empty
  have queue: "queue_of (pump_end again r q s) i = [r]" by simp
  then have "queue_of t i \<noteq> queue_of s i" by (auto simp: t queue_of_simps empty split: if_splits)
  with \<open>woken s t\<close> assms(2) have "procs t p = Some (Queue_Woken i)" by (cases rule: woken_cases [of _ _ p]) auto
  with \<open>q \<noteq> p\<close> queue show ?thesis by (simp add: t pump_begin_def)
qed

end
