(* ===== verification/Shared_Runs.thy ===== *)
theory Shared_Runs
  imports Shared_Sched
begin

text \<open>
  Properties of the interleavings of a shared connection: the queues are first in, first out, what
  the pump forwards arrives, and a client that is closed while a receive waits on it strands the
  receive. One example run serves the witnesses.
\<close>

section \<open>An example run\<close>

text \<open>
  Client 4 subscribes to the topic \<open>a\<close>, coroutine 2 is the run loop, coroutine 3 receives and waits; a
  packet comes in and 3 gets it.
\<close>

definition demo_subscribed :: "sim shared_strand" where
  "demo_subscribed = subscribe_end 4 [sub ''a''] (make_error_code Success) 1
     (enter (Subscribing 4 [sub ''a'']) 1 (make_client 4 (shared_fresh idle_sim default_config)))"

definition demo_waiting :: "ext_codes \<Rightarrow> sim shared_strand" where
  "demo_waiting E = recv_begin E 4 3 (pump_begin True 2 demo_subscribed)"

definition demo_woken :: "ext_codes \<Rightarrow> sim shared_strand" where
  "demo_woken E = pump_end True (Inr (Publish a_packet)) 2 (demo_waiting E)"

definition operation_aborted :: error_code where
  "operation_aborted = Error_Code 125 System_Category"

definition demo_served :: "ext_codes \<Rightarrow> sim shared_strand" where
  "demo_served E = recv_resume E 4 operation_aborted 3 (demo_woken E)"

lemma demo_subscribed_simps [simp]:
  "clients demo_subscribed = [4]" "states demo_subscribed = [4 \<mapsto> \<lparr>sc_queue = [], sc_topics = [sub ''a'']\<rparr>]"
  "procs demo_subscribed = [1 \<mapsto> Done (make_error_code Success)]"
  by (simp_all add: demo_subscribed_def subscribe_end_run failed_def make_error_code_def shared_fresh_def
      make_client_def empty_state_def change_state_def register_client_def registered_def
      register_topics_def)

lemma demo_waiting_simps [simp]:
  "clients (demo_waiting E) = [4]" "states (demo_waiting E) = states demo_subscribed"
  "procs (demo_waiting E) =
     [1 \<mapsto> Done (make_error_code Success), 2 \<mapsto> Pumping True, 3 \<mapsto> Queue_Waiting 4]"
  by (simp_all add: demo_waiting_def recv_begin_def pump_begin_def remove_expired_clients_def
      register_client_def registered_def locks_def queue_of_def)

lemma demo_relevant: "relevant (demo_waiting E) 4 (Inr (Publish a_packet)) = [Inr (Publish a_packet)]"
  by (simp add: relevant_def topics_of_def sub_def a_packet_def)

lemma demo_reachable: "shared_reachable E True demo_subscribed"
  unfolding demo_subscribed_def
  by (intro reachable_step [OF _ shared_step.end_subscribe]
      reachable_step [OF _ shared_step.begin_subscribe] reachable_step [OF _ shared_step.make] reachable_fresh)
    (simp_all add: shared_fresh_def make_client_def)

lemma demo_pumping: "shared_step E True demo_subscribed Silent (pump_begin True 2 demo_subscribed)"
  by (rule shared_step.begin_pump) simp

lemma demo_receiving: "shared_step E True (pump_begin True 2 demo_subscribed) Silent (demo_waiting E)"
proof -
  have "begin_event 4 (pump_begin True 2 demo_subscribed) = Silent"
    by (simp add: begin_event_def queue_of_simps) (simp add: queue_of_def)
  moreover have "\<not> popping (procs (pump_begin True 2 demo_subscribed) q) 4" for q
    by (simp add: pump_begin_def)
  ultimately show ?thesis
    using shared_step.begin_recv [where s = "pump_begin True 2 demo_subscribed" and p = 3 and i = 4 and E = E
        and solo = True]
    by (simp add: demo_waiting_def pump_begin_def live_simps)
qed

lemma demo_waiting_reachable: "shared_reachable E True (demo_waiting E)"
  by (rule reachable_step [OF reachable_step [OF demo_reachable demo_pumping] demo_receiving])

lemma demo_arrival:
  "shared_step E True (demo_waiting E) (Arrived (Inr (Publish a_packet))) (demo_woken E)"
  unfolding demo_woken_def by (rule shared_step.end_pump) simp

lemma demo_woken_simps [simp]:
  "procs (demo_woken E) 3 = Some (Queue_Woken 4)" "queue_of (demo_woken E) 4 = [Inr (Publish a_packet)]"
proof -
  have "procs (pump_end True (Inr (Publish a_packet)) 2 (demo_waiting E)) 3 = Some (Queue_Woken 4) \<and>
      queue_of (pump_end True (Inr (Publish a_packet)) 2 (demo_waiting E)) 4 = [Inr (Publish a_packet)]"
    using waiting_woken [OF reachable_inv [OF demo_waiting_reachable], where p = 3 and q = 2 and i = 4
        and r = "Inr (Publish a_packet)" and again = True] by (simp add: demo_relevant)
  then show "procs (demo_woken E) 3 = Some (Queue_Woken 4)"
    "queue_of (demo_woken E) 4 = [Inr (Publish a_packet)]" by (simp_all add: demo_woken_def)
qed

lemma demo_woken_live [simp]: "\<exists>y. states (demo_woken E) 4 = Some y"
  using demo_woken_simps(2) [of E] by (cases "states (demo_woken E) 4") (simp_all add: queue_of_def)

lemma demo_resume: "shared_step E True (demo_woken E) (Took 4 (Inr (Publish a_packet))) (demo_served E)"
  using shared_step.resume_recv [of "demo_woken E" 3 4 E True operation_aborted]
  by (simp add: demo_served_def resume_event_def)

definition demo_trace :: "ext_codes \<Rightarrow> (sim shared_strand \<times> shared_event) list" where
  "demo_trace E =
     [(demo_subscribed, Silent), (pump_begin True 2 demo_subscribed, Silent),
      (demo_waiting E, Arrived (Inr (Publish a_packet))), (demo_woken E, Took 4 (Inr (Publish a_packet)))]"

lemma demo_trace_run: "shared_trace E True demo_subscribed (demo_trace E) (demo_served E)"
  using trace_snoc [OF trace_snoc [OF trace_snoc [OF trace_snoc [OF trace_Nil demo_pumping]
          demo_receiving] demo_arrival] demo_resume] by (simp add: demo_trace_def)

section \<open>Properties\<close>

text \<open>
  C9: In any interleaving of receives, subscriptions, pumps and clients that come and go, the queue
  of a client is first in, first out and loses nothing: what the pump received for the client is what
  receives have taken from its queue, in this order, followed by what is still queued; a coroutine
  that waits has missed nothing.
\<close>

theorem queues_are_fifo:
  assumes "shared_reachable E solo s0" and "shared_trace E solo s0 tr s" and "states s0 i \<noteq> None"
    and "Dropped i \<notin> snd ` set tr"
  shows "queue_of s0 i @ concat (map (meant i) tr) = concat (map (taken i) (map snd tr)) @ queue_of s i \<and>
    (procs s p = Some (Queue_Waiting i) \<longrightarrow> queue_of s i = [])"
proof -
  note inv0 = reachable_inv [OF assms(1)]
  have "states s i \<noteq> None \<and>
    queue_of s0 i @ concat (map (meant i) tr) = concat (map (taken i) (map snd tr)) @ queue_of s i"
    using assms(2,4)
  proof (induction rule: shared_trace.induct)
    case trace_Nil
    with assms(3) show ?case by simp
  next
    case (trace_snoc tr s e s')
    from shared_trace_inv [OF trace_snoc.hyps(1) inv0]
    have inv: "shared_inv s" "holds_client (procs s p) j \<Longrightarrow> states s j \<noteq> None" for p j
      unfolding sched_inv_def by blast+
    from trace_snoc have IH: "states s i \<noteq> None"
      "queue_of s0 i @ concat (map (meant i) tr) = concat (map (taken i) (map snd tr)) @ queue_of s i"
      by auto
    have "e \<noteq> Dropped i" using trace_snoc.prems by auto
    from step_queue [OF trace_snoc.hyps(2) inv IH(1) this] IH(2)
    show ?case by (simp flip: append_assoc) (simp)
  qed
  moreover have "procs s p = Some (Queue_Waiting i) \<longrightarrow> queue_of s i = []"
    using shared_trace_inv [OF assms(2) inv0] by (simp add: sched_inv_def)
  ultimately show ?thesis by blast
qed

theorem queues_are_fifo_witness:
  "shared_trace sim_codes True demo_subscribed (demo_trace sim_codes) (demo_served sim_codes) \<and>
   concat (map (meant 4) (demo_trace sim_codes)) = [Inr (Publish a_packet)] \<and>
   queue_of (demo_served sim_codes) 4 = []"
proof -
  have q0: "queue_of demo_subscribed 4 = []" and q: "queue_of (demo_served sim_codes) 4 = []"
    by (simp_all add: queue_of_def [of demo_subscribed] demo_served_def resume_next [OF demo_woken_simps(2)]
        queue_of_simps)
  have "states demo_subscribed 4 \<noteq> None" "Dropped 4 \<notin> snd ` set (demo_trace sim_codes)"
    by (simp_all add: demo_trace_def)
  from queues_are_fifo [OF demo_reachable demo_trace_run this] q0 q
  have "concat (map (meant 4) (demo_trace sim_codes)) = concat (map (taken 4) (map snd (demo_trace sim_codes)))"
    by simp
  also have "\<dots> = [Inr (Publish a_packet)]" by (simp add: demo_trace_def)
  finally show ?thesis using demo_trace_run q by blast
qed

text \<open>
  C10: In a run in which receives on a client do not overlap and every coroutine whose wait has been
  cancelled is resumed at some time, a receive that waits when the pump gets a result for its client
  returns this result, whatever all other coroutines do meanwhile.
\<close>

theorem forwarded_result_arrives:
  assumes "shared_reachable E True (run 0)" and "\<forall>n. shared_step E True (run n) (ev n) (run (Suc n))"
    and "\<forall>n. procs (run n) p = Some (Queue_Woken i) \<longrightarrow> (\<exists>m\<ge>n. procs (run m) p \<noteq> Some (Queue_Woken i))"
    and "procs (run k) p = Some (Queue_Waiting i)" and "ev k = Arrived r" and "relevant (run k) i r \<noteq> []"
  shows "\<exists>m>k. ev m = Took i r \<and> procs (run (Suc m)) p = Some (Popped r)"
proof -
  have "shared_reachable E True (run n)" for n
    by (induction n) (use assms(1,2) reachable_step in blast)+
  then have inv: "sched_inv (run n)" "solo_inv (run n)" for n
    using reachable_inv reachable_solo by blast+
  let ?at = "\<lambda>n. procs (run n) p = Some (Queue_Woken i) \<and> (\<exists>rs. queue_of (run n) i = r # rs)"
  from assms(2) have "shared_step E True (run k) (Arrived r) (run (Suc k))" using assms(5) by metis
  then have start: "?at (Suc k)"
    using waiting_woken [OF inv(1) assms(4) _ assms(6)]
    by (cases rule: shared_step.cases) (auto simp: begin_event_def resume_event_def split: if_splits list.splits)
  have step: "?at (Suc n) \<or> (ev n = Took i r \<and> procs (run (Suc n)) p = Some (Popped r))" if "?at n" for n
    using woken_step [OF assms(2) [rule_format] inv] that by blast
  show ?thesis
  proof (rule ccontr)
    assume never: "\<not> ?thesis"
    have "?at (Suc (k + n))" for n
    proof (induction n)
      case (Suc n)
      from step [OF Suc] never show ?case by auto
    qed (use start in simp)
    then have "procs (run m) p = Some (Queue_Woken i)" if "m \<ge> Suc k" for m
      using that by (metis add_Suc nat_le_iff_add)
    with assms(3) show False by blast
  qed
qed

definition demo_run :: "nat \<Rightarrow> sim shared_strand" where
  "demo_run n = (if n = 0 then demo_waiting sim_codes else if n = 1 then demo_woken sim_codes
     else demo_served sim_codes)"

definition demo_event :: "nat \<Rightarrow> shared_event" where
  "demo_event n = (if n = 0 then Arrived (Inr (Publish a_packet))
     else if n = 1 then Took 4 (Inr (Publish a_packet)) else Silent)"

theorem forwarded_result_arrives_witness:
  "(\<forall>n. shared_step sim_codes True (demo_run n) (demo_event n) (demo_run (Suc n))) \<and>
   (\<exists>m>0. demo_event m = Took 4 (Inr (Publish a_packet)) \<and>
      procs (demo_run (Suc m)) 3 = Some (Popped (Inr (Publish a_packet))))"
proof -
  have steps: "\<forall>n. shared_step sim_codes True (demo_run n) (demo_event n) (demo_run (Suc n))"
    using demo_arrival demo_resume by (auto simp: demo_run_def demo_event_def intro: shared_step.elsewhere)
  have served: "procs (demo_served sim_codes) 3 \<noteq> Some (Queue_Woken 4)"
    by (simp add: demo_served_def resume_next [OF demo_woken_simps(2)])
  have fair: "\<forall>n. procs (demo_run n) 3 = Some (Queue_Woken 4) \<longrightarrow>
      (\<exists>m\<ge>n. procs (demo_run m) 3 \<noteq> Some (Queue_Woken 4))"
  proof (intro allI impI)
    fix n show "\<exists>m\<ge>n. procs (demo_run m) 3 \<noteq> Some (Queue_Woken 4)"
      using served by (intro exI [of _ "n + 2"]) (simp add: demo_run_def)
  qed
  from forwarded_result_arrives [OF _ steps fair, of 0 "Inr (Publish a_packet)"] steps demo_relevant
  show ?thesis by (simp add: demo_run_def demo_event_def demo_waiting_reachable)
qed

section \<open>Closing a client that receives\<close>

text \<open>An interleaving in which receives on a client do not overlap is one of those in which they may.\<close>

lemma weaker_step: "shared_step E True s e s' \<Longrightarrow> shared_step E False s e s'"
  by (erule shared_step.cases) (auto intro: shared_step.intros)

lemma weaker_trace: "shared_trace E True s0 tr s \<Longrightarrow> shared_trace E False s0 tr s"
  by (induction rule: shared_trace.induct) (auto intro: shared_trace.intros weaker_step)

text \<open>Client \<open>i\<close> is off the list with no subscription of it under way, and \<open>p\<close> waits on its queue.\<close>

definition stranded :: "nat \<Rightarrow> nat \<Rightarrow> ('w, 'z) shared_strand_scheme \<Rightarrow> bool" where
  "stranded i p s \<longleftrightarrow> procs s p = Some (Queue_Waiting i) \<and> i \<notin> set (clients s) \<and>
     (\<forall>q ts. procs s q \<noteq> Some (Subscribing i ts))"

lemma register_clients_other:
  assumes "j \<noteq> i"
  shows "i \<in> set (clients (register_client j s)) \<longleftrightarrow> i \<in> set (clients s)"
  using assms by (simp add: register_client_def)

lemma resume_procs:
  "procs (recv_resume E j ec q s) = (procs s)(q \<mapsto> Popped (case queue_of s j of r # _ \<Rightarrow> r
     | [] \<Rightarrow> Inl (if failed ec then map_err E ec else make_error_code InternalError)))"
  "clients (recv_resume E j ec q s) = clients s"
  by (cases "queue_of s j"; simp add: resume_empty resume_next change_state_def)+

lemma stranded_step:
  assumes "shared_step E solo s e s'" and "sched_inv s" and "stranded i p s"
    and "\<forall>q ts. procs s' q \<noteq> Some (Subscribing i ts)" and alone: "solo \<or> (\<forall>q. q \<noteq> p \<longrightarrow> \<not> popping (procs s' q) i)"
  shows "stranded i p s'"
proof -
  have here: "procs s p = Some (Queue_Waiting i)" "i \<notin> set (clients s)"
    "\<And>q ts. procs s q \<noteq> Some (Subscribing i ts)" using assms(3) by (simp_all add: stranded_def)
  have "procs s' p = Some (Queue_Waiting i) \<and> i \<notin> set (clients s')"
    using assms(1)
  proof (cases rule: shared_step.cases)
    case (begin_recv q j)
    with here(1) have "q \<noteq> p" by auto
    have "j \<noteq> i"
    proof
      assume "j = i"
      have "queue_of s i = []" using assms(2) here(1) by (simp add: sched_inv_def)
      then have "popping (procs s' q) i" using begin_recv \<open>j = i\<close> by (simp add: recv_begin_def queue_of_simps)
      moreover have "popping (procs s p) i" using here(1) by simp
      ultimately show False using alone begin_recv(5) \<open>j = i\<close> \<open>q \<noteq> p\<close> by blast
    qed
    with begin_recv here(1,2) show ?thesis
      by (auto simp: recv_begin_def Let_def resume_procs register_clients_other)
  next
    case (resume_recv q j ec)
    with here(1,2) show ?thesis by (auto simp: resume_procs)
  next
    case (end_subscribe q j ts err)
    with here have "q \<noteq> p" "j \<noteq> i" by auto
    with end_subscribe here(1,2) show ?thesis
      by (auto simp: subscribe_end_run register_clients_other change_state_def)
  next
    case (end_pump q again r)
    with here(1) have "q \<noteq> p" by auto
    from assms(2) have "shared_inv s" by (simp add: sched_inv_def)
    then obtain t where pushed: "pushed s t (\<lambda>i. relevant s i r)" and "woken s t"
      and t: "pump_end again r q s = (if again \<and> \<not> failed (pump_result r) then pump_begin again q t
         else enter (Done (pump_result r)) q t)"
      by (rule pump_end_run)
    have rel: "relevant s i r = []" using here(2) by (simp add: relevant_def)
    from \<open>woken s t\<close> have "procs t p = Some (Queue_Waiting i)"
    proof (cases rule: woken_cases [of _ _ p])
      case (woken j)
      with here(1) have "j = i" by simp
      moreover have "queue_of t i = []"
        using pushed_queue [OF pushed, of i] rel assms(2) here(1) by (simp add: sched_inv_def)
      moreover have "states s i \<noteq> None" using assms(2) here(1) unfolding sched_inv_def
        by (metis holds_client.simps(1))
      then have "states t i \<noteq> None" by (simp only: woken_live [OF \<open>woken s t\<close>] not_False_eq_True)
      ultimately show ?thesis using woken(3) by simp
    qed (use here(1) in simp)
    moreover have "clients t = clients s" using pushed by (simp add: pushed_def)
    ultimately show ?thesis using end_pump t here(2) \<open>q \<noteq> p\<close>
      by (auto simp: pump_begin_def remove_expired_clients_def)
  next
    case (make j)
    with here show ?thesis by (simp add: make_client_def)
  next
    case (drop j)
    with here show ?thesis by (simp add: drop_client_def)
  qed (use here in \<open>auto simp: detach_run pump_begin_def remove_expired_clients_def\<close>)
  with assms(4) show ?thesis by (simp add: stranded_def)
qed

text \<open>
  C18: When a shared client is closed while a receive waits on it, the receive does not return, whatever
  the pump gets and whatever all other coroutines do, as long as nobody subscribes with the client and no
  other receive on it begins, the two calls that put a client on the list of the pump again: \<open>async_detach\<close>
  takes the client off this list and leaves the timer of its queue alone. With \<open>solo\<close>, that is when receives
  on a client do not overlap, as those of an entity, the second condition holds anyway.
\<close>

theorem close_strands_receive:
  assumes "shared_reachable E solo s" and "procs s p = Some (Queue_Waiting i)"
    and "procs s q = None" and "\<forall>q ts. procs s q \<noteq> Some (Subscribing i ts)"
    and "shared_trace E solo (detach_piece i q s) tr t"
    and "\<forall>(u, e) \<in> set tr. \<forall>q ts. procs u q \<noteq> Some (Subscribing i ts)"
    and "solo \<or> (\<forall>(u, e) \<in> set tr. \<forall>q. q \<noteq> p \<longrightarrow> \<not> popping (procs u q) i)"
  shows "shared_step E solo s Silent (detach_piece i q s) \<and>
    procs (detach_piece i q s) q = Some (Done default_error) \<and>
    (\<forall>(u, e) \<in> set tr. procs u p = Some (Queue_Waiting i))"
proof -
  note inv = reachable_inv [OF assms(1)]
  have live: "states s i \<noteq> None" using inv assms(2) unfolding sched_inv_def by (metis holds_client.simps(1))
  have step: "shared_step E solo s Silent (detach_piece i q s)"
    by (rule shared_step.detach [OF assms(3) live])
  have "i \<notin> set (clients (detach_piece i q s))" using live by (simp add: detach_run locks_def)
  with assms(2-4) have start: "stranded i p (detach_piece i q s)" by (auto simp: stranded_def detach_run)
  note inv1 = shared_step_inv [OF step inv]
  let ?quiet = "\<lambda>u. (\<forall>q ts. procs u q \<noteq> Some (Subscribing i ts)) \<and> (solo \<or> (\<forall>q. q \<noteq> p \<longrightarrow> \<not> popping (procs u q) i))"
  have "\<forall>(u, e) \<in> set tr. ?quiet u" using assms(6,7) by auto
  with assms(5) have "(\<forall>(u, e) \<in> set tr. stranded i p u) \<and> (?quiet t \<longrightarrow> stranded i p t)"
  proof (induction rule: shared_trace.induct)
    case trace_Nil
    with start show ?case by simp
  next
    case (trace_snoc tr u e u')
    then have here: "stranded i p u" by auto
    have "sched_inv u" by (rule shared_trace_inv [OF trace_snoc.hyps(1) inv1])
    from stranded_step [OF trace_snoc.hyps(2) this here] trace_snoc here show ?case by auto
  qed
  with step assms(3) show ?thesis by (auto simp: detach_run stranded_def)
qed

definition demo_closed :: "ext_codes \<Rightarrow> sim shared_strand" where
  "demo_closed E = detach_piece 4 5 (demo_waiting E)"

theorem close_strands_receive_witness:
  "shared_trace sim_codes False (demo_closed sim_codes)
     [(demo_closed sim_codes, Arrived (Inr (Publish a_packet))),
      (pump_end True (Inr (Publish a_packet)) 2 (demo_closed sim_codes), Silent)]
     (pump_end True (Inr (Publish a_packet)) 2 (demo_closed sim_codes)) \<and>
   procs (pump_end True (Inr (Publish a_packet)) 2 (demo_closed sim_codes)) 3 = Some (Queue_Waiting 4)"
proof -
  let ?s = "demo_closed sim_codes" and ?r = "Inr (Publish a_packet)"
  let ?t = "pump_end True ?r 2 ?s"
  let ?tr = "[(?s, Arrived ?r), (?t, Silent)]"
  have arrival: "shared_step sim_codes False ?s (Arrived ?r) ?t"
    by (rule shared_step.end_pump) (simp add: demo_closed_def detach_run)
  have idle: "shared_step sim_codes False ?t Silent ?t" by (rule shared_step.elsewhere) simp_all
  have run: "shared_trace sim_codes False ?s ?tr ?t"
    using trace_snoc [OF trace_snoc [OF trace_Nil arrival] idle] by simp
  have "shared_step sim_codes True (demo_waiting sim_codes) Silent ?s"
    unfolding demo_closed_def by (rule shared_step.detach) simp_all
  then have s: "sched_inv ?s" using reachable_inv [OF demo_waiting_reachable] by (rule shared_step_inv)
  have none: "\<forall>q ts. procs ?s q \<noteq> Some (Subscribing 4 ts)" by (simp add: demo_closed_def detach_run)
  have lone: "\<forall>q. q \<noteq> 3 \<longrightarrow> \<not> popping (procs ?s q) 4" by (simp add: demo_closed_def detach_run)
  have "shared_inv ?s" using s by (simp add: sched_inv_def)
  then obtain u where "woken ?s u" and u: "?t = (if True \<and> \<not> failed (pump_result ?r) then pump_begin True 2 u
       else enter (Done (pump_result ?r)) 2 u)"
    by (rule pump_end_run)
  have "procs u q \<noteq> Some (Subscribing 4 ts)" "q \<noteq> 3 \<longrightarrow> \<not> popping (procs u q) 4" for q ts
    using \<open>woken ?s u\<close> by (cases rule: woken_cases [of _ _ q]; use none lone in auto)+
  then have "\<forall>q ts. procs ?t q \<noteq> Some (Subscribing 4 ts)" "\<forall>q. q \<noteq> 3 \<longrightarrow> \<not> popping (procs ?t q) 4"
    by (simp_all add: u pump_begin_def)
  moreover have "shared_reachable sim_codes False (demo_waiting sim_codes)"
    using demo_waiting_reachable weaker_trace unfolding shared_reachable_def by blast
  ultimately show ?thesis
    using none lone close_strands_receive [OF _ _ _ _ run [unfolded demo_closed_def], of 3] run
    by (simp add: demo_closed_def)
qed

end
