(* ===== verification/Shared_Limits.thy ===== *)
theory Shared_Limits
  imports Shared_Runs
begin

text \<open>
  What a shared connection does not do: a receive that waits is never ended by anything but a result
  for its client, and of two receives that wait on one client the second ends with an error nobody sent.
\<close>

lemma resume_popped: "\<exists>r. procs (recv_resume E i ec q s) = (procs s)(q \<mapsto> Popped r)"
  by (rule exI) (rule resume_procs(1))

lemma waiting_ends:
  assumes "shared_step E solo s e s'" and "sched_inv s" and at: "procs s p = Some (Queue_Waiting i)"
    and left: "procs s' p \<noteq> Some (Queue_Waiting i)"
  shows "\<exists>r. e = Arrived r \<and> relevant s i r \<noteq> []"
  using assms(1)
proof (cases rule: shared_step.cases)
  case (begin_recv q j)
  then have "procs s' p = procs s p"
    using at by (auto simp: recv_begin_def Let_def resume_procs)
  with at left show ?thesis by simp
next
  case (resume_recv q j ec)
  with at left resume_popped [of E j ec q s] show ?thesis by (auto split: if_splits)
next
  case (end_pump q again r)
  from assms(2) have "shared_inv s" by (simp add: sched_inv_def)
  then obtain t where pushed: "pushed s t (\<lambda>i. relevant s i r)" and "woken s t"
    and t: "pump_end again r q s = (if again \<and> \<not> failed (pump_result r) then pump_begin again q t
       else enter (Done (pump_result r)) q t)"
    by (rule pump_end_run)
  have "q \<noteq> p" using end_pump(3) at by auto
  with end_pump t left have gone: "procs t p \<noteq> Some (Queue_Waiting i)" by (auto simp: pump_begin_def split: if_splits)
  have live: "states s i \<noteq> None" using assms(2) at unfolding sched_inv_def by (metis holds_client.simps(1))
  from \<open>woken s t\<close> have "queue_of t i \<noteq> []"
  proof (cases rule: woken_cases [of _ _ p])
    case (woken j)
    with at live show ?thesis by (simp add: woken_live [OF \<open>woken s t\<close>] del: not_None_eq)
  qed (use at gone in simp)
  moreover have "queue_of s i = []" using assms(2) at by (simp add: sched_inv_def)
  ultimately have "relevant s i r \<noteq> []" using pushed_queue [OF pushed, of i] live by auto
  with end_pump show ?thesis by blast
qed (use at left in \<open>auto simp: subscribe_end_run detach_run pump_begin_def split: if_splits\<close>)

section \<open>Properties\<close>

text \<open>
  C20: In any interleaving a receive that waits on a client goes on only after the pump has received a
  result for this client: neither closing the client, nor the end of the pump's run loop, nor what the
  pump gets for others ends the wait.
\<close>

theorem waits_end_by_delivery:
  assumes "shared_reachable E solo s0" and "shared_trace E solo s0 tr s"
    and "procs s0 p = Some (Queue_Waiting i)" and "procs s p \<noteq> Some (Queue_Waiting i)"
  shows "\<exists>(u, e) \<in> set tr. \<exists>r. e = Arrived r \<and> relevant u i r \<noteq> []"
  using assms(2,4)
proof (induction rule: shared_trace.induct)
  case trace_Nil
  with assms(3) show ?case by simp
next
  case (trace_snoc tr u e u')
  show ?case
  proof (cases "procs u p = Some (Queue_Waiting i)")
    case True
    have "sched_inv u" by (rule shared_trace_inv [OF trace_snoc.hyps(1) reachable_inv [OF assms(1)]])
    from waiting_ends [OF trace_snoc.hyps(2) this True trace_snoc.prems] show ?thesis by auto
  next
    case False
    with trace_snoc.IH show ?thesis by auto
  qed
qed

theorem waits_end_by_delivery_witness:
  "\<exists>(u, e) \<in> set [(demo_waiting sim_codes, Arrived (Inr (Publish a_packet)))].
     \<exists>r. e = Arrived r \<and> relevant u 4 r \<noteq> []"
proof -
  have run: "shared_trace sim_codes True (demo_waiting sim_codes)
      [(demo_waiting sim_codes, Arrived (Inr (Publish a_packet)))] (demo_woken sim_codes)"
    using trace_snoc [OF trace_Nil demo_arrival] by simp
  show ?thesis
    by (rule waits_end_by_delivery [OF demo_waiting_reachable run, of 3]) simp_all
qed

text \<open>
  C19: When two receives wait on the same shared client and the pump gets one result for it, both are
  woken; the one that goes on first returns the result, the other one fails with an error that the
  connection has not received. It is never a session reset, so an entity would stop on it.
\<close>

theorem overlapping_receives_fail:
  assumes "shared_reachable E False s" and "procs s p = Some (Queue_Waiting i)"
    and "procs s q = Some (Queue_Waiting i)" and "p \<noteq> q" and "procs s x = Some (Pumping again)"
    and "relevant s i r \<noteq> []"
    and s1: "s1 = pump_end again r x s" and s2: "s2 = recv_resume E i ec1 p s1" and s3: "s3 = recv_resume E i ec2 q s2"
  shows "shared_step E False s (Arrived r) s1 \<and> shared_step E False s1 (Took i r) s2 \<and>
    shared_step E False s2 (Missed i) s3 \<and> procs s3 p = Some (Popped r) \<and>
    (\<exists>e. procs s3 q = Some (Popped (Inl e)) \<and> failed e \<and> e \<noteq> make_error_code SessionReset)"
proof -
  have inv: "sched_inv s" by (rule reachable_inv [OF assms(1)])
  note woken = waiting_woken [OF inv _ assms(5,6), folded s1]
  have at: "procs s1 p = Some (Queue_Woken i)" "procs s1 q = Some (Queue_Woken i)" and queue: "queue_of s1 i = [r]"
    using woken [OF assms(2)] woken [OF assms(3)] by simp_all
  have arrive: "shared_step E False s (Arrived r) s1" unfolding s1 by (rule shared_step.end_pump [OF assms(5)])
  have take: "shared_step E False s1 (Took i r) s2"
    using shared_step.resume_recv [OF at(1), of E False ec1] by (simp add: s2 resume_event_def queue)
  have live: "states s1 i \<noteq> None"
    using shared_step_inv [OF arrive inv] at(1) unfolding sched_inv_def by (metis holds_client.simps(2))
  have s2': "s2 = enter (Popped r) p (change_state i (sc_queue_update tl) s1)" unfolding s2 by (rule resume_next [OF queue])
  then have at2: "procs s2 q = Some (Queue_Woken i)" and empty: "queue_of s2 i = []"
    using assms(4) at(2) live by (simp_all add: queue_of_simps queue)
  have miss: "shared_step E False s2 (Missed i) s3"
    using shared_step.resume_recv [OF at2, of E False ec2] by (simp add: s3 resume_event_def empty)
  have "s3 = enter (Popped (Inl (if failed ec2 then map_err E ec2 else make_error_code InternalError))) q s2"
    unfolding s3 by (rule resume_empty [OF empty])
  then have "procs s3 p = Some (Popped r)"
    and "procs s3 q = Some (Popped (Inl (if failed ec2 then map_err E ec2 else make_error_code InternalError)))"
    using assms(4) by (simp_all add: s2')
  with arrive take miss show ?thesis by simp
qed

text \<open>Coroutine 5 receives on client 4 beside coroutine 3.\<close>

definition demo_both :: "ext_codes \<Rightarrow> sim shared_strand" where
  "demo_both E = recv_begin E 4 5 (demo_waiting E)"

lemma demo_both_at:
  "procs (demo_both E) = [1 \<mapsto> Done (make_error_code Success), 2 \<mapsto> Pumping True, 3 \<mapsto> Queue_Waiting 4, 5 \<mapsto> Queue_Waiting 4]"
  "clients (demo_both E) = [4]" "states (demo_both E) = states demo_subscribed"
  by (simp_all add: demo_both_def recv_begin_def register_client_def registered_def locks_def queue_of_def)

lemma demo_both_reachable: "shared_reachable E False (demo_both E)"
proof -
  have "shared_reachable E False (demo_waiting E)"
    using demo_waiting_reachable weaker_trace unfolding shared_reachable_def by blast
  moreover have "shared_step E False (demo_waiting E) (begin_event 4 (demo_waiting E)) (demo_both E)"
    unfolding demo_both_def by (rule shared_step.begin_recv) simp_all
  ultimately show ?thesis by (rule reachable_step)
qed

definition demo_robbed :: "ext_codes \<Rightarrow> sim shared_strand" where
  "demo_robbed E = recv_resume E 4 operation_aborted 5 (recv_resume E 4 operation_aborted 3
     (pump_end True (Inr (Publish a_packet)) 2 (demo_both E)))"

theorem overlapping_receives_fail_witness:
  "procs (demo_robbed sim_codes) 3 = Some (Popped (Inr (Publish a_packet))) \<and>
   (\<exists>e. procs (demo_robbed sim_codes) 5 = Some (Popped (Inl e)) \<and> failed e)"
proof -
  have "relevant (demo_both sim_codes) 4 (Inr (Publish a_packet)) \<noteq> []"
    by (simp add: relevant_def topics_of_def demo_both_at sub_def a_packet_def)
  from overlapping_receives_fail [OF demo_both_reachable _ _ _ _ this refl refl refl, of 3 5 2 True
      operation_aborted operation_aborted] show ?thesis by (auto simp: demo_both_at demo_robbed_def)
qed

end
