(* ===== verification/Shared_Entities.thy ===== *)
theory Shared_Entities
  imports Shared_Claims Button
begin

text \<open>
  Entities on a shared connection: a \<open>SharedAsyncMqttClient\<close> keeps the contract that entities rely
  on, so what they announce and how they recover holds on a shared connection too, and a session
  reset that the pump hands out makes each of them announce itself again.
\<close>

locale shared_logged = logged_transport T events + timer_laws Q events
  for T :: "('w, 'z) shared_scheme transport" and Q :: "('w, 'z) shared_scheme queue_timers"
    and events :: "'w \<Rightarrow> event list"
begin

lemma subscribe_contract:
  assumes "shared_subscribe T i ts s = Some (Ret e, s')"
  shows "\<exists>xs. accepted s' = accepted s @ xs \<and> (\<not> failed e \<longrightarrow> Sub ts \<in> set xs)"
proof -
  from assms obtain s1 where run: "async_subscribe T ts s = Some (Ret e, s1)"
    and "events (impl s') = events (impl s1)"
    by (auto simp: shared_subscribe_def subscribe_answered_def co_return_run assign_run register_client_def change_state_def
        elim!: await_Some_cases split: if_splits)
  moreover from direct.subscribe_accepted [of ts s e s1] run
  have "\<exists>xs. accepted s1 = accepted s @ xs \<and> (\<not> failed e \<longrightarrow> Sub ts \<in> set xs)" by simp
  ultimately show ?thesis by simp
qed

lemma recv_contract:
  assumes "shared_recv T Q i s = Some (Ret pk, s')"
  shows "grows (accepted s) (accepted s')"
proof -
  let ?s0 = "register_client i s"
  have s0: "events (impl ?s0) = events (impl s)" by (simp add: register_client_def)
  from assms have "queue_pop (t_codes T) Q i ?s0 = Some (Ret pk, s')"
    by (simp add: shared_recv_def assign_run)
  then obtain ec s1 where
    wait: "(if queue_of ?s0 i = [] then q_wait Q i else co_return default_error) ?s0 =
      Some (Ret ec, s1)" and "events (impl s') = events (impl s1)"
    unfolding queue_pop_def queue_take_def
    by (auto simp: reading_run co_return_run assign_run change_state_def elim!: await_Some_cases
        split: list.splits if_splits)
  moreover have "grows (events (impl ?s0)) (events (impl s1))"
    using wait steps_inD [OF logs_extends [OF wait_logs [of i]]]
    by (auto simp: co_return_run split: if_splits)
  ultimately show ?thesis using s0 by (auto simp: grows_def)
qed

end

sublocale shared_logged \<subseteq> shared: client_contract "shared_client T Q i"
    "\<lambda>s. accepted_requests (events (impl s))" for i
proof unfold_locales
  fix t p q r s e s'
  assume "c_publish (shared_client T Q i) t p q r s = Some (Ret e, s')"
  then show "\<exists>xs. accepted_requests (events (impl s')) = accepted_requests (events (impl s)) @ xs \<and>
      (\<not> failed e \<longrightarrow> Pub t p q r \<in> set xs)"
    using direct.publish_accepted [of t p q r s e s'] by (simp add: shared_client_def shared_publish_def)
next
  fix ts s e s'
  assume "c_subscribe (shared_client T Q i) ts s = Some (Ret e, s')"
  then show "\<exists>xs. accepted_requests (events (impl s')) = accepted_requests (events (impl s)) @ xs \<and>
      (\<not> failed e \<longrightarrow> Sub ts \<in> set xs)"
    using subscribe_contract [of i ts s e s'] by (simp add: shared_client_def)
next
  fix s pk s'
  assume "c_recv (shared_client T Q i) s = Some (Ret pk, s')"
  then show "grows (accepted_requests (events (impl s))) (accepted_requests (events (impl s')))"
    using recv_contract [of i s pk s'] by (simp add: shared_client_def)
qed

context shared_logged
begin

lemmas shared_contract = shared.client_contract_axioms

end

interpretation sim_logged: shared_logged "sim_transport E" sim_timers sim_log for E
  by (rule shared_logged.intro) (rule sim.logged_transport_axioms sim_timers.timer_laws_axioms)+

section \<open>Properties\<close>

text \<open>
  When the pump receives a session reset, the receive loop of every entity with a registered
  client and an empty queue takes it as its next result: it sets the entity up again before
  anything else, reports a failing setup, and goes on receiving after a working one.
\<close>

lemma shared_reset_replays_setup:
  assumes "timer_laws Q events" and "shared_inv s1"
    and "async_recv T (remove_expired_clients s) = Some (Ret (Inl (make_error_code SessionReset)), s1)"
    and "i \<in> set (clients s1)" and "states s1 i \<noteq> None" and "queue_of s1 i = []"
    and "e_client en = shared_client T Q i"
  shows "\<exists>s2 s3. async_pump_one_impl T Q s = Some (Ret (make_error_code Success), s2) \<and>
    s3 = change_state i (sc_queue_update tl) s2 \<and> queue_of s3 i = [] \<and>
    entity_recv J en s2 =
      await (entity_setup J en) (\<lambda>err s. if failed err then co_return (Inl err) s else entity_recv J en s) s3"
proof -
  let ?reset = "Inl (make_error_code SessionReset)"
  obtain s2 where pump: "async_pump_one_impl T Q s = Some (Ret (pump_result ?reset), s2)"
    and p: "pushed s1 s2 (\<lambda>j. relevant s1 j ?reset)"
    using timer_laws.pump_run [OF assms(1,3,2)] by blast
  let ?s3 = "change_state i (sc_queue_update tl) s2"
  have queue: "queue_of s2 i = [?reset]"
    using pushed_queue [OF p, of i] assms(4-6) by (simp add: relevant_def)
  have live: "states s2 i \<noteq> None" "i \<in> set (clients s2)"
    using pushed_live [OF p, of i] assms(4,5) p by (simp_all add: pushed_def)
  then have "register_client i s2 = s2" by (simp add: register_client_def registered_live)
  then have "c_recv (e_client en) s2 = Some (Ret ?reset, ?s3)"
    using queue by (simp add: assms(7) shared_client_def shared_recv_def queue_pop_def queue_take_def assign_run
        reading_run await_def co_return_run)
  then have "entity_recv J en s2 = await (entity_setup J en)
      (\<lambda>err s. if failed err then co_return (Inl err) s else entity_recv J en s) ?s3"
    by (subst entity_recv.simps) (simp add: await_Ret handle_err_def)
  moreover have "queue_of ?s3 i = []" using queue live by (auto simp: queue_of_def change_state_def)
  ultimately show ?thesis using pump by (auto simp: pump_result_def)
qed

text \<open>
  C29: Both kinds of client keep the contract that the properties of the entities assume: requests
  reported as successful have been accepted by the broker, and nothing that was accepted is lost
  from the log. It holds of an \<open>AsyncMqttClient\<close> and of a \<open>SharedAsyncMqttClient\<close> alike, over any
  third-party code that logs what it does on the wire and any interleaving with other coroutines.
\<close>

theorem clients_keep_contract:
  assumes "logged_transport T events" and "logged_transport T' events'" and "timer_laws Q events'"
  shows "client_contract (direct_client T) (\<lambda>s. accepted_requests (events (impl s))) \<and>
    client_contract (shared_client T' Q i) (\<lambda>s. accepted_requests (events' (impl s)))"
  using logged_transport.direct_contract [OF assms(1)]
    shared_logged.shared_contract [OF shared_logged.intro [OF assms(2,3)]] by blast

theorem clients_keep_contract_witness:
  "client_contract (shared_client (sim_transport sim_codes) sim_timers 1)
     (\<lambda>s. accepted_requests (sim_log (impl s)))"
  using clients_keep_contract [OF sim.logged_transport_axioms sim.logged_transport_axioms
      sim_timers.timer_laws_axioms] by blast

end
