(* ===== verification/Shared_Loop.thy ===== *)
theory Shared_Loop
  imports Shared_Sched Shared_Entities
begin

text \<open>
  The run loop of an entity on a shared client, in any interleaving with the rest of the strand. The
  loop is cut where its coroutine may be suspended (in the receive, and in the three requests of a
  setup); the receive and the subscription are the pieces of \<open>Shared_Sched\<close>, and every other
  coroutine takes the steps \<open>shared_step\<close> there. The lemmas follow each result from the pump to the
  reaction of the entity.
\<close>

section \<open>The loop, cut at its suspension points\<close>

text \<open>One turn of the loop: a receive, then the reaction to the result.\<close>

lemma run_loop_turn:
  "run_loop J en on_packet s =
     await (c_recv (e_client en)) (\<lambda>r. case r of
       Inr pk \<Rightarrow> await (on_packet pk) (\<lambda>_. run_loop J en on_packet)
     | Inl e \<Rightarrow> await (handle_err J en e) (\<lambda>err.
         if failed err then co_return err else run_loop J en on_packet)) s"
proof -
  let ?on = "\<lambda>r s. case r of Inl e \<Rightarrow> co_return e s
    | Inr p \<Rightarrow> await (on_packet p) (\<lambda>_ s. run_loop J en on_packet s) s"
  have again: "await (entity_recv J en) ?on t = run_loop J en on_packet t" for t
    by (subst run_loop.simps) (rule refl)
  have "run_loop J en on_packet s = await (entity_recv J en) ?on s" by (rule again [symmetric])
  also have "\<dots> = await (await (c_recv (e_client en)) (\<lambda>packet s. case packet of
      Inl e \<Rightarrow> await (handle_err J en e) (\<lambda>err s. if failed err then co_return (Inl err) s else entity_recv J en s) s
    | Inr p \<Rightarrow> co_return (Inr p) s)) ?on s"
    by (simp add: await_def [of "entity_recv J en"] await_def [of "await m k" for m k] entity_recv.simps [of J en s])
  also have "\<dots> = await (c_recv (e_client en)) (\<lambda>r. case r of
       Inr pk \<Rightarrow> await (on_packet pk) (\<lambda>_. run_loop J en on_packet)
     | Inl e \<Rightarrow> await (handle_err J en e) (\<lambda>err.
         if failed err then co_return err else run_loop J en on_packet)) s"
    unfolding await_assoc
  proof (rule arg_cong [where f = "\<lambda>k. await _ k s"], rule ext, rule ext)
    fix r t
    show "await ((\<lambda>s. case r of
        Inl e \<Rightarrow> await (handle_err J en e) (\<lambda>err s. if failed err then co_return (Inl err) s else entity_recv J en s) s
      | Inr p \<Rightarrow> co_return (Inr p) s)) ?on t =
      (case r of Inr pk \<Rightarrow> await (on_packet pk) (\<lambda>_. run_loop J en on_packet)
       | Inl e \<Rightarrow> await (handle_err J en e) (\<lambda>err.
           if failed err then co_return err else run_loop J en on_packet)) t"
    proof (cases r)
      case (Inl e)
      have "await (\<lambda>s. if failed err then co_return (Inl err) s else entity_recv J en s) ?on =
          (if failed err then co_return err else run_loop J en on_packet)" for err
        by (rule ext) (simp add: again await_Ret [OF co_return_run])
      then show ?thesis by (simp add: Inl await_assoc)
    next
      case (Inr pk)
      then show ?thesis by (simp add: await_Ret [OF co_return_run])
    qed
  qed
  finally show ?thesis .
qed

text \<open>
  What the availability update of a setup asks for, if anything, or the exception of a lookup; likewise
  the subscription. A request is handed to the client and may suspend the coroutine.
\<close>

definition availability_request ::
  "('o, 'v) json_api \<Rightarrow> bool \<Rightarrow> 'o \<Rightarrow> qos \<Rightarrow> request option res" where
  "availability_request J st ob q =
     bind_res (cfg_contains J Availability_Topic ob) (\<lambda>c.
     if \<not> c then Ret None
     else bind_res (availability_payload J st ob) (\<lambda>v.
       map_res (\<lambda>t. Some (Pub t v q True)) (cfg_at J Availability_Topic ob)))"

definition perform :: "'s client_ops \<Rightarrow> request \<Rightarrow> (error_code, 's) coro" where
  "perform C rq = (case rq of Pub t p q r \<Rightarrow> c_publish C t p q r | Sub ts \<Rightarrow> c_subscribe C ts)"

lemma update_availability_request:
  "entity_update_availability J en st =
     eval_res (availability_request J st (e_cfg en) (e_qos en)) (\<lambda>rq.
       case rq of None \<Rightarrow> co_return (make_error_code Success) | Some q \<Rightarrow> perform (e_client en) q)"
  by (auto simp: entity_update_availability_def availability_request_def perform_def eval_res_def bind_res_def
      map_res_def split: res.split)

text \<open>
  The code of a loop: its client, the requests of its setup, and its reaction to a packet, which
  touches only the list of the handlers it has started.
\<close>

record 'h loop_code =
  lp_client :: nat
  lp_discovery :: request
  lp_subscription :: "topic_subopts list option res"
  lp_availability :: "request option res"
  lp_packet :: "packet \<Rightarrow> (unit, 'h list) coro"

datatype loop_stage =
    Ready
  | Receiving_Result
  | Discovering
  | Subscribing_Topics "topic_subopts list"
  | Updating_Availability
  | Ended error_code
  | Threw exn
  | Hung

record 'h entity_loop =
  stage :: loop_stage
  started :: "'h list"

definition loop_start :: "'h entity_loop" where
  "loop_start = \<lparr>stage = Ready, started = []\<rparr>"

text \<open>The pieces: the new state of the loop, with the requests handed to the client.\<close>

type_synonym 'h loop_piece = "'h entity_loop \<Rightarrow> 'h entity_loop \<times> request list"

definition loop_availability :: "'h loop_code \<Rightarrow> 'h loop_piece" where
  "loop_availability L l =
     (case lp_availability L of
        Exn x \<Rightarrow> (l\<lparr>stage := Threw x\<rparr>, [])
      | Ret None \<Rightarrow> (l\<lparr>stage := Ready\<rparr>, [])
      | Ret (Some rq) \<Rightarrow> (l\<lparr>stage := Updating_Availability\<rparr>, [rq]))"

definition loop_discovered :: "'h loop_code \<Rightarrow> error_code \<Rightarrow> 'h loop_piece" where
  "loop_discovered L err l =
     (if failed err then (l\<lparr>stage := Ended err\<rparr>, [])
      else case lp_subscription L of
        Exn x \<Rightarrow> (l\<lparr>stage := Threw x\<rparr>, [])
      | Ret None \<Rightarrow> loop_availability L l
      | Ret (Some ts) \<Rightarrow> (l\<lparr>stage := Subscribing_Topics ts\<rparr>, [Sub ts]))"

definition loop_subscribed :: "'h loop_code \<Rightarrow> error_code \<Rightarrow> 'h loop_piece" where
  "loop_subscribed L err l =
     (if failed err then (l\<lparr>stage := Ended err\<rparr>, []) else loop_availability L l)"

definition loop_available :: "error_code \<Rightarrow> 'h loop_piece" where
  "loop_available err l = (if failed err then (l\<lparr>stage := Ended err\<rparr>, []) else (l\<lparr>stage := Ready\<rparr>, []))"

definition loop_received :: "'h loop_code \<Rightarrow> recv_result \<Rightarrow> 'h loop_piece" where
  "loop_received L r l =
     (case r of
        Inl e \<Rightarrow>
          if e = make_error_code SessionReset then (l\<lparr>stage := Discovering\<rparr>, [lp_discovery L])
          else if failed e then (l\<lparr>stage := Ended e\<rparr>, []) else (l\<lparr>stage := Ready\<rparr>, [])
      | Inr pk \<Rightarrow>
          (case lp_packet L pk (started l) of
             Some (Ret _, hs) \<Rightarrow> (l\<lparr>stage := Ready, started := hs\<rparr>, [])
           | Some (Exn x, hs) \<Rightarrow> (l\<lparr>stage := Threw x, started := hs\<rparr>, [])
           | None \<Rightarrow> (l\<lparr>stage := Hung\<rparr>, [])))"

section \<open>Steps of the strand and of the loop\<close>

text \<open>
  \<open>Env\<close> is a step of another coroutine, \<open>Inner\<close> one of the receive or subscription that the loop awaits,
  \<open>React\<close> its reaction to a result and \<open>Answer\<close> its going on after the answer to a request.
\<close>

datatype loop_event =
    Env shared_event
  | Inner shared_event
  | React recv_result "request list"
  | Answer error_code "request list"

definition start_subscribe :: "nat \<Rightarrow> nat \<Rightarrow> loop_stage \<Rightarrow> ('w, 'z) shared_strand_scheme \<Rightarrow>
    ('w, 'z) shared_strand_scheme" where
  "start_subscribe i p st s = (case st of Subscribing_Topics ts \<Rightarrow> enter (Subscribing i ts) p s | _ \<Rightarrow> s)"

text \<open>
  The loop owns its client: no other coroutine receives on it, and its state is not dropped. Others may
  well subscribe with it or detach it.
\<close>

definition foreign :: "nat \<Rightarrow> nat \<Rightarrow> ('w, 'z) shared_strand_scheme \<Rightarrow> shared_event \<Rightarrow>
    ('w, 'z) shared_strand_scheme \<Rightarrow> bool" where
  "foreign i p s e s' \<longleftrightarrow>
     (procs s' p = procs s p \<or> procs s p = Some (Queue_Waiting i) \<and> procs s' p = Some (Queue_Woken i)) \<and>
     (\<forall>q. q \<noteq> p \<longrightarrow> \<not> popping (procs s' q) i) \<and> (\<forall>r. e \<noteq> Took i r) \<and> e \<noteq> Dropped i"

inductive loop_step ::
  "ext_codes \<Rightarrow> 'h loop_code \<Rightarrow> nat \<Rightarrow> ('w, 'z) shared_strand_scheme \<times> 'h entity_loop \<Rightarrow> loop_event \<Rightarrow>
   ('w, 'z) shared_strand_scheme \<times> 'h entity_loop \<Rightarrow> bool"
  for E L p where
  env: "shared_step E True s e s' \<Longrightarrow> foreign (lp_client L) p s e s' \<Longrightarrow>
    loop_step E L p (s, l) (Env e) (s', l)"
| begin_loop: "stage l = Ready \<Longrightarrow> shared_step E True s (begin_event (lp_client L) s) (recv_begin E (lp_client L) p s) \<Longrightarrow>
    loop_step E L p (s, l) (Inner (begin_event (lp_client L) s))
      (recv_begin E (lp_client L) p s, l\<lparr>stage := Receiving_Result\<rparr>)"
| resume_loop: "stage l = Receiving_Result \<Longrightarrow> procs s p = Some (Queue_Woken (lp_client L)) \<Longrightarrow>
    loop_step E L p (s, l) (Inner (resume_event (lp_client L) s)) (recv_resume E (lp_client L) ec p s, l)"
| react: "stage l = Receiving_Result \<Longrightarrow> procs s p = Some (Popped r) \<Longrightarrow> loop_received L r l = (l', rqs) \<Longrightarrow>
    loop_step E L p (s, l) (React r rqs) (leave p s, l')"
| discovered: "stage l = Discovering \<Longrightarrow> loop_discovered L err l = (l', rqs) \<Longrightarrow>
    loop_step E L p (s, l) (Answer err rqs) (start_subscribe (lp_client L) p (stage l') s, l')"
| answered: "stage l = Subscribing_Topics ts \<Longrightarrow> procs s p = Some (Subscribing (lp_client L) ts) \<Longrightarrow>
    loop_step E L p (s, l) (Inner Silent) (subscribe_end (lp_client L) ts err p s, l)"
| subscribed: "stage l = Subscribing_Topics ts \<Longrightarrow> procs s p = Some (Done err) \<Longrightarrow>
    loop_subscribed L err l = (l', rqs) \<Longrightarrow>
    loop_step E L p (s, l) (Answer err rqs) (leave p s, l')"
| available: "stage l = Updating_Availability \<Longrightarrow> loop_available err l = (l', rqs) \<Longrightarrow>
    loop_step E L p (s, l) (Answer err rqs) (s, l')"

inductive_cases loop_stepE: "loop_step E L p c ev c'"

text \<open>A run, with the state before each step and what the step shows.\<close>

inductive loop_trace ::
  "ext_codes \<Rightarrow> 'h loop_code \<Rightarrow> nat \<Rightarrow> ('w, 'z) shared_strand_scheme \<times> 'h entity_loop \<Rightarrow>
   ((('w, 'z) shared_strand_scheme \<times> 'h entity_loop) \<times> loop_event) list \<Rightarrow>
   ('w, 'z) shared_strand_scheme \<times> 'h entity_loop \<Rightarrow> bool"
  for E L p c0 where
  loop_Nil: "loop_trace E L p c0 [] c0"
| loop_snoc: "loop_trace E L p c0 tr c \<Longrightarrow> loop_step E L p c ev c' \<Longrightarrow>
    loop_trace E L p c0 (tr @ [(c, ev)]) c'"

section \<open>The invariant of the loop\<close>

text \<open>Where the coroutine of the loop is at each stage.\<close>

fun loop_at :: "nat \<Rightarrow> shared_pc option \<Rightarrow> loop_stage \<Rightarrow> bool" where
  "loop_at i c Receiving_Result =
     (c = Some (Queue_Waiting i) \<or> c = Some (Queue_Woken i) \<or> (\<exists>r. c = Some (Popped r)))"
| "loop_at i c (Subscribing_Topics ts) = (c = Some (Subscribing i ts) \<or> (\<exists>err. c = Some (Done err)))"
| "loop_at i c st = (c = None)"

definition loop_inv :: "'h loop_code \<Rightarrow> nat \<Rightarrow> ('w, 'z) shared_strand_scheme \<times> 'h entity_loop \<Rightarrow> bool" where
  "loop_inv L p c \<longleftrightarrow>
     sched_inv (fst c) \<and> solo_inv (fst c) \<and> states (fst c) (lp_client L) \<noteq> None \<and>
     (\<forall>q. q \<noteq> p \<longrightarrow> \<not> popping (procs (fst c) q) (lp_client L)) \<and>
     loop_at (lp_client L) (procs (fst c) p) (stage (snd c))"

lemma loop_invD:
  assumes "loop_inv L p (s, l)"
  shows "sched_inv s" "solo_inv s" "states s (lp_client L) \<noteq> None"
    "q \<noteq> p \<Longrightarrow> \<not> popping (procs s q) (lp_client L)" "loop_at (lp_client L) (procs s p) (stage l)"
  using assms by (simp_all add: loop_inv_def)

lemma availability_at: "loop_availability L l = (l', rqs) \<Longrightarrow> loop_at i None (stage l')"
  by (auto simp: loop_availability_def split: res.splits option.splits)

lemma received_at: "loop_received L r l = (l', rqs) \<Longrightarrow> loop_at i None (stage l')"
  by (auto simp: loop_received_def split: sum.splits option.splits prod.splits res.splits if_splits)

lemma discovered_at:
  "loop_discovered L err l = (l', rqs) \<Longrightarrow>
   loop_at i None (stage l') \<and> start_subscribe i p (stage l') s = s \<or>
   (\<exists>ts. stage l' = Subscribing_Topics ts \<and> start_subscribe i p (stage l') s = enter (Subscribing i ts) p s)"
  by (auto simp: loop_discovered_def start_subscribe_def loop_availability_def
      split: res.splits option.splits if_splits)

lemma subscribed_at: "loop_subscribed L err l = (l', rqs) \<Longrightarrow> loop_at i None (stage l')"
  by (auto simp: loop_subscribed_def dest: availability_at split: if_splits)

lemma available_at: "loop_available err l = (l', rqs) \<Longrightarrow> loop_at i None (stage l')"
  by (auto simp: loop_available_def split: if_splits)

lemma begin_procs:
  assumes "queue_of s i = [] \<or> (\<exists>r rs. queue_of s i = r # rs)"
  shows "procs (recv_begin E i p s) = (procs s)(p \<mapsto> (case queue_of s i of [] \<Rightarrow> Queue_Waiting i | r # _ \<Rightarrow> Popped r))"
  using assms
proof
  assume "queue_of s i = []"
  then show ?thesis by (simp add: recv_begin_def queue_of_simps)
next
  assume "\<exists>r rs. queue_of s i = r # rs"
  then obtain r rs where q: "queue_of (register_client i s) i = r # rs" by (auto simp: queue_of_simps)
  then show ?thesis by (simp add: recv_begin_def resume_next [OF q]) (simp add: queue_of_simps)
qed

lemma piece_live:
  assumes "states s i \<noteq> None"
  shows "states (recv_begin E i p s) i \<noteq> None" and "states (recv_resume E i ec p s) i \<noteq> None"
  using assms by (simp_all only: begin_queue(2) [OF assms] resume_queue(2) [OF assms] not_False_eq_True)

text \<open>A step of the strand keeps the invariant when client and coroutine of the loop are where it needs them.\<close>

lemma loop_inv_step:
  assumes "loop_inv L p (s, l)" and "shared_step E True s e s'" and "states s' (lp_client L) \<noteq> None"
    and "loop_at (lp_client L) (procs s' p) (stage l')" and "\<And>q. q \<noteq> p \<Longrightarrow> \<not> popping (procs s' q) (lp_client L)"
  shows "loop_inv L p (s', l')"
  using shared_step_inv [OF assms(2) loop_invD(1) [OF assms(1)]] solo_step_inv [OF assms(2) loop_invD(1,2) [OF assms(1)]]
    assms(3-5) unfolding loop_inv_def fst_conv snd_conv by blast

lemma loop_inv_env:
  assumes "loop_inv L p (s, l)" and step: "shared_step E True s e s'" and foreign: "foreign (lp_client L) p s e s'"
  shows "loop_inv L p (s', l)"
proof (rule loop_inv_step [OF assms(1) step])
  note inv = loop_invD [OF assms(1)]
  have "shared_inv s" and holds: "\<And>p i. holds_client (procs s p) i \<Longrightarrow> states s i \<noteq> None"
    using inv(1) by (simp_all add: sched_inv_def)
  have "e \<noteq> Dropped (lp_client L)" using foreign by (simp add: foreign_def)
  from step_queue [OF step \<open>shared_inv s\<close> holds inv(3) this] show "states s' (lp_client L) \<noteq> None" by (rule conjunct1)
  show "loop_at (lp_client L) (procs s' p) (stage l)"
    using foreign inv(5) by (cases "stage l") (auto simp: foreign_def)
  show "\<not> popping (procs s' q) (lp_client L)" if "q \<noteq> p" for q using foreign that by (simp add: foreign_def)
qed

lemma loop_inv_recv_begin:
  assumes "loop_inv L p (s, l)" and step: "shared_step E True s (begin_event (lp_client L) s) (recv_begin E (lp_client L) p s)"
  shows "loop_inv L p (recv_begin E (lp_client L) p s, l\<lparr>stage := Receiving_Result\<rparr>)"
proof (rule loop_inv_step [OF assms(1) step])
  let ?i = "lp_client L" and ?s = "recv_begin E (lp_client L) p s"
  note inv = loop_invD [OF assms(1)]
  have pc: "procs ?s = (procs s)(p \<mapsto> (case queue_of s ?i of [] \<Rightarrow> Queue_Waiting ?i | r # _ \<Rightarrow> Popped r))"
    by (rule begin_procs) (cases "queue_of s ?i"; simp)
  show "states ?s ?i \<noteq> None" by (rule piece_live [OF inv(3)])
  show "loop_at ?i (procs ?s p) (stage (l\<lparr>stage := Receiving_Result\<rparr>))" by (simp add: pc split: list.split)
  show "\<not> popping (procs ?s q) ?i" if "q \<noteq> p" for q using inv(4) [OF that] that by (simp add: pc)
qed

lemma loop_inv_recv_resume:
  assumes "loop_inv L p (s, l)" and "stage l = Receiving_Result" and at: "procs s p = Some (Queue_Woken (lp_client L))"
  shows "loop_inv L p (recv_resume E (lp_client L) ec p s, l)"
proof (rule loop_inv_step [OF assms(1) shared_step.resume_recv [OF at]])
  let ?i = "lp_client L" and ?s = "recv_resume E (lp_client L) ec p s"
  note inv = loop_invD [OF assms(1)]
  obtain r rs where q: "queue_of s ?i = r # rs"
    using inv(2) at unfolding solo_inv_def by (metis neq_Nil_conv)
  show "states ?s ?i \<noteq> None" by (rule piece_live [OF inv(3)])
  show "loop_at ?i (procs ?s p) (stage l)" by (simp add: resume_next [OF q] assms(2))
  show "\<not> popping (procs ?s x) ?i" if "x \<noteq> p" for x using inv(4) [OF that] that by (simp add: resume_next [OF q])
qed

lemma loop_inv_subscribe_end:
  assumes "loop_inv L p (s, l)" and "stage l = Subscribing_Topics ts" and at: "procs s p = Some (Subscribing (lp_client L) ts)"
  shows "loop_inv L p (subscribe_end (lp_client L) ts err p s, l)"
proof (rule loop_inv_step [OF assms(1) shared_step.end_subscribe [OF at]])
  let ?i = "lp_client L" and ?s = "subscribe_end (lp_client L) ts err p s"
  note inv = loop_invD [OF assms(1)]
  show "states ?s ?i \<noteq> None" using inv(3) by (simp add: subscribe_end_run live_simps change_live del: not_None_eq)
  show "loop_at ?i (procs ?s p) (stage l)" by (simp add: subscribe_end_run assms(2))
  show "\<not> popping (procs ?s q) ?i" if "q \<noteq> p" for q using inv(4) [OF that] that by (simp add: subscribe_end_run)
qed

lemma loop_inv_discovered:
  assumes "loop_inv L p (s, l)" and "stage l = Discovering" and "loop_discovered L err l = (l', rqs)"
  shows "loop_inv L p (start_subscribe (lp_client L) p (stage l') s, l')"
proof -
  let ?i = "lp_client L"
  note inv = loop_invD [OF assms(1)]
  from discovered_at [OF assms(3), of ?i p s] consider
      "loop_at ?i None (stage l')" and "start_subscribe ?i p (stage l') s = s"
    | ts where "stage l' = Subscribing_Topics ts" and "start_subscribe ?i p (stage l') s = enter (Subscribing ?i ts) p s"
    by blast
  then show ?thesis
  proof cases
    case 1
    with inv assms(2) show ?thesis by (simp add: loop_inv_def)
  next
    case (2 ts)
    have "sched_inv (enter (Subscribing ?i ts) p s)" by (rule inv_enter [OF inv(1)]) (use inv(3) in auto)
    moreover have "solo_inv (enter (Subscribing ?i ts) p s)" by (rule solo_enter [OF inv(2)]) simp
    ultimately show ?thesis using inv(3,4) 2 by (simp add: loop_inv_def)
  qed
qed

lemma loop_inv_collected:
  assumes "loop_inv L p (s, l)" and "loop_at (lp_client L) None (stage l')"
  shows "loop_inv L p (leave p s, l')"
  using loop_invD [OF assms(1)] inv_leave [OF loop_invD(1) [OF assms(1)]] solo_leave [OF loop_invD(2) [OF assms(1)]] assms(2)
  by (simp add: loop_inv_def)

lemma loop_step_inv:
  assumes "loop_step E L p c ev c'" and "loop_inv L p c"
  shows "loop_inv L p c'"
  using assms
proof (cases rule: loop_step.cases)
  case (available l err l' rqs s)
  from loop_invD [OF assms(2) [unfolded available(1)]] available_at [OF available(5)] available(4) show ?thesis
    by (simp add: available(3) loop_inv_def)
qed (simp_all add: loop_inv_env loop_inv_recv_begin loop_inv_recv_resume loop_inv_subscribe_end loop_inv_discovered
    loop_inv_collected received_at subscribed_at)

section \<open>From the pump to the reaction\<close>

text \<open>
  What a step shows to arrive for the client of the loop, what the loop has reacted to, and what lies
  between: the result its coroutine has taken, then the queue.
\<close>

fun arrived :: "nat \<Rightarrow> (('w, 'z) shared_strand_scheme \<times> 'h entity_loop) \<times> loop_event \<Rightarrow> recv_result list" where
  "arrived i (c, Env e) = meant i (fst c, e)"
| "arrived i (c, _) = []"

fun reacted :: "loop_event \<Rightarrow> recv_result list" where
  "reacted (React r rqs) = [r]"
| "reacted _ = []"

fun in_flight :: "shared_pc option \<Rightarrow> recv_result list" where
  "in_flight (Some (Popped r)) = [r]"
| "in_flight _ = []"

definition pending :: "nat \<Rightarrow> nat \<Rightarrow> ('w, 'z) shared_strand_scheme \<Rightarrow> recv_result list" where
  "pending i p s = in_flight (procs s p) @ queue_of s i"

lemma resume_pending:
  assumes "states s i \<noteq> None" and "queue_of s i = r # rs"
  shows "pending i p (recv_resume E i ec p s) = queue_of s i"
  using assms by (simp add: pending_def resume_next queue_of_simps)

lemma begin_pending:
  assumes "states s i \<noteq> None"
  shows "pending i p (recv_begin E i p s) = queue_of s i"
proof (cases "queue_of s i")
  case Nil
  then show ?thesis by (simp add: pending_def recv_begin_def queue_of_simps)
next
  case (Cons r rs)
  then have q: "queue_of (register_client i s) i = r # rs" by (simp add: queue_of_simps)
  have "states (register_client i s) i \<noteq> None" using assms by (simp add: live_simps del: not_None_eq)
  from resume_pending [OF this q]
  have "pending i p (recv_resume E i default_error p (register_client i s)) = r # rs" by (simp add: q)
  with Cons show ?thesis by (simp add: recv_begin_def queue_of_simps)
qed

lemma loop_step_pending:
  assumes "loop_step E L p c ev c'" and "loop_inv L p c"
  shows "pending (lp_client L) p (fst c) @ arrived (lp_client L) (c, ev) =
    reacted ev @ pending (lp_client L) p (fst c')"
  using assms(1)
proof (cases rule: loop_step.cases)
  case (env s e s' l)
  let ?i = "lp_client L"
  note inv = loop_invD [OF assms(2) [unfolded env(1)]]
  have "shared_inv s" and holds: "\<And>p i. holds_client (procs s p) i \<Longrightarrow> states s i \<noteq> None"
    using inv(1) by (simp_all add: sched_inv_def)
  have kept: "e \<noteq> Dropped ?i" and "taken ?i e = []" and "in_flight (procs s' p) = in_flight (procs s p)"
    using env(5) by (cases e; auto simp: foreign_def)+
  with step_queue [OF env(4) \<open>shared_inv s\<close> holds inv(3) kept]
  show ?thesis by (simp add: env(1-3) pending_def)
next
  case (begin_loop l s)
  note inv = loop_invD [OF assms(2) [unfolded begin_loop(1)]]
  from inv(5) begin_loop(4) have "procs s p = None" by simp
  then show ?thesis by (simp add: begin_loop(1-3) begin_pending [OF inv(3)]) (simp add: pending_def)
next
  case (resume_loop l s ec)
  note inv = loop_invD [OF assms(2) [unfolded resume_loop(1)]]
  obtain r rs where q: "queue_of s (lp_client L) = r # rs"
    using inv(2) resume_loop(5) unfolding solo_inv_def by (metis neq_Nil_conv)
  from resume_loop(5) show ?thesis
    by (simp add: resume_loop(1-3) resume_pending [OF inv(3) q]) (simp add: pending_def)
next
  case (react l s r l' rqs)
  then show ?thesis by (simp add: pending_def)
next
  case (discovered l err l' rqs s)
  note inv = loop_invD [OF assms(2) [unfolded discovered(1)]]
  from inv(5) discovered(4) have "procs s p = None" by simp
  with discovered_at [OF discovered(5), of 0 p s] discovered(1-3) show ?thesis
    by (auto simp: pending_def start_subscribe_def split: loop_stage.split)
next
  case (answered l ts s err)
  then show ?thesis by (simp add: pending_def subscribe_end_run queue_of_simps)
next
  case (subscribed l ts s err l' rqs)
  then show ?thesis by (simp add: pending_def)
next
  case (available l err l' rqs s)
  then show ?thesis by simp
qed

section \<open>What the loop has started\<close>

text \<open>\<open>reacts L f\<close>: the reaction of the loop to a packet \<open>pk\<close> is to start the handlers \<open>f pk\<close>.\<close>

definition reacts :: "'h loop_code \<Rightarrow> (packet \<Rightarrow> 'h list) \<Rightarrow> bool" where
  "reacts L f \<longleftrightarrow> (\<forall>pk hs. lp_packet L pk hs = Some (Ret (), hs @ f pk))"

fun reaction :: "(packet \<Rightarrow> 'h list) \<Rightarrow> recv_result \<Rightarrow> 'h list" where
  "reaction f (Inl e) = []"
| "reaction f (Inr pk) = f pk"

lemma setup_pieces_started:
  "loop_availability L l = (l', rqs) \<Longrightarrow> started l' = started l"
  "loop_discovered L err l = (l', rqs) \<Longrightarrow> started l' = started l"
  "loop_subscribed L err l = (l', rqs) \<Longrightarrow> started l' = started l"
  "loop_available err l = (l', rqs) \<Longrightarrow> started l' = started l"
  by (auto simp: loop_discovered_def loop_subscribed_def loop_availability_def loop_available_def
      split: res.splits option.splits if_splits)

lemma received_started:
  assumes "reacts L f" and "loop_received L r l = (l', rqs)"
  shows "started l' = started l @ reaction f r"
  using assms by (cases r) (auto simp: loop_received_def reacts_def split: if_splits)

lemma loop_step_started:
  assumes "loop_step E L p c ev c'" and "reacts L f"
  shows "started (snd c') = started (snd c) @ concat (map (reaction f) (reacted ev))"
  using assms(1)
  by (cases rule: loop_step.cases)
    (auto simp: received_started [OF assms(2)] dest: setup_pieces_started)

text \<open>A loop whose configuration can be read does not throw.\<close>

definition reads_well :: "'h loop_code \<Rightarrow> bool" where
  "reads_well L \<longleftrightarrow> (\<exists>x. lp_subscription L = Ret x) \<and> (\<exists>x. lp_availability L = Ret x)"

fun fails :: "loop_stage \<Rightarrow> bool" where
  "fails (Threw x) = True"
| "fails Hung = True"
| "fails (Ended e) = (\<not> failed e)"
| "fails _ = False"

lemma pieces_do_not_fail:
  assumes "reads_well L"
  shows "loop_availability L l = (l', rqs) \<Longrightarrow> \<not> fails (stage l')"
    and "loop_discovered L err l = (l', rqs) \<Longrightarrow> \<not> fails (stage l')"
    and "loop_subscribed L err l = (l', rqs) \<Longrightarrow> \<not> fails (stage l')"
    and "loop_available err l = (l', rqs) \<Longrightarrow> \<not> fails (stage l')"
    and "reacts L f \<Longrightarrow> loop_received L r l = (l', rqs) \<Longrightarrow> \<not> fails (stage l')"
  using assms
  by (auto simp: loop_discovered_def loop_subscribed_def loop_availability_def loop_available_def
      loop_received_def reads_well_def reacts_def split: option.splits if_splits sum.splits)

lemma loop_step_does_not_fail:
  assumes "loop_step E L p c ev c'" and "reads_well L" and "reacts L f" and "\<not> fails (stage (snd c))"
  shows "\<not> fails (stage (snd c'))"
  using assms(1)
  by (cases rule: loop_step.cases)
    (use assms(4) pieces_do_not_fail [OF assms(2)] assms(3) in \<open>auto\<close>)

section \<open>Whole runs\<close>

definition arrivals :: "nat \<Rightarrow> ((('w, 'z) shared_strand_scheme \<times> 'h entity_loop) \<times> loop_event) list \<Rightarrow> recv_result list" where
  "arrivals i tr = concat (map (arrived i) tr)"

definition reactions :: "((('w, 'z) shared_strand_scheme \<times> 'h entity_loop) \<times> loop_event) list \<Rightarrow> recv_result list" where
  "reactions tr = concat (map (\<lambda>(c, ev). reacted ev) tr)"

text \<open>
  What the pump got for the client of the loop is what the loop has reacted to, in this order, followed
  by what is pending; and the handlers started are those of the reactions.
\<close>

lemma loop_trace_facts:
  assumes "loop_trace E L p c0 tr c" and "loop_inv L p c0"
  shows "loop_inv L p c"
    and "pending (lp_client L) p (fst c0) @ arrivals (lp_client L) tr = reactions tr @ pending (lp_client L) p (fst c)"
    and "reacts L f \<Longrightarrow> started (snd c) = started (snd c0) @ concat (map (reaction f) (reactions tr))"
    and "reads_well L \<Longrightarrow> reacts L f \<Longrightarrow> \<not> fails (stage (snd c0)) \<Longrightarrow> \<not> fails (stage (snd c))"
  using assms
proof (induction rule: loop_trace.induct)
  case (loop_snoc tr c ev c')
  { case 1 with loop_snoc show ?case by (blast intro: loop_step_inv)
  next
    case 2
    with loop_snoc have "loop_inv L p c" by blast
    from loop_step_pending [OF loop_snoc.hyps(2) this] loop_snoc.IH(2) 2
    show ?case by (simp add: arrivals_def reactions_def flip: append_assoc) (simp add: append_assoc)
  next
    case 3
    with loop_step_started [OF loop_snoc.hyps(2)] loop_snoc.IH(3) show ?case by (simp add: reactions_def)
  next
    case 4
    with loop_step_does_not_fail [OF loop_snoc.hyps(2)] loop_snoc.IH(4) show ?case by blast
  }
qed (simp_all add: arrivals_def reactions_def)

end
