(* ===== verification/Loop_Runs.thy ===== *)
theory Loop_Runs
  imports Shared_Loop
begin

text \<open>
  Whole runs of the loop of \<open>Shared_Loop\<close>: in a fair run every result that is pending is reacted to, by
  a rank that every step of the loop lowers and every other step keeps; the requests of the loop are
  its announcement once per session reset.
\<close>

section \<open>Progress\<close>

fun over :: "loop_stage \<Rightarrow> bool" where
  "over (Ended e) = True"
| "over (Threw x) = True"
| "over Hung = True"
| "over _ = False"

fun moves :: "loop_event \<Rightarrow> bool" where
  "moves (Env e) = False"
| "moves _ = True"

text \<open>The loop can go on unless it is over or waits for its queue.\<close>

definition can_go :: "nat \<Rightarrow> nat \<Rightarrow> ('w, 'z) shared_strand_scheme \<times> 'h entity_loop \<Rightarrow> bool" where
  "can_go i p c \<longleftrightarrow> \<not> over (stage (snd c)) \<and> procs (fst c) p \<noteq> Some (Queue_Waiting i)"

text \<open>How many steps of its own the loop is away from a reaction, when something is pending.\<close>

fun loop_rank :: "loop_stage \<Rightarrow> shared_pc option \<Rightarrow> nat" where
  "loop_rank Receiving_Result (Some (Popped r)) = 0"
| "loop_rank Receiving_Result c = 1"
| "loop_rank Ready c = 2"
| "loop_rank Updating_Availability c = 3"
| "loop_rank (Subscribing_Topics ts) (Some (Done err)) = 4"
| "loop_rank (Subscribing_Topics ts) c = 5"
| "loop_rank Discovering c = 6"
| "loop_rank st c = 0"

definition rank_of :: "nat \<Rightarrow> ('w, 'z) shared_strand_scheme \<times> 'h entity_loop \<Rightarrow> nat" where
  "rank_of p c = loop_rank (stage (snd c)) (procs (fst c) p)"

lemma availability_rank:
  "loop_availability L l = (l', rqs) \<Longrightarrow> \<not> over (stage l') \<Longrightarrow> loop_rank (stage l') x < 4"
  by (auto simp: loop_availability_def split: res.splits option.splits)

lemma subscribing_rank [simp]: "loop_rank (Subscribing_Topics ts) x < 6"
  by (cases "(Subscribing_Topics ts, x)" rule: loop_rank.cases) simp_all

lemma pieces_rank:
  "loop_discovered L err l = (l', rqs) \<Longrightarrow> \<not> over (stage l') \<Longrightarrow> loop_rank (stage l') x < 6"
  "loop_subscribed L err l = (l', rqs) \<Longrightarrow> \<not> over (stage l') \<Longrightarrow> loop_rank (stage l') x < 4"
  "loop_available err l = (l', rqs) \<Longrightarrow> \<not> over (stage l') \<Longrightarrow> loop_rank (stage l') x < 3"
  by (auto simp: loop_discovered_def loop_subscribed_def loop_available_def less_Suc_eq
      dest!: availability_rank [where x = x] split: res.splits option.splits if_splits)

lemma pending_goes:
  assumes "loop_inv L p c" and "pending (lp_client L) p (fst c) \<noteq> []" and "\<not> over (stage (snd c))"
  shows "can_go (lp_client L) p c"
  using assms by (auto simp: can_go_def loop_inv_def sched_inv_def pending_def)

lemma loop_step_rank:
  assumes "loop_step E L p c ev c'" and "loop_inv L p c" and "pending (lp_client L) p (fst c) \<noteq> []"
    and "\<not> over (stage (snd c'))" and "reacted ev = []"
  shows "pending (lp_client L) p (fst c') \<noteq> [] \<and>
    (if moves ev then rank_of p c' < rank_of p c else rank_of p c' = rank_of p c)"
proof
  show "pending (lp_client L) p (fst c') \<noteq> []"
    using loop_step_pending [OF assms(1,2)] assms(3,5) by auto
  show "if moves ev then rank_of p c' < rank_of p c else rank_of p c' = rank_of p c"
    using assms(1)
  proof (cases rule: loop_step.cases)
    case (env s e s' l)
    then have "loop_rank (stage l) (procs s' p) = loop_rank (stage l) (procs s p)"
      by (cases "stage l") (auto simp: foreign_def)
    with env show ?thesis by (simp add: rank_of_def)
  next
    case (begin_loop l s)
    note inv = loop_invD [OF assms(2) [unfolded begin_loop(1)]]
    from inv(5) begin_loop(4) have "in_flight (procs s p) = []" by simp
    with assms(3) begin_loop(1) obtain r rs where q: "queue_of s (lp_client L) = r # rs"
      by (auto simp: pending_def neq_Nil_conv)
    then have "procs (recv_begin E (lp_client L) p s) p = Some (Popped r)"
      by (subst begin_procs) simp_all
    with begin_loop show ?thesis by (simp add: rank_of_def)
  next
    case (resume_loop l s ec)
    note inv = loop_invD [OF assms(2) [unfolded resume_loop(1)]]
    obtain r rs where q: "queue_of s (lp_client L) = r # rs"
      using inv(2) resume_loop(5) unfolding solo_inv_def by (metis neq_Nil_conv)
    with resume_loop show ?thesis by (simp add: rank_of_def resume_next [OF q])
  next
    case (react l s r l' rqs)
    with assms(5) show ?thesis by simp
  next
    case (discovered l err l' rqs s)
    then show ?thesis using assms(4) pieces_rank(1) [OF discovered(5)] by (simp add: rank_of_def)
  next
    case (answered l ts s err)
    then show ?thesis by (simp add: rank_of_def subscribe_end_run)
  next
    case (subscribed l ts s err l' rqs)
    then show ?thesis using assms(4) pieces_rank(2) [OF subscribed(6)] by (simp add: rank_of_def)
  next
    case (available l err l' rqs s)
    then show ?thesis using assms(4) pieces_rank(3) [OF available(5)] by (simp add: rank_of_def)
  qed
qed

section \<open>Fair runs\<close>

text \<open>
  The steps so far, and fair runs: again and again the loop moves, is over or waits for its queue. In
  particular the physical client answers the requests of a setup at some time.
\<close>

definition steps_before :: "(nat \<Rightarrow> 'c) \<Rightarrow> (nat \<Rightarrow> 'e) \<Rightarrow> nat \<Rightarrow> ('c \<times> 'e) list" where
  "steps_before run ev n = map (\<lambda>m. (run m, ev m)) [0..<n]"

definition fair_loop ::
  "ext_codes \<Rightarrow> 'h loop_code \<Rightarrow> nat \<Rightarrow> (nat \<Rightarrow> ('w, 'z) shared_strand_scheme \<times> 'h entity_loop) \<Rightarrow>
   (nat \<Rightarrow> loop_event) \<Rightarrow> bool" where
  "fair_loop E L p run ev \<longleftrightarrow> (\<forall>n. loop_step E L p (run n) (ev n) (run (Suc n))) \<and>
     (\<forall>n. \<exists>m\<ge>n. moves (ev m) \<or> \<not> can_go (lp_client L) p (run m))"

lemma fair_prefix:
  assumes "fair_loop E L p run ev"
  shows "loop_trace E L p (run 0) (steps_before run ev n) (run n)"
proof (induction n)
  case 0
  show ?case by (simp add: steps_before_def loop_Nil)
next
  case (Suc n)
  from assms have "loop_step E L p (run n) (ev n) (run (Suc n))" by (simp add: fair_loop_def)
  from loop_snoc [OF Suc this] show ?case by (simp add: steps_before_def)
qed

lemma reaction_follows:
  assumes fair: "fair_loop E L p run ev" and inv: "loop_inv L p (run 0)"
    and going: "\<And>m. m \<ge> n \<Longrightarrow> \<not> over (stage (snd (run m)))"
    and pend: "pending (lp_client L) p (fst (run n)) \<noteq> []"
  shows "\<exists>m\<ge>n. reacted (ev m) \<noteq> []"
  using going pend
proof (induction "rank_of p (run n)" arbitrary: n rule: less_induct)
  case less
  note inv_at = loop_trace_facts(1) [OF fair_prefix [OF fair] inv]
  have step: "loop_step E L p (run m) (ev m) (run (Suc m))" for m using fair by (simp add: fair_loop_def)
  show ?case
  proof (rule ccontr)
    assume "\<not> ?case"
    then have quiet: "reacted (ev m) = []" if "m \<ge> n" for m using that by blast
    have kept: "pending (lp_client L) p (fst (run (n + k))) \<noteq> [] \<and> rank_of p (run (n + k)) \<le> rank_of p (run n)" for k
    proof (induction k)
      case (Suc k)
      with loop_step_rank [OF step inv_at, of "n + k"] quiet [of "n + k"] less.prems(1) [of "Suc (n + k)"]
      show ?case by (auto split: if_splits)
    qed (use less.prems(2) in simp)
    then have at: "pending (lp_client L) p (fst (run m)) \<noteq> []" "rank_of p (run m) \<le> rank_of p (run n)"
      if "m \<ge> n" for m using that by (metis le_add_diff_inverse)+
    obtain m where m: "m \<ge> n" and "moves (ev m)"
      using fair pending_goes [OF inv_at at(1)] less.prems(1) unfolding fair_loop_def by metis
    with loop_step_rank [OF step inv_at at(1) [OF m]] quiet [OF m] less.prems(1) [of "Suc m"] at(2) [OF m]
    have "rank_of p (run (Suc m)) < rank_of p (run n)" "pending (lp_client L) p (fst (run (Suc m))) \<noteq> []"
      by simp_all
    with less.hyps [of "Suc m"] less.prems(1) m obtain m' where "m' \<ge> Suc m" "reacted (ev m') \<noteq> []"
      by (metis Suc_leD le_trans)
    with quiet m show False by (metis Suc_leD le_trans)
  qed
qed

lemma reactions_grow: "n \<le> m \<Longrightarrow> \<exists>xs. reactions (steps_before run ev m) = reactions (steps_before run ev n) @ xs"
  by (induction m rule: dec_induct) (auto simp: steps_before_def reactions_def)

lemma arrivals_grow: "n \<le> m \<Longrightarrow> \<exists>xs. arrivals i (steps_before run ev m) = arrivals i (steps_before run ev n) @ xs"
  by (induction m rule: dec_induct) (auto simp: steps_before_def arrivals_def)

lemma longer_prefix: "xs @ ys = zs @ us \<Longrightarrow> length zs \<le> length xs \<Longrightarrow> \<exists>vs. xs = zs @ vs"
  by (auto simp: append_eq_append_conv2)

text \<open>What has arrived until some time is reacted to later, in order, unless the loop ends.\<close>

lemma arrivals_reacted:
  assumes fair: "fair_loop E L p run ev" and inv: "loop_inv L p (run 0)"
  shows "\<exists>m\<ge>n. over (stage (snd (run m))) \<or> (\<exists>xs. reactions (steps_before run ev m) =
    pending (lp_client L) p (fst (run 0)) @ arrivals (lp_client L) (steps_before run ev n) @ xs)"
proof (cases "\<exists>m\<ge>n. over (stage (snd (run m)))")
  case False
  let ?pend = "\<lambda>m. pending (lp_client L) p (fst (run m))" and ?re = "\<lambda>m. reactions (steps_before run ev m)"
  let ?all = "\<lambda>m. ?pend 0 @ arrivals (lp_client L) (steps_before run ev m)"
  have split: "?all m = ?re m @ ?pend m" for m
    using loop_trace_facts(2) [OF fair_prefix [OF fair] inv] .
  have more: "\<exists>xs. ?all m = ?all n @ xs" if "m \<ge> n" for m
    using arrivals_grow [OF that, of "lp_client L" run ev] by (elim exE) simp
  have "\<exists>m\<ge>n. d \<le> length (?re m)" if "d \<le> length (?all n)" for d
    using that
  proof (induction d)
    case (Suc d)
    then obtain m where m: "m \<ge> n" "d \<le> length (?re m)" by auto
    show ?case
    proof (cases "Suc d \<le> length (?re m)")
      case False
      have "?pend m \<noteq> []"
      proof
        assume "?pend m = []"
        with split [of m] have same: "?re m = ?all m" by simp
        obtain xs where "?all m = ?all n @ xs" using more [OF m(1)] by blast
        then have "length (?all n) \<le> length (?re m)" unfolding same by simp
        with Suc.prems False show False by simp
      qed
      moreover have "\<not> over (stage (snd (run k)))" if "k \<ge> m" for k
        using that m(1) \<open>\<not> (\<exists>m\<ge>n. over (stage (snd (run m))))\<close> by (meson le_trans)
      ultimately obtain k where k: "k \<ge> m" "reacted (ev k) \<noteq> []"
        using reaction_follows [OF fair inv] by blast
      have "?re (Suc k) = ?re k @ reacted (ev k)" by (simp add: steps_before_def reactions_def)
      moreover obtain ys where "?re k = ?re m @ ys" using reactions_grow [OF k(1)] by blast
      ultimately have "Suc d \<le> length (?re (Suc k))" using m(2) k(2) by (cases "reacted (ev k)") auto
      with m(1) k(1) show ?thesis by (meson le_SucI le_trans)
    qed (use m(1) in blast)
  qed blast
  then obtain m where m: "m \<ge> n" "length (?all n) \<le> length (?re m)" by blast
  obtain xs where "?all m = ?all n @ xs" using more [OF m(1)] by blast
  then have "?re m @ ?pend m = ?all n @ xs" by (simp only: split)
  from longer_prefix [OF this m(2)] m(1) show ?thesis by auto
qed blast

section \<open>Setups end\<close>

fun in_setup :: "loop_stage \<Rightarrow> bool" where
  "in_setup Discovering = True"
| "in_setup (Subscribing_Topics ts) = True"
| "in_setup Updating_Availability = True"
| "in_setup st = False"

lemma setup_step:
  assumes "loop_step E L p c ev c'" and "loop_inv L p c" and "in_setup (stage (snd c))"
  shows "if moves ev then in_setup (stage (snd c')) \<longrightarrow> rank_of p c' < rank_of p c
    else stage (snd c') = stage (snd c) \<and> rank_of p c' = rank_of p c"
  using assms(1)
proof (cases rule: loop_step.cases)
  case (env s e s' l)
  then have "loop_rank (stage l) (procs s' p) = loop_rank (stage l) (procs s p)"
    by (cases "stage l") (auto simp: foreign_def)
  with env show ?thesis by (simp add: rank_of_def)
next
  case (discovered l err l' rqs s)
  have "\<not> over (stage l')" if "in_setup (stage l')" using that by (cases "stage l'") simp_all
  with discovered pieces_rank(1) [OF discovered(5)] show ?thesis by (simp add: rank_of_def)
next
  case (answered l ts s err)
  then show ?thesis by (simp add: rank_of_def subscribe_end_run)
next
  case (subscribed l ts s err l' rqs)
  have "\<not> over (stage l')" if "in_setup (stage l')" using that by (cases "stage l'") simp_all
  with subscribed pieces_rank(2) [OF subscribed(6)] show ?thesis by (simp add: rank_of_def)
next
  case (available l err l' rqs s)
  have "\<not> over (stage l')" if "in_setup (stage l')" using that by (cases "stage l'") simp_all
  with available pieces_rank(3) [OF available(5)] show ?thesis by (simp add: rank_of_def)
qed (use assms(3) in simp_all)

lemma setup_ends:
  assumes fair: "fair_loop E L p run ev" and inv: "loop_inv L p (run 0)"
  shows "\<exists>m\<ge>n. \<not> in_setup (stage (snd (run m)))"
proof (induction "rank_of p (run n)" arbitrary: n rule: less_induct)
  case less
  note inv_at = loop_trace_facts(1) [OF fair_prefix [OF fair] inv]
  have step: "loop_step E L p (run m) (ev m) (run (Suc m))" for m using fair by (simp add: fair_loop_def)
  show ?case
  proof (rule ccontr)
    assume "\<not> ?case"
    then have going: "in_setup (stage (snd (run m)))" if "m \<ge> n" for m using that by blast
    have kept: "rank_of p (run (n + k)) \<le> rank_of p (run n)" for k
    proof (induction k)
      case (Suc k)
      with setup_step [OF step inv_at going, of "n + k"] going [of "Suc (n + k)"] show ?case
        by (auto split: if_splits)
    qed simp
    have "can_go (lp_client L) p (run m)" if "m \<ge> n" for m
      using going [OF that] loop_invD(5) [of L p "fst (run m)" "snd (run m)"] inv_at [of m]
      by (cases "stage (snd (run m))") (auto simp: can_go_def)
    then obtain m where m: "m \<ge> n" "moves (ev m)" using fair unfolding fair_loop_def by metis
    with setup_step [OF step inv_at going [OF m(1)]] going [of "Suc m"] kept [of "m - n"]
    have "rank_of p (run (Suc m)) < rank_of p (run n)" by simp
    from less.hyps [OF this] m(1) going show False by (meson Suc_leD le_trans)
  qed
qed

lemma loop_step_over:
  assumes "loop_step E L p c ev c'" and "over (stage (snd c))"
  shows "over (stage (snd c')) \<and> reacted ev = []"
  using assms by (cases rule: loop_step.cases) auto

text \<open>A reaction to a failure other than a session reset ends the loop.\<close>

lemma loop_trace_failure:
  assumes "loop_trace E L p c0 tr c" and "Inl e \<in> set (reactions tr)" and "failed e" and "e \<noteq> make_error_code SessionReset"
  shows "over (stage (snd c))"
  using assms
proof (induction rule: loop_trace.induct)
  case (loop_snoc tr c ev c')
  show ?case
  proof (cases "Inl e \<in> set (reactions tr)")
    case True
    with loop_snoc loop_step_over show ?thesis by blast
  next
    case False
    moreover have "reactions (tr @ [(c, ev)]) = reactions tr @ reacted ev" by (simp add: reactions_def)
    ultimately have "Inl e \<in> set (reacted ev)" using loop_snoc.prems(1) by (simp del: Un_iff) blast
    with loop_snoc.hyps(2) loop_snoc.prems(2,3) show ?thesis
      by (cases rule: loop_step.cases) (auto simp: loop_received_def)
  qed
qed (simp add: reactions_def)

text \<open>
  Why a loop ends: it has reacted to a failure other than a session reset, or a request of its setup has been
  refused with the error it ends with.
\<close>

fun refused :: "loop_event \<Rightarrow> error_code list" where
  "refused (Answer err rqs) = (if failed err then [err] else [])"
| "refused _ = []"

definition refusals :: "((('w, 'z) shared_strand_scheme \<times> 'h entity_loop) \<times> loop_event) list \<Rightarrow> error_code list" where
  "refusals tr = concat (map (\<lambda>(c, ev). refused ev) tr)"

lemma loop_step_ends:
  assumes "loop_step E L p c ev c'" and "stage (snd c') = Ended e" and "stage (snd c) \<noteq> Ended e"
  shows "Inl e \<in> set (reacted ev) \<and> e \<noteq> make_error_code SessionReset \<or> e \<in> set (refused ev)"
  using assms(1)
  by (cases rule: loop_step.cases)
    (use assms(2,3) in \<open>auto simp: loop_received_def loop_discovered_def loop_subscribed_def loop_available_def
      loop_availability_def split: if_splits sum.splits option.splits prod.splits res.splits\<close>)

lemma loop_trace_ends:
  assumes "loop_trace E L p c0 tr c" and "stage (snd c) = Ended e" and "stage (snd c0) \<noteq> Ended e"
  shows "Inl e \<in> set (reactions tr) \<and> e \<noteq> make_error_code SessionReset \<or> e \<in> set (refusals tr)"
  using assms
proof (induction rule: loop_trace.induct)
  case (loop_snoc tr c ev c')
  have "reactions (tr @ [(c, ev)]) = reactions tr @ reacted ev" "refusals (tr @ [(c, ev)]) = refusals tr @ refused ev"
    by (simp_all add: reactions_def refusals_def)
  with loop_snoc loop_step_ends [OF loop_snoc.hyps(2)] show ?case by (cases "stage (snd c) = Ended e") auto
qed simp

section \<open>The announcements of a run\<close>

fun asked :: "loop_event \<Rightarrow> request list" where
  "asked (React r rqs) = rqs"
| "asked (Answer err rqs) = rqs"
| "asked _ = []"

definition requests :: "((('w, 'z) shared_strand_scheme \<times> 'h entity_loop) \<times> loop_event) list \<Rightarrow> request list" where
  "requests tr = concat (map (\<lambda>(c, ev). asked ev) tr)"

definition resets :: "recv_result list \<Rightarrow> nat" where
  "resets rs = length (filter (\<lambda>r. r = Inl (make_error_code SessionReset)) rs)"

text \<open>The announcement of a loop, and what is left of it at a stage.\<close>

definition subscription_requests :: "'h loop_code \<Rightarrow> request list" where
  "subscription_requests L = (case lp_subscription L of Ret (Some ts) \<Rightarrow> [Sub ts] | _ \<Rightarrow> [])"

definition availability_requests :: "'h loop_code \<Rightarrow> request list" where
  "availability_requests L = (case lp_availability L of Ret (Some rq) \<Rightarrow> [rq] | _ \<Rightarrow> [])"

definition announcement_of :: "'h loop_code \<Rightarrow> request list" where
  "announcement_of L = lp_discovery L # subscription_requests L @ availability_requests L"

fun to_ask :: "'h loop_code \<Rightarrow> loop_stage \<Rightarrow> request list" where
  "to_ask L Discovering = subscription_requests L @ availability_requests L"
| "to_ask L (Subscribing_Topics ts) = availability_requests L"
| "to_ask L st = []"

lemma loop_step_asked:
  assumes "loop_step E L p c ev c'" and "reads_well L" and "\<not> over (stage (snd c))"
  shows "\<exists>rest. asked ev @ rest = to_ask L (stage (snd c)) @ concat (replicate (resets (reacted ev)) (announcement_of L)) \<and>
    (\<not> over (stage (snd c')) \<longrightarrow> rest = to_ask L (stage (snd c')))"
proof -
  obtain x y where code: "lp_subscription L = Ret x" "lp_availability L = Ret y"
    using assms(2) by (auto simp: reads_well_def)
  from assms(1) show ?thesis
    by (cases rule: loop_step.cases)
      (use assms(3) in \<open>auto simp: code resets_def loop_received_def loop_discovered_def loop_subscribed_def
        loop_available_def loop_availability_def subscription_requests_def availability_requests_def announcement_of_def
        split: if_splits sum.splits option.splits prod.splits res.splits\<close>)
qed

lemma loop_step_over_asked: "loop_step E L p c ev c' \<Longrightarrow> over (stage (snd c)) \<Longrightarrow> asked ev = []"
  by (cases rule: loop_step.cases) auto

lemma loop_trace_asked:
  assumes "loop_trace E L p c0 tr c" and "reads_well L" and "stage (snd c0) = Ready"
  shows "\<exists>rest. requests tr @ rest = concat (replicate (resets (reactions tr)) (announcement_of L)) \<and>
    (\<not> over (stage (snd c)) \<longrightarrow> rest = to_ask L (stage (snd c)))"
  using assms
proof (induction rule: loop_trace.induct)
  case loop_Nil
  then show ?case by (simp add: requests_def reactions_def resets_def)
next
  case (loop_snoc tr c ev c')
  let ?all = "\<lambda>n. concat (replicate n (announcement_of L))"
  have more: "?all (m + n) = ?all m @ ?all n" for m n by (simp add: replicate_add)
  from loop_snoc obtain rest where rest: "requests tr @ rest = ?all (resets (reactions tr))"
    "\<not> over (stage (snd c)) \<Longrightarrow> rest = to_ask L (stage (snd c))" by blast
  have tr: "requests (tr @ [(c, ev)]) = requests tr @ asked ev"
    "resets (reactions (tr @ [(c, ev)])) = resets (reactions tr) + resets (reacted ev)"
    by (simp_all add: requests_def reactions_def resets_def)
  show ?case
  proof (cases "over (stage (snd c))")
    case True
    with loop_step_over [OF loop_snoc.hyps(2)] loop_step_over_asked [OF loop_snoc.hyps(2)] rest(1) show ?thesis
      by (intro exI [of _ rest]) (simp add: tr, simp add: resets_def)
  next
    case False
    with loop_step_asked [OF loop_snoc.hyps(2) loop_snoc.prems(1)] rest(2)
    obtain rest' where "asked ev @ rest' = rest @ ?all (resets (reacted ev))"
      "\<not> over (stage (snd c')) \<longrightarrow> rest' = to_ask L (stage (snd c'))" by auto
    with rest(1) show ?thesis unfolding tr more by (metis append_assoc)
  qed
qed

section \<open>Runs from the start\<close>

text \<open>A loop may begin when its client is alive, and nobody receives on it.\<close>

definition free_client :: "ext_codes \<Rightarrow> nat \<Rightarrow> nat \<Rightarrow> ('w) shared_strand \<Rightarrow> bool" where
  "free_client E i p s \<longleftrightarrow> shared_reachable E True s \<and> states s i \<noteq> None \<and> procs s p = None \<and>
     (\<forall>q. \<not> popping (procs s q) i)"

lemma start_inv: "free_client E (lp_client L) p s \<Longrightarrow> loop_inv L p (s, loop_start)"
  by (auto simp: free_client_def loop_inv_def loop_start_def reachable_inv reachable_solo)

lemma start_pending: "free_client E i p s \<Longrightarrow> pending i p s = queue_of s i"
  by (simp add: free_client_def pending_def)

text \<open>What holds of every trace of a loop that begins with a free client.\<close>

lemma loop_from_start:
  assumes "free_client E (lp_client L) p s0" and "reads_well L" and "reacts L f"
    and "loop_trace E L p (s0, loop_start) tr (s, l)"
  shows "queue_of s0 (lp_client L) @ arrivals (lp_client L) tr = reactions tr @ pending (lp_client L) p s \<and>
    started l = concat (map (reaction f) (reactions tr)) \<and> \<not> fails (stage l)"
proof -
  note facts = loop_trace_facts [OF assms(4) start_inv [OF assms(1)]]
  from facts(2) have "queue_of s0 (lp_client L) @ arrivals (lp_client L) tr = reactions tr @ pending (lp_client L) p s"
    by (simp add: start_pending [OF assms(1)])
  moreover from facts(3) [OF assms(3)] have "started l = concat (map (reaction f) (reactions tr))"
    by (simp add: loop_start_def)
  moreover from facts(4) [OF assms(2,3)] have "\<not> fails (stage l)" by (simp add: loop_start_def)
  ultimately show ?thesis by blast
qed

end
