(* ===== verification/Entity_Loops.thy ===== *)
theory Entity_Loops
  imports Shared_Loop Loop_Runs Button Cover Sensors
begin

text \<open>
  The loops of the four entities as code for \<open>Shared_Loop\<close>: each is shown to hand its client the requests
  that the coroutines of the entity hand it, and the parts of its announcement and its reaction to a
  packet are computed. \<open>appliance\<close> covers all of them.
\<close>

section \<open>The code of a loop and its entity\<close>

definition loop_for ::
  "('o, 'v) json_api \<Rightarrow> string \<Rightarrow> topic_subopts list option res \<Rightarrow> (packet \<Rightarrow> (unit, 'h list) coro) \<Rightarrow>
   nat \<Rightarrow> ('o, 'x) entity_config_scheme \<Rightarrow> 'h loop_code" where
  "loop_for J component topics on_packet i cf =
     \<lparr>lp_client = i,
      lp_discovery = Pub (default_component_discovery_topic component (ec_unique_id cf)) (cfg_json J (ec_cfg cf)) (ec_qos cf) True,
      lp_subscription = topics,
      lp_availability = availability_request J True (ec_cfg cf) (ec_qos cf),
      lp_packet = on_packet\<rparr>"

definition command_subscription ::
  "('o, 'v) json_api \<Rightarrow> property \<Rightarrow> ('o, 'x) entity_config_scheme \<Rightarrow> topic_subopts list option res" where
  "command_subscription J p cf =
     map_res (\<lambda>topic. Some [\<lparr>sub_topic = topic, sub_qos = ec_qos cf\<rparr>]) (cfg_at J p (ec_cfg cf))"

text \<open>The coroutines of a setup of the entity perform the requests of the loop on the client.\<close>

definition loop_of :: "('o, 'v) json_api \<Rightarrow> ('o, 's) entity \<Rightarrow> 'h loop_code \<Rightarrow> bool" where
  "loop_of J en L \<longleftrightarrow>
     e_discovery_impl en = perform (e_client en) (lp_discovery L) \<and>
     e_subscribe_impl en = eval_res (lp_subscription L)
       (\<lambda>ts. case ts of None \<Rightarrow> co_return default_error | Some us \<Rightarrow> perform (e_client en) (Sub us)) \<and>
     entity_update_availability J en True = eval_res (lp_availability L)
       (\<lambda>rq. case rq of None \<Rightarrow> co_return (make_error_code Success) | Some q \<Rightarrow> perform (e_client en) q)"

lemma loop_of_setup:
  assumes "loop_of J en L"
  shows "entity_setup J en =
    await (perform (e_client en) (lp_discovery L)) (\<lambda>err. if failed err then co_return err else
    await (eval_res (lp_subscription L)
        (\<lambda>ts. case ts of None \<Rightarrow> co_return default_error | Some us \<Rightarrow> perform (e_client en) (Sub us)))
      (\<lambda>err. if failed err then co_return err else
    eval_res (lp_availability L)
      (\<lambda>rq. case rq of None \<Rightarrow> co_return (make_error_code Success) | Some q \<Rightarrow> perform (e_client en) q)))"
  using assms by (simp add: loop_of_def entity_setup_def entity_discovery_def entity_subscribe_def cong: if_cong)

lemma loop_for_of:
  assumes "e_cfg en = ec_cfg cf" and "e_qos en = ec_qos cf"
    and "e_discovery_impl en = c_publish (e_client en) (default_component_discovery_topic component (ec_unique_id cf))
      (cfg_json J (ec_cfg cf)) (ec_qos cf) True"
    and "e_subscribe_impl en = eval_res topics
      (\<lambda>ts. case ts of None \<Rightarrow> co_return default_error | Some us \<Rightarrow> perform (e_client en) (Sub us))"
  shows "loop_of J en (loop_for J component topics on_packet i cf)"
  using assms by (simp add: loop_of_def loop_for_def update_availability_request) (simp add: perform_def)

lemma command_subscription_run:
  "eval_res (command_subscription J p cf) (\<lambda>ts. case ts of None \<Rightarrow> co_return default_error | Some us \<Rightarrow> perform C (Sub us)) =
   eval_res (cfg_at J p (ec_cfg cf)) (\<lambda>topic. c_subscribe C [\<lparr>sub_topic = topic, sub_qos = ec_qos cf\<rparr>])"
  by (simp add: command_subscription_def perform_def eval_res_def map_res_def split: res.split)

section \<open>The four entities\<close>

definition button_loop :: "('o, 'v) json_api \<Rightarrow> nat \<Rightarrow> ('o, 'h) button_config \<Rightarrow> 'h loop_code" where
  "button_loop J i cf = loop_for J Button_Component (command_subscription J Button_CommandTopic cf)
     (button_on_packet J (\<lambda>h hs. hs @ [h]) cf) i cf"

definition cover_loop :: "('o, 'v) json_api \<Rightarrow> nat \<Rightarrow> ('o, 'h) cover_config \<Rightarrow> 'h loop_code" where
  "cover_loop J i cf = loop_for J Cover_Component (command_subscription J Cover_CommandTopic cf)
     (cover_on_packet J (\<lambda>h hs. hs @ [h]) cf) i cf"

text \<open>The sensors subscribe to nothing and ignore what they receive.\<close>

definition sensor_loop :: "('o, 'v) json_api \<Rightarrow> nat \<Rightarrow> 'o entity_config \<Rightarrow> 'h loop_code" where
  "sensor_loop J i cf = loop_for J Sensor_Component (Ret None) (\<lambda>pk. co_return ()) i cf"

definition binary_sensor_loop :: "('o, 'v) json_api \<Rightarrow> nat \<Rightarrow> 'o entity_config \<Rightarrow> 'h loop_code" where
  "binary_sensor_loop J i cf = loop_for J BinarySensor_Component (Ret None) (\<lambda>pk. co_return ()) i cf"

lemma loops_of:
  "loop_of J (button_entity J C bt) (button_loop J i bt)"
  "loop_of J (cover_entity J C cv) (cover_loop J i cv)"
  "loop_of J (sensor_entity J C cf) (sensor_loop J i cf)"
  "loop_of J (binary_sensor_entity J C cf) (binary_sensor_loop J i cf)"
  by (simp_all add: button_loop_def cover_loop_def sensor_loop_def binary_sensor_loop_def loop_for_of
      command_subscription_run eval_Ret button_entity_def button_discovery_impl_def button_subscribe_impl_def
      cover_entity_def cover_discovery_impl_def cover_subscribe_impl_def sensor_entity_def sensor_discovery_impl_def
      sensor_subscribe_impl_def binary_sensor_entity_def binary_sensor_discovery_impl_def binary_sensor_subscribe_impl_def)

section \<open>Appliances\<close>

text \<open>
  What a program may run on a client: the entities as the factories create them, with their unique id
  and their handlers; a cover has an explicit stop payload.
\<close>

datatype 'h appliance =
    A_Button string 'h
  | A_Cover string string 'h 'h 'h
  | A_Sensor string
  | A_Binary_Sensor string

fun appliance_loop :: "('o, 'v) json_api \<Rightarrow> nat \<Rightarrow> 'h appliance \<Rightarrow> 'h loop_code res" where
  "appliance_loop J i (A_Button uid h) = map_res (button_loop J i) (button_of J uid h)"
| "appliance_loop J i (A_Cover uid stop ho hc hs) = map_res (cover_loop J i) (cover_with_stop J uid stop ho hc hs)"
| "appliance_loop J i (A_Sensor uid) = map_res (sensor_loop J i) (sensor_of J uid)"
| "appliance_loop J i (A_Binary_Sensor uid) = map_res (binary_sensor_loop J i) (binary_sensor_of J uid)"

text \<open>Its discovery document.\<close>

fun appliance_doc :: "('o, 'v) json_api \<Rightarrow> 'h appliance \<Rightarrow> string res" where
  "appliance_doc J (A_Button uid h) = map_res (\<lambda>cf. cfg_json J (ec_cfg cf)) (button_of J uid h)"
| "appliance_doc J (A_Cover uid stop ho hc hs) =
     map_res (\<lambda>cf. cfg_json J (ec_cfg cf)) (cover_with_stop J uid stop ho hc hs)"
| "appliance_doc J (A_Sensor uid) = map_res (\<lambda>cf. cfg_json J (ec_cfg cf)) (sensor_of J uid)"
| "appliance_doc J (A_Binary_Sensor uid) = map_res (\<lambda>cf. cfg_json J (ec_cfg cf)) (binary_sensor_of J uid)"

text \<open>The handlers that a packet makes an appliance start.\<close>

fun reaction_of :: "'h appliance \<Rightarrow> packet \<Rightarrow> 'h list" where
  "reaction_of (A_Button uid h) pk = (if is_press uid pk then [h] else [])"
| "reaction_of (A_Cover uid stop ho hc hs) pk = cover_reaction uid stop ho hc hs pk"
| "reaction_of _ pk = []"

text \<open>Its name, and what an announcement consists of: discovery, the commands if there are any, availability.\<close>

fun component_of :: "'h appliance \<Rightarrow> string" where
  "component_of (A_Button uid h) = Button_Component"
| "component_of (A_Cover uid stop ho hc hs) = Cover_Component"
| "component_of (A_Sensor uid) = Sensor_Component"
| "component_of (A_Binary_Sensor uid) = BinarySensor_Component"

fun id_of :: "'h appliance \<Rightarrow> string" where
  "id_of (A_Button uid h) = uid"
| "id_of (A_Cover uid stop ho hc hs) = uid"
| "id_of (A_Sensor uid) = uid"
| "id_of (A_Binary_Sensor uid) = uid"

fun has_commands :: "'h appliance \<Rightarrow> bool" where
  "has_commands (A_Sensor uid) = False"
| "has_commands (A_Binary_Sensor uid) = False"
| "has_commands _ = True"

definition appliance_qos :: "'h appliance \<Rightarrow> qos" where
  "appliance_qos a = (if has_commands a then at_least_once else at_most_once)"

definition announcement :: "'h appliance \<Rightarrow> string \<Rightarrow> request list" where
  "announcement a doc =
     [Pub (default_component_discovery_topic (component_of a) (id_of a)) doc (appliance_qos a) True] @
     (if has_commands a
      then [Sub [\<lparr>sub_topic = default_component_command_topic (component_of a) (id_of a), sub_qos = appliance_qos a\<rparr>]]
      else []) @
     [Pub (default_component_availability_topic (component_of a) (id_of a)) ''online'' (appliance_qos a) True]"

lemma availability_default:
  assumes "cfg_contains J Availability_Topic ob = Ret True" and "cfg_at J Availability_Topic ob = Ret t"
    and "cfg_contains J Availability_PayloadAvailable ob = Ret False"
  shows "availability_request J True ob q = Ret (Some (Pub t ''online'' q True))"
  using assms by (simp add: availability_request_def availability_payload_def at_or_def default_PayloadAvailable_def)

lemma button_reacts:
  assumes "json_laws J" and "button_of J uid h = Ret cf"
  shows "reacts (button_loop J i cf) (reaction_of (A_Button uid h))"
  by (simp add: reacts_def button_loop_def loop_for_def button_on_packet_press [OF assms] assign_run co_return_run)

lemma button_loop_setup:
  assumes "json_laws J" and "button_of J uid h = Ret cf"
  shows "lp_subscription (button_loop J i cf) = Ret (Some
      [\<lparr>sub_topic = default_component_command_topic Button_Component uid, sub_qos = at_least_once\<rparr>]) \<and>
    lp_availability (button_loop J i cf) = Ret (Some
      (Pub (default_component_availability_topic Button_Component uid) ''online'' at_least_once True))"
  using json_laws.button_of_holds [OF assms(1), of uid h] assms(2)
  by (auto simp: button_loop_def loop_for_def command_subscription_def availability_default)

lemma cover_reacts:
  assumes "json_laws J" and "cover_with_stop J uid stop ho hc hs = Ret cf"
  shows "reacts (cover_loop J i cf) (reaction_of (A_Cover uid stop ho hc hs))"
  using cover_reaction_single [of uid stop ho hc hs]
  by (fastforce simp: reacts_def cover_loop_def loop_for_def cover_on_packet_stop [OF cover_with_stop_facts [OF assms]]
      assign_run co_return_run split: list.split)

context json_laws
begin

lemma appliance_loop_facts:
  "\<exists>L. appliance_loop J i a = Ret L \<and> lp_client L = i \<and> reads_well L \<and> reacts L (reaction_of a) \<and>
     (\<exists>doc. appliance_doc J a = Ret doc \<and> announcement_of L = announcement a doc)"
proof (cases a)
  case (A_Button uid h)
  obtain cf where cf: "button_of J uid h = Ret cf" "ec_unique_id cf = uid" "ec_qos cf = at_least_once"
    using button_of_holds [of uid h] by blast
  have "lp_client (button_loop J i cf) = i" "lp_discovery (button_loop J i cf) =
      Pub (default_component_discovery_topic Button_Component uid) (cfg_json J (ec_cfg cf)) at_least_once True"
    by (simp_all add: button_loop_def loop_for_def cf)
  with button_reacts [OF json_laws_axioms cf(1)] button_loop_setup [OF json_laws_axioms cf(1), of i] show ?thesis
    by (simp add: A_Button cf reads_well_def announcement_of_def subscription_requests_def availability_requests_def
        announcement_def appliance_qos_def)
next
  case (A_Cover uid stop ho hc hs)
  obtain cf where cf: "cover_with_stop J uid stop ho hc hs = Ret cf" "cover_holds J uid ho hc hs cf"
    using cover_with_stop_holds [of uid stop ho hc hs] by blast
  then have holds: "ec_unique_id cf = uid" "ec_qos cf = at_least_once"
    "cfg_at J Cover_CommandTopic (ec_cfg cf) = Ret (default_component_command_topic Cover_Component uid)"
    "availability_request J True (ec_cfg cf) q =
      Ret (Some (Pub (default_component_availability_topic Cover_Component uid) ''online'' q True))" for q
    using availability_default by (auto simp: cover_holds_def)
  from cover_reacts [OF json_laws_axioms cf(1)] show ?thesis
    by (simp add: A_Cover cf) (simp add: cover_loop_def loop_for_def reads_well_def command_subscription_def
        announcement_of_def subscription_requests_def availability_requests_def announcement_def appliance_qos_def holds)
next
  case (A_Sensor uid)
  obtain cf where cf: "sensor_of J uid = Ret cf" by (rule sensor_exists [OF json_laws_axioms])
  note holds = sensor_of_cfg [OF json_laws_axioms cf]
  show ?thesis
    by (simp add: A_Sensor cf) (simp add: sensor_loop_def reads_well_def reacts_def co_return_run availability_default [OF holds(5,4,6)] loop_for_def
        announcement_of_def subscription_requests_def availability_requests_def announcement_def appliance_qos_def holds(1,2))
next
  case (A_Binary_Sensor uid)
  obtain f where f: "binary_sensor_factory J uid = Ret f" "f_unique_id f = uid" "f_qos f = at_most_once"
    and av: "cfg_at J Availability_Topic (f_cfg f) = Ret (default_component_availability_topic BinarySensor_Component uid)"
      "cfg_contains J Availability_Topic (f_cfg f) = Ret True"
      "cfg_contains J Availability_PayloadAvailable (f_cfg f) = Ret False"
    using binary_sensor_factory_holds [of uid] by blast
  show ?thesis
    by (simp add: A_Binary_Sensor binary_sensor_of_def f)
      (simp add: binary_sensor_loop_def reads_well_def reacts_def co_return_run availability_default [OF av(2,1,3)] loop_for_def binary_sensor_create_def
        announcement_of_def subscription_requests_def availability_requests_def announcement_def appliance_qos_def f)
qed

end

end
