(* ===== verification/Loop_System.thy ===== *)
theory Loop_System
  imports Loop_Runs
begin

text \<open>
  Any number of run loops on one shared connection, each with a client and a coroutine of its own,
  interleaved with the pump and all other coroutines. Seen from one loop the steps of the others are
  steps of the strand that leave its coroutine alone, so that what \<open>Loop_Runs\<close> shows of one loop holds
  of each.
\<close>

section \<open>Steps of the system\<close>

text \<open>Coroutine \<open>p\<close> runs the loop \<open>Ls p\<close>; \<open>Others\<close> is a step of none of the loops.\<close>

type_synonym 'h loops = "nat \<Rightarrow> 'h loop_code option"

type_synonym ('w, 'h) system = "'w shared_strand \<times> (nat \<Rightarrow> 'h entity_loop)"

datatype system_event =
    Others shared_event
  | Own nat loop_event

inductive system_step ::
  "ext_codes \<Rightarrow> 'h loops \<Rightarrow> ('w, 'h) system \<Rightarrow> system_event \<Rightarrow> ('w, 'h) system \<Rightarrow> bool"
  for E Ls where
  others: "shared_step E True s e s' \<Longrightarrow> (\<forall>p L. Ls p = Some L \<longrightarrow> foreign (lp_client L) p s e s') \<Longrightarrow>
    system_step E Ls (s, ls) (Others e) (s', ls)"
| own: "Ls p = Some L \<Longrightarrow> loop_step E L p (s, ls p) ev (s', l') \<Longrightarrow> moves ev \<Longrightarrow>
    system_step E Ls (s, ls) (Own p ev) (s', ls(p := l'))"

inductive system_trace ::
  "ext_codes \<Rightarrow> 'h loops \<Rightarrow> ('w, 'h) system \<Rightarrow> (('w, 'h) system \<times> system_event) list \<Rightarrow> ('w, 'h) system \<Rightarrow> bool"
  for E Ls c0 where
  system_Nil: "system_trace E Ls c0 [] c0"
| system_snoc: "system_trace E Ls c0 tr c \<Longrightarrow> system_step E Ls c ev c' \<Longrightarrow> system_trace E Ls c0 (tr @ [(c, ev)]) c'"

text \<open>The loops have different clients.\<close>

definition apart_loops :: "'h loops \<Rightarrow> bool" where
  "apart_loops Ls \<longleftrightarrow> (\<forall>p q L M. Ls p = Some L \<longrightarrow> Ls q = Some M \<longrightarrow> p \<noteq> q \<longrightarrow> lp_client L \<noteq> lp_client M)"

section \<open>What one loop sees\<close>

fun shown :: "loop_event \<Rightarrow> shared_event" where
  "shown (Env e) = e"
| "shown (Inner e) = e"
| "shown _ = Silent"

fun view :: "nat \<Rightarrow> ('w, 'h) system \<Rightarrow> 'w shared_strand \<times> 'h entity_loop" where
  "view p (s, ls) = (s, ls p)"

fun view_event :: "nat \<Rightarrow> system_event \<Rightarrow> loop_event" where
  "view_event p (Others e) = Env e"
| "view_event p (Own q ev) = (if q = p then ev else Env (shown ev))"

definition seen_by :: "nat \<Rightarrow> (('w, 'h) system \<times> system_event) list \<Rightarrow>
    (('w shared_strand \<times> 'h entity_loop) \<times> loop_event) list" where
  "seen_by p tr = map (\<lambda>(c, ev). (view p c, view_event p ev)) tr"

definition system_inv :: "'h loops \<Rightarrow> ('w, 'h) system \<Rightarrow> bool" where
  "system_inv Ls c \<longleftrightarrow> (\<forall>p L. Ls p = Some L \<longrightarrow> loop_inv L p (view p c))"

lemma loop_at_popping: "loop_at i c st \<Longrightarrow> popping c j \<Longrightarrow> j = i"
  by (cases st) auto

lemma events_own:
  "begin_event i s = e \<Longrightarrow> e = Silent \<or> e = Missed i \<or> (\<exists>r. e = Took i r)"
  "resume_event i s = e \<Longrightarrow> e = Missed i \<or> (\<exists>r. e = Took i r)"
  by (auto simp: begin_event_def resume_event_def split: list.splits if_splits)

text \<open>What the pump does is never ruled out by \<open>foreign\<close>.\<close>

lemma pump_foreign:
  assumes "loop_inv L p (s, l)" and at: "procs s x = Some (Pumping again)"
  shows "foreign (lp_client L) p s (Arrived r) (pump_end again r x s)"
proof -
  let ?s = "pump_end again r x s"
  note inv = loop_invD [OF assms(1)]
  have "x \<noteq> p" using inv(5) at by (cases "stage l") auto
  have "shared_inv s" using inv(1) by (simp add: sched_inv_def)
  then obtain t where "woken s t" and t: "?s = (if again \<and> \<not> failed (pump_result r) then pump_begin again x t
       else enter (Done (pump_result r)) x t)"
    by (rule pump_end_run)
  then have procs: "procs ?s q = procs t q" if "q \<noteq> x" for q using that by (simp add: pump_begin_def)
  have "\<not> popping (procs ?s x) j" for j by (simp add: t pump_begin_def)
  then have "\<not> popping (procs ?s q) (lp_client L)" if "q \<noteq> p" for q
    using procs [of q] woken_popping [OF \<open>woken s t\<close>] inv(4) [OF that] by (cases "q = x") auto
  moreover from \<open>woken s t\<close> have "procs ?s p = procs s p \<or>
      procs s p = Some (Queue_Waiting (lp_client L)) \<and> procs ?s p = Some (Queue_Woken (lp_client L))"
  proof (cases rule: woken_cases [of _ _ p])
    case stays
    with procs \<open>x \<noteq> p\<close> show ?thesis by simp
  next
    case (woken j)
    then have "j = lp_client L" using loop_at_popping [OF inv(5)] by simp
    with woken procs \<open>x \<noteq> p\<close> show ?thesis by simp
  qed
  ultimately show ?thesis by (simp add: foreign_def)
qed

text \<open>A step of a loop is a step of the strand, of its coroutine and on its client.\<close>

lemma own_step_shared:
  assumes "loop_step E L q (s, l) ev (s', l')" and "moves ev" and inv: "loop_inv L q (s, l)"
  shows "shared_step E True s (shown ev) s'" and "x \<noteq> q \<Longrightarrow> procs s' x = procs s x"
    and "shown ev \<noteq> Dropped j" and "shown ev = Took j r \<Longrightarrow> j = lp_client L" and "shown ev \<noteq> Arrived r'"
proof -
  let ?i = "lp_client L"
  note inv = loop_invD [OF inv]
  have "shared_step E True s (shown ev) s' \<and> (\<forall>x. x \<noteq> q \<longrightarrow> procs s' x = procs s x) \<and>
    (shown ev = Silent \<or> shown ev = Missed ?i \<or> (\<exists>r. shown ev = Took ?i r))"
    using assms(1)
  proof (cases rule: loop_step.cases)
    case env
    with assms(2) show ?thesis by simp
  next
    case begin_loop
    moreover have "procs s' = (procs s)(q \<mapsto> (case queue_of s ?i of [] \<Rightarrow> Queue_Waiting ?i | r # _ \<Rightarrow> Popped r))"
      unfolding begin_loop by (rule begin_procs) (cases "queue_of s ?i"; simp)
    ultimately show ?thesis using events_own(1) by auto
  next
    case (resume_loop ec)
    obtain r rs where "queue_of s ?i = r # rs"
      using inv(2) resume_loop unfolding solo_inv_def by (metis neq_Nil_conv)
    then have "procs s' x = procs s x" if "x \<noteq> q" for x using that by (simp add: resume_loop resume_next)
    with resume_loop shared_step.resume_recv [of s q ?i E True ec] show ?thesis using events_own(2) by auto
  next
    case (react r rqs)
    then show ?thesis using shared_step.collect [of s q E True] by simp
  next
    case (discovered err rqs)
    then have "procs s q = None" using inv(5) by simp
    with discovered discovered_at [OF discovered(4), of ?i q s] shared_step.begin_subscribe [OF _ inv(3), of q E True]
      shared_step.elsewhere [of s s E True] show ?thesis by auto
  next
    case (answered ts err)
    then show ?thesis using shared_step.end_subscribe [of s q ?i ts E True err] by (simp add: subscribe_end_run)
  next
    case (subscribed ts err rqs)
    then show ?thesis using shared_step.collect [of s q E True] by simp
  next
    case (available err rqs)
    then show ?thesis using shared_step.elsewhere [of s s E True] by simp
  qed
  then show "shared_step E True s (shown ev) s'" and "x \<noteq> q \<Longrightarrow> procs s' x = procs s x"
    and "shown ev \<noteq> Dropped j" and "shown ev = Took j r \<Longrightarrow> j = lp_client L" and "shown ev \<noteq> Arrived r'"
    by auto
qed

lemma system_step_view:
  assumes "system_step E Ls c ev c'" and "apart_loops Ls" and "system_inv Ls c" and "Ls p = Some L"
  shows "loop_step E L p (view p c) (view_event p ev) (view p c')"
  using assms(1)
proof (cases rule: system_step.cases)
  case (others s e s' ls)
  with assms(4) show ?thesis by (auto intro: loop_step.env)
next
  case (own q M s ls ev' s' l')
  show ?thesis
  proof (cases "q = p")
    case True
    with own assms(4) show ?thesis by simp
  next
    case False
    have inv: "loop_inv M q (s, ls q)" "loop_inv L p (s, ls p)"
      using assms(3,4) own(1,4) by (auto simp: system_inv_def)
    note step = own_step_shared [OF own(5,6) inv(1)]
    have other: "lp_client M \<noteq> lp_client L" using assms(2,4) own(4) False by (auto simp: apart_loops_def)
    have "\<not> popping (procs s' x) (lp_client L)" if "x \<noteq> p" for x
    proof (cases "x = q")
      case True
      with loop_at_popping [OF loop_invD(5) [OF loop_step_inv [OF own(5) inv(1)]]] other show ?thesis by fastforce
    next
      case False
      with step(2) loop_invD(4) [OF inv(2) that] show ?thesis by simp
    qed
    with step(2-4) other False have "foreign (lp_client L) p s (shown ev') s'" by (auto simp: foreign_def)
    from loop_step.env [OF step(1) this] own False show ?thesis by simp
  qed
qed

lemma system_step_inv:
  assumes "system_step E Ls c ev c'" and "apart_loops Ls" and "system_inv Ls c"
  shows "system_inv Ls c'"
  unfolding system_inv_def
proof (intro allI impI)
  fix p L assume "Ls p = Some L"
  with loop_step_inv [OF system_step_view [OF assms]] assms(3) show "loop_inv L p (view p c')"
    by (simp add: system_inv_def)
qed

lemma system_trace_view:
  assumes "system_trace E Ls c0 tr c" and "apart_loops Ls" and "system_inv Ls c0"
  shows "system_inv Ls c" and "Ls p = Some L \<Longrightarrow> loop_trace E L p (view p c0) (seen_by p tr) (view p c)"
  using assms
proof (induction rule: system_trace.induct)
  case system_Nil
  { case 1 then show ?case by simp
  next
    case 2 then show ?case by (simp add: seen_by_def loop_Nil)
  }
next
  case (system_snoc tr c ev c')
  { case 1 with system_snoc system_step_inv show ?case by blast
  next
    case 2
    with system_snoc.IH have "system_inv Ls c" "loop_trace E L p (view p c0) (seen_by p tr) (view p c)" by blast+
    from loop_snoc [OF this(2) system_step_view [OF system_snoc.hyps(2) 2(2) this(1) 2(1)]]
    show ?case by (simp add: seen_by_def)
  }
qed

text \<open>A system may start when the clients of its loops are alive, and nobody receives on them.\<close>

definition ready_system :: "ext_codes \<Rightarrow> 'h loops \<Rightarrow> 'w shared_strand \<Rightarrow> bool" where
  "ready_system E Ls s \<longleftrightarrow> apart_loops Ls \<and> (\<forall>p L. Ls p = Some L \<longrightarrow> free_client E (lp_client L) p s)"

lemma ready_inv: "ready_system E Ls s \<Longrightarrow> system_inv Ls (s, \<lambda>p. loop_start)"
  by (auto simp: ready_system_def system_inv_def intro: start_inv)

section \<open>What the pump gets and what a loop does\<close>

text \<open>The results that the pump gets for client \<open>i\<close>; those that loop \<open>p\<close> reacts to; its requests.\<close>

fun pumped_by :: "nat \<Rightarrow> ('w, 'h) system \<times> system_event \<Rightarrow> recv_result list" where
  "pumped_by i ((s, ls), Others e) = meant i (s, e)"
| "pumped_by i (c, Own p ev) = []"

definition pumped :: "nat \<Rightarrow> (('w, 'h) system \<times> system_event) list \<Rightarrow> recv_result list" where
  "pumped i tr = concat (map (pumped_by i) tr)"

fun of_loop :: "nat \<Rightarrow> (loop_event \<Rightarrow> 'a list) \<Rightarrow> system_event \<Rightarrow> 'a list" where
  "of_loop p f (Own q ev) = (if q = p then f ev else [])"
| "of_loop p f (Others e) = []"

definition handled :: "nat \<Rightarrow> (('w, 'h) system \<times> system_event) list \<Rightarrow> recv_result list" where
  "handled p tr = concat (map (\<lambda>(c, ev). of_loop p reacted ev) tr)"

definition asked_by :: "nat \<Rightarrow> (('w, 'h) system \<times> system_event) list \<Rightarrow> request list" where
  "asked_by p tr = concat (map (\<lambda>(c, ev). of_loop p asked ev) tr)"

text \<open>The errors with which its requests are refused.\<close>

definition refused_to :: "nat \<Rightarrow> (('w, 'h) system \<times> system_event) list \<Rightarrow> error_code list" where
  "refused_to p tr = concat (map (\<lambda>(c, ev). of_loop p refused ev) tr)"

text \<open>
  Loop \<open>p\<close> may well end with \<open>e\<close>: a failure which it has reacted to and which is no session reset, or with which
  a request of its setup has been refused.
\<close>

definition ended_by :: "nat \<Rightarrow> (('w, 'h) system \<times> system_event) list \<Rightarrow> error_code \<Rightarrow> bool" where
  "ended_by p tr e \<longleftrightarrow> failed e \<and>
     (Inl e \<in> set (handled p tr) \<and> e \<noteq> make_error_code SessionReset \<or> e \<in> set (refused_to p tr))"

lemma seen_handled: "reactions (seen_by p tr) = handled p tr" "requests (seen_by p tr) = asked_by p tr"
  "refusals (seen_by p tr) = refused_to p tr"
proof -
  have "reacted (view_event p ev) = of_loop p reacted ev" "asked (view_event p ev) = of_loop p asked ev"
    "refused (view_event p ev) = of_loop p refused ev" for ev
    by (cases ev; simp)+
  then show "reactions (seen_by p tr) = handled p tr" "requests (seen_by p tr) = asked_by p tr"
    "refusals (seen_by p tr) = refused_to p tr"
    by (simp_all add: reactions_def handled_def requests_def asked_by_def refusals_def refused_to_def seen_by_def
        case_prod_unfold comp_def)
qed

lemma seen_pumped:
  assumes "system_trace E Ls c0 tr c" and "apart_loops Ls" and "system_inv Ls c0"
  shows "arrivals i (seen_by p tr) = pumped i tr"
  using assms
proof (induction rule: system_trace.induct)
  case system_Nil
  then show ?case by (simp add: arrivals_def pumped_def seen_by_def)
next
  case (system_snoc tr c ev c')
  have inv: "system_inv Ls c" by (rule system_trace_view(1) [OF system_snoc.hyps(1) system_snoc.prems])
  from system_snoc.hyps(2) have "arrived i (view p c, view_event p ev) = pumped_by i (c, ev)"
  proof (cases rule: system_step.cases)
    case (own q M s ls ev' s' l')
    from inv own have "loop_inv M q (s, ls q)" by (simp add: system_inv_def)
    from own_step_shared(5) [OF own(5,6) this] have "meant i (s, shown ev') = []" by (cases "shown ev'") auto
    moreover have "arrived i ((s, ls p), ev') = []" using own(6) by (cases ev') simp_all
    ultimately show ?thesis using own by simp
  qed simp
  with system_snoc show ?case by (simp add: arrivals_def pumped_def seen_by_def)
qed

text \<open>What holds of every loop in every run of a system.\<close>

lemma system_from_start:
  assumes "ready_system E Ls s0" and "system_trace E Ls (s0, \<lambda>p. loop_start) tr (s, ls)"
    and "Ls p = Some L" and "reads_well L" and "reacts L f"
  shows "queue_of s0 (lp_client L) @ pumped (lp_client L) tr = handled p tr @ pending (lp_client L) p s \<and>
    started (ls p) = concat (map (reaction f) (handled p tr)) \<and> \<not> fails (stage (ls p)) \<and>
    (\<exists>rest. asked_by p tr @ rest = concat (replicate (resets (handled p tr)) (announcement_of L)) \<and>
      (\<not> over (stage (ls p)) \<longrightarrow> rest = to_ask L (stage (ls p))))"
proof -
  have apart: "apart_loops Ls" and free: "free_client E (lp_client L) p s0"
    using assms(1,3) by (simp_all add: ready_system_def)
  note inv = ready_inv [OF assms(1)]
  from system_trace_view(2) [OF assms(2) apart inv assms(3)]
  have run: "loop_trace E L p (s0, loop_start) (seen_by p tr) (s, ls p)" by simp
  show ?thesis
    using loop_from_start [OF free assms(4,5) run] loop_trace_asked [OF run assms(4)]
    by (simp add: seen_handled seen_pumped [OF assms(2) apart inv] loop_start_def)
qed

section \<open>Fair runs\<close>

definition fair_system ::
  "ext_codes \<Rightarrow> 'h loops \<Rightarrow> (nat \<Rightarrow> ('w, 'h) system) \<Rightarrow> (nat \<Rightarrow> system_event) \<Rightarrow> bool" where
  "fair_system E Ls run ev \<longleftrightarrow> (\<forall>n. system_step E Ls (run n) (ev n) (run (Suc n))) \<and>
     (\<forall>p L n. Ls p = Some L \<longrightarrow>
       (\<exists>m\<ge>n. (\<exists>e. ev m = Own p e) \<or> \<not> can_go (lp_client L) p (view p (run m))))"

lemma fair_system_prefix:
  assumes "fair_system E Ls run ev"
  shows "system_trace E Ls (run 0) (steps_before run ev n) (run n)"
proof (induction n)
  case 0
  show ?case by (simp add: steps_before_def system_Nil)
next
  case (Suc n)
  from assms have "system_step E Ls (run n) (ev n) (run (Suc n))" by (simp add: fair_system_def)
  from system_snoc [OF Suc this] show ?case by (simp add: steps_before_def)
qed

lemma fair_system_view:
  assumes fair: "fair_system E Ls run ev" and "apart_loops Ls" and "system_inv Ls (run 0)" and L: "Ls p = Some L"
  shows "fair_loop E L p (\<lambda>n. view p (run n)) (\<lambda>n. view_event p (ev n))"
proof -
  have step: "system_step E Ls (run n) (ev n) (run (Suc n))" for n using fair by (simp add: fair_system_def)
  have "system_inv Ls (run n)" for n
    using system_trace_view(1) [OF fair_system_prefix [OF fair] assms(2,3)] .
  note one = system_step_view [OF step assms(2) this L]
  have own: "moves (view_event p (ev m))" if "ev m = Own p e" for m e
    using step [of m] by (cases rule: system_step.cases) (use that in auto)
  have "\<exists>m\<ge>n. moves (view_event p (ev m)) \<or> \<not> can_go (lp_client L) p (view p (run m))" for n
    using fair L own unfolding fair_system_def by metis
  with one show ?thesis by (simp add: fair_loop_def)
qed

lemma steps_seen: "steps_before (\<lambda>n. view p (run n)) (\<lambda>n. view_event p (ev n)) n = seen_by p (steps_before run ev n)"
  by (simp add: steps_before_def seen_by_def)

text \<open>What the pump has got for a loop by some time is handled later, unless the loop is over.\<close>

lemma system_handles:
  assumes "ready_system E Ls s0" and fair: "fair_system E Ls run ev" and start: "run 0 = (s0, \<lambda>p. loop_start)"
    and L: "Ls p = Some L"
  shows "\<exists>m\<ge>n. over (stage (snd (run m) p)) \<or> (\<exists>xs. handled p (steps_before run ev m) =
    queue_of s0 (lp_client L) @ pumped (lp_client L) (steps_before run ev n) @ xs)"
proof -
  have apart: "apart_loops Ls" and free: "free_client E (lp_client L) p s0"
    using assms(1) L by (simp_all add: ready_system_def)
  have inv: "system_inv Ls (run 0)" unfolding start by (rule ready_inv [OF assms(1)])
  have "loop_inv L p (view p (run 0))" using inv L by (simp add: system_inv_def)
  note served = arrivals_reacted [OF fair_system_view [OF fair apart inv L] this, of n, unfolded steps_seen seen_handled]
  have pumped: "arrivals (lp_client L) (seen_by p (steps_before run ev n)) = pumped (lp_client L) (steps_before run ev n)"
    by (rule seen_pumped [OF fair_system_prefix [OF fair] apart inv])
  have "snd (view p (run m)) = snd (run m) p" for m by (cases "run m") simp
  with served show ?thesis unfolding pumped by (simp add: start start_pending [OF free])
qed

text \<open>A loop that is over has ended, and not without a cause.\<close>

lemma system_ends:
  assumes "ready_system E Ls s0" and fair: "fair_system E Ls run ev" and start: "run 0 = (s0, \<lambda>p. loop_start)"
    and L: "Ls p = Some L" and "stage (snd (run m) p) = Ended e"
  shows "Inl e \<in> set (handled p (steps_before run ev m)) \<and> e \<noteq> make_error_code SessionReset \<or>
    e \<in> set (refused_to p (steps_before run ev m))"
proof -
  have apart: "apart_loops Ls" using assms(1) by (simp add: ready_system_def)
  have inv: "system_inv Ls (run 0)" unfolding start by (rule ready_inv [OF assms(1)])
  have "stage (snd (view p (run m))) = Ended e" using assms(5) by (cases "run m") simp
  moreover have "stage (snd (view p (run 0))) \<noteq> Ended e" by (simp add: start loop_start_def)
  ultimately show ?thesis
    by (rule loop_trace_ends [OF system_trace_view(2) [OF fair_system_prefix [OF fair] apart inv L], unfolded seen_handled])
qed

lemma over_persists:
  assumes fair: "fair_system E Ls run ev" and "apart_loops Ls" and "system_inv Ls (run 0)" and L: "Ls p = Some L"
    and "m \<le> n" and "over (stage (snd (run m) p))"
  shows "over (stage (snd (run n) p))"
  using assms(5,6)
proof (induction rule: dec_induct)
  case (step k)
  have at: "snd (view p (run j)) = snd (run j) p" for j by (cases "run j") simp
  have "loop_step E L p (view p (run k)) (view_event p (ev k)) (view p (run (Suc k)))"
    using fair_system_view [OF fair assms(2,3) L] by (simp add: fair_loop_def)
  from loop_step_over [OF this] step show ?case by (simp add: at)
qed simp

text \<open>The loops are over only by a failure, and what they have started, at any time of a run.\<close>

lemma system_at:
  assumes "ready_system E Ls s0" and fair: "fair_system E Ls run ev" and start: "run 0 = (s0, \<lambda>p. loop_start)"
    and L: "Ls p = Some L" and "reads_well L" and "reacts L f"
  shows "queue_of s0 (lp_client L) @ pumped (lp_client L) (steps_before run ev m) =
      handled p (steps_before run ev m) @ pending (lp_client L) p (fst (run m))"
    and "started (snd (run m) p) = concat (map (reaction f) (handled p (steps_before run ev m)))"
    and "over (stage (snd (run m) p)) \<Longrightarrow> \<exists>e. stage (snd (run m) p) = Ended e \<and> ended_by p (steps_before run ev m) e"
    and "\<exists>rest. asked_by p (steps_before run ev m) @ rest =
        concat (replicate (resets (handled p (steps_before run ev m))) (announcement_of L)) \<and>
      (\<not> over (stage (snd (run m) p)) \<longrightarrow> rest = to_ask L (stage (snd (run m) p)))"
proof -
  have "system_trace E Ls (s0, \<lambda>p. loop_start) (steps_before run ev m) (fst (run m), snd (run m))"
    using fair_system_prefix [OF fair, of m] by (simp add: start)
  note now = system_from_start [OF assms(1) this L assms(5,6)]
  from now show "queue_of s0 (lp_client L) @ pumped (lp_client L) (steps_before run ev m) =
      handled p (steps_before run ev m) @ pending (lp_client L) p (fst (run m))"
    and "started (snd (run m) p) = concat (map (reaction f) (handled p (steps_before run ev m)))"
    and "\<exists>rest. asked_by p (steps_before run ev m) @ rest =
        concat (replicate (resets (handled p (steps_before run ev m))) (announcement_of L)) \<and>
      (\<not> over (stage (snd (run m) p)) \<longrightarrow> rest = to_ask L (stage (snd (run m) p)))" by blast+
  from now system_ends [OF assms(1-4)]
  show "over (stage (snd (run m) p)) \<Longrightarrow> \<exists>e. stage (snd (run m) p) = Ended e \<and> ended_by p (steps_before run ev m) e"
    by (cases "stage (snd (run m) p)") (simp_all add: ended_by_def)
qed

lemma system_serves:
  assumes "ready_system E Ls s0" and fair: "fair_system E Ls run ev" and start: "run 0 = (s0, \<lambda>p. loop_start)"
    and L: "Ls p = Some L" and "reads_well L" and "reacts L f"
  shows "\<exists>m\<ge>n. (\<exists>hs. started (snd (run m) p) =
      concat (map (reaction f) (queue_of s0 (lp_client L) @ pumped (lp_client L) (steps_before run ev n))) @ hs) \<or>
    (\<exists>e. stage (snd (run m) p) = Ended e \<and> ended_by p (steps_before run ev m) e)"
  using system_handles [OF assms(1-4), of n] system_at(2,3) [OF assms]
  by (metis concat_append map_append append_assoc)

end
