(* ===== verification/Loop_Example.thy ===== *)
theory Loop_Example
  imports Entity_Loops Loop_System Shared_Runs
begin

text \<open>
  Example runs of loops on a shared connection for the witnesses of \<open>Loop_Claims\<close>: a button alone, which
  a session reset makes announce itself before a press comes in, and a button beside a cover.
\<close>

section \<open>An example run\<close>

text \<open>
  Client 4 has subscribed in coroutine 1, coroutine 2 is the pump's run loop and coroutine 3 the loop of the button. The
  example keeps this shape: what 3 does is \<open>c\<close>, the client has the queue \<open>q\<close> and the topics \<open>ts\<close>.
\<close>

definition served_by :: "shared_pc option \<Rightarrow> recv_result list \<Rightarrow> topic_subopts list \<Rightarrow> sim shared_strand \<Rightarrow> bool" where
  "served_by c q ts s \<longleftrightarrow> clients s = [4] \<and> states s = [4 \<mapsto> \<lparr>sc_queue = q, sc_topics = ts\<rparr>] \<and>
     procs s = (\<lambda>x. if x = 3 then c else if x = 2 then Some (Pumping True)
       else if x = 1 then Some (Done (make_error_code Success)) else None)"

lemma served_queue: "served_by c q ts s \<Longrightarrow> queue_of s 4 = q" "served_by c q ts s \<Longrightarrow> procs s 3 = c"
  by (simp_all add: served_by_def queue_of_def)

lemma served_begin:
  assumes "served_by None [] ts s"
  shows "served_by (Some (Queue_Waiting 4)) [] ts (recv_begin E 4 3 s)" and "begin_event 4 s = Silent"
    and "shared_step E True s Silent (recv_begin E 4 3 s)"
proof -
  have reg: "register_client 4 s = s"
    using assms by (simp add: register_client_def registered_def locks_def served_by_def)
  show "served_by (Some (Queue_Waiting 4)) [] ts (recv_begin E 4 3 s)"
    using assms served_queue(1) [OF assms] by (simp add: recv_begin_def reg) (auto simp: served_by_def fun_eq_iff)
  show silent: "begin_event 4 s = Silent" using served_queue(1) [OF assms] by (simp add: begin_event_def)
  have "procs s 3 = None" "states s 4 \<noteq> None" "\<forall>q. \<not> popping (procs s q) 4"
    using assms by (simp_all add: served_by_def)
  with shared_step.begin_recv [of s 3 4 True E] silent show "shared_step E True s Silent (recv_begin E 4 3 s)" by simp
qed

lemma served_resume:
  assumes "served_by (Some (Queue_Woken 4)) [r] ts s"
  shows "served_by (Some (Popped r)) [] ts (recv_resume E 4 ec 3 s)" and "resume_event 4 s = Took 4 r"
proof -
  note q = served_queue(1) [OF assms]
  show "served_by (Some (Popped r)) [] ts (recv_resume E 4 ec 3 s)"
    using assms by (simp add: resume_next [OF q]) (auto simp: served_by_def change_state_def fun_eq_iff)
  show "resume_event 4 s = Took 4 r" by (simp add: resume_event_def q)
qed

lemma served_leave: "served_by c q ts s \<Longrightarrow> served_by None q ts (leave 3 s)"
  "served_by c q ts s \<Longrightarrow> served_by (Some x) q ts (enter x 3 s)"
  by (auto simp: served_by_def fun_eq_iff)

lemma served_pump:
  assumes s: "served_by (Some (Queue_Waiting 4)) [] ts s" and "sched_inv s"
    and "relevant s 4 r = [r]" and "\<not> failed (pump_result r)"
  shows "served_by (Some (Queue_Woken 4)) [r] ts (pump_end True r 2 s)"
    and "lp_client L = 4 \<Longrightarrow> loop_step E L 3 (s, l) (Env (Arrived r)) (pump_end True r 2 s, l)"
proof -
  have inv: "shared_inv s" using assms(2) by (simp add: sched_inv_def)
  obtain t where pushed: "pushed s t (\<lambda>i. relevant s i r)" and "woken s t"
    and t: "pump_end True r 2 s = pump_begin True 2 t"
    by (rule pump_end_run [OF inv, of r True 2]) (simp add: assms(4))
  have at: "procs s 3 = Some (Queue_Waiting 4)" "procs s 2 = Some (Pumping True)" using s by (simp_all add: served_by_def)
  have woken3: "procs (pump_end True r 2 s) 3 = Some (Queue_Woken 4)" and queue: "queue_of (pump_end True r 2 s) 4 = [r]"
    using waiting_woken [OF assms(2) at, of r] assms(3) by simp_all
  have others: "procs (pump_end True r 2 s) x = procs s x" if "x \<noteq> 3" for x
    using \<open>woken s t\<close> by (cases rule: woken_cases [of _ _ x]) (use s that in \<open>auto simp: t pump_begin_def served_by_def split: if_splits\<close>)
  have "topics_of t 4 = ts" using pushed_topics [OF pushed, of 4] s by (simp add: topics_of_def served_by_def)
  moreover have live: "states t i = None \<longleftrightarrow> i \<noteq> 4" for i
    using pushed_live [OF pushed, of i] s by (auto simp: served_by_def)
  moreover have "queue_of t 4 = [r]" using queue by (simp add: t queue_of_simps)
  ultimately have "states t 4 = Some \<lparr>sc_queue = [r], sc_topics = ts\<rparr>"
    by (cases "states t 4") (auto simp: topics_of_def queue_of_def)
  with live have states: "states t = [4 \<mapsto> \<lparr>sc_queue = [r], sc_topics = ts\<rparr>]" by (auto simp: fun_eq_iff)
  moreover have "clients t = [4]" using pushed s by (simp add: pushed_def served_by_def)
  ultimately show "served_by (Some (Queue_Woken 4)) [r] ts (pump_end True r 2 s)"
    using woken3 others s by (auto simp: served_by_def fun_eq_iff t pump_begin_def remove_expired_clients_def)
  have "foreign 4 3 s (Arrived r) (pump_end True r 2 s)"
    using woken3 others at s by (auto simp: foreign_def served_by_def)
  with shared_step.end_pump [OF at(2)]
  show "lp_client L = 4 \<Longrightarrow> loop_step E L 3 (s, l) (Env (Arrived r)) (pump_end True r 2 s, l)" by (auto intro: loop_step.env)
qed

text \<open>One turn of the loop: it receives, waits, is woken by the pump and reacts.\<close>

lemma served_turn:
  assumes "loop_trace E L 3 c0 tr0 (s, l)" and "loop_inv L 3 c0" and "lp_client L = 4"
    and s: "served_by None [] ts s" and "stage l = Ready"
    and rel: "\<And>t :: sim shared_strand. clients t = [4] \<Longrightarrow> states t 4 \<noteq> None \<Longrightarrow> topics_of t 4 = ts \<Longrightarrow> relevant t 4 r = [r]"
    and "\<not> failed (pump_result r)" and got: "loop_received L r (l\<lparr>stage := Receiving_Result\<rparr>) = (l', rqs)"
  shows "\<exists>tr s'. loop_trace E L 3 c0 (tr0 @ tr) (s', l') \<and> served_by None [] ts s' \<and>
    arrivals 4 tr = [r] \<and> reactions tr = [r] \<and> requests tr = rqs"
proof -
  let ?l = "l\<lparr>stage := Receiving_Result\<rparr>" and ?s1 = "recv_begin E 4 3 s"
  let ?s2 = "pump_end True r 2 ?s1" let ?s3 = "recv_resume E 4 default_error 3 ?s2"
  have s1: "served_by (Some (Queue_Waiting 4)) [] ts ?s1" by (rule served_begin(1) [OF s])
  have "loop_step E L 3 (s, l) (Inner Silent) (?s1, ?l)"
    using loop_step.begin_loop [where l = l and s = s and E = E and L = L and p = 3] served_begin(2) [OF s] served_begin(3) [OF s] assms(3,5) by simp
  with assms(1) have t1: "loop_trace E L 3 c0 (tr0 @ [((s, l), Inner Silent)]) (?s1, ?l)" by (rule loop_snoc)
  have "sched_inv ?s1" using loop_invD(1) [OF loop_trace_facts(1) [OF t1 assms(2)]] .
  moreover have r: "relevant ?s1 4 r = [r]" by (rule rel) (use s1 in \<open>simp_all add: served_by_def topics_of_def\<close>)
  ultimately have s2: "served_by (Some (Queue_Woken 4)) [r] ts ?s2"
    and step2: "loop_step E L 3 (?s1, ?l) (Env (Arrived r)) (?s2, ?l)"
    using served_pump [OF s1] assms(3,7) by blast+
  from loop_snoc [OF t1 step2]
  have t2: "loop_trace E L 3 c0 (tr0 @ [((s, l), Inner Silent), ((?s1, ?l), Env (Arrived r))]) (?s2, ?l)" by simp
  have "loop_step E L 3 (?s2, ?l) (Inner (Took 4 r)) (?s3, ?l)"
    using loop_step.resume_loop [where l = ?l and s = ?s2 and E = E and L = L and p = 3 and ec = default_error] served_resume(2) [OF s2] served_queue(2) [OF s2] assms(3)
    by simp
  from loop_snoc [OF t2 this]
  have t3: "loop_trace E L 3 c0 (tr0 @ [((s, l), Inner Silent), ((?s1, ?l), Env (Arrived r)),
      ((?s2, ?l), Inner (Took 4 r))]) (?s3, ?l)" by simp
  have s3: "served_by (Some (Popped r)) [] ts ?s3" by (rule served_resume(1) [OF s2])
  have "loop_step E L 3 (?s3, ?l) (React r rqs) (leave 3 ?s3, l')"
    using loop_step.react [where l = ?l and s = ?s3 and E = E and L = L and p = 3 and r = r and l' = l' and rqs = rqs] served_queue(2) [OF s3] got by simp
  from loop_snoc [OF t3 this] served_leave(1) [OF s3] r show ?thesis
    by (intro exI [of _ "[((s, l), Inner Silent), ((?s1, ?l), Env (Arrived r)),
      ((?s2, ?l), Inner (Took 4 r)), ((?s3, ?l), React r rqs)]"] exI [of _ "leave 3 ?s3"])
      (simp add: arrivals_def reactions_def requests_def)
qed

definition b1_press :: publish_packet where
  "b1_press = \<lparr>pk_id = 0, pk_topic = default_component_command_topic Button_Component ''b1'',
     pk_payload = ''PRESS'', pk_qos = at_most_once, pk_retain = False\<rparr>"

text \<open>The client has subscribed to \<open>ts\<close>, and the pump runs.\<close>

definition example_start :: "topic_subopts list \<Rightarrow> sim shared_strand" where
  "example_start ts = pump_begin True 2 (subscribe_end 4 ts (make_error_code Success) 1
     (enter (Subscribing 4 ts) 1 (make_client 4 (shared_fresh idle_sim default_config))))"

lemma example_start_served: "served_by None [] [t] (example_start [t])"
  by (auto simp: example_start_def served_by_def pump_begin_def subscribe_end_run failed_def make_error_code_def
      shared_fresh_def make_client_def empty_state_def change_state_def register_client_def registered_def
      register_topics_def remove_expired_clients_def fun_eq_iff)

lemma example_start_reachable: "shared_reachable E True (example_start ts)"
  unfolding example_start_def
  by (intro reachable_step [OF _ shared_step.begin_pump] reachable_step [OF _ shared_step.end_subscribe]
      reachable_step [OF _ shared_step.begin_subscribe] reachable_step [OF _ shared_step.make] reachable_fresh)
    (simp_all add: shared_fresh_def make_client_def subscribe_end_run)

lemma example_start_free: "free_client E 4 3 (example_start [t])"
  using example_start_reachable [of E "[t]"] example_start_served [of t] by (simp add: free_client_def served_by_def)

definition b1_topic :: topic_subopts where
  "b1_topic = \<lparr>sub_topic = default_component_command_topic Button_Component ''b1'', sub_qos = at_least_once\<rparr>"

text \<open>The three answers of an announcement.\<close>

lemma served_setup:
  assumes "loop_trace E L 3 c0 tr0 (s, l)" and "lp_client L = 4" and s: "served_by None [] ts s"
    and "stage l = Discovering" and "lp_subscription L = Ret (Some ts)" and "lp_availability L = Ret (Some rq)"
    and "register_topics ts ts = ts"
  shows "\<exists>tr s'. loop_trace E L 3 c0 (tr0 @ tr) (s', l\<lparr>stage := Ready\<rparr>) \<and> served_by None [] ts s' \<and>
    arrivals 4 tr = [] \<and> reactions tr = [] \<and> requests tr = [Sub ts, rq] \<and>
    (\<forall>x \<in> set tr. moves (snd x) \<and> (\<exists>y q. served_by y q ts (fst (fst x))))"
proof -
  let ?ok = "make_error_code Success" let ?l1 = "l\<lparr>stage := Subscribing_Topics ts\<rparr>"
    and ?l2 = "l\<lparr>stage := Updating_Availability\<rparr>"
  let ?s1 = "enter (Subscribing 4 ts) 3 s" let ?s2 = "subscribe_end 4 ts ?ok 3 ?s1" let ?s3 = "leave 3 ?s2"
  have "loop_step E L 3 (s, l) (Answer ?ok [Sub ts]) (?s1, ?l1)"
    using loop_step.discovered [where l = l and L = L and err = ?ok and l' = ?l1 and s = s and p = 3] assms(2,4,5)
    by (simp add: loop_discovered_def start_subscribe_def)
  from loop_snoc [OF assms(1) this]
  have t1: "loop_trace E L 3 c0 (tr0 @ [((s, l), Answer ?ok [Sub ts])]) (?s1, ?l1)" .
  have "loop_step E L 3 (?s1, ?l1) (Inner Silent) (?s2, ?l1)"
    using loop_step.answered [where l = ?l1 and L = L and s = ?s1 and p = 3 and ts = ts and err = ?ok] assms(2) by simp
  from loop_snoc [OF t1 this] have t2: "loop_trace E L 3 c0
      (tr0 @ [((s, l), Answer ?ok [Sub ts]), ((?s1, ?l1), Inner Silent)]) (?s2, ?l1)" by simp
  have "loop_step E L 3 (?s2, ?l1) (Answer ?ok [rq]) (?s3, ?l2)"
    using loop_step.subscribed [where l = ?l1 and L = L and err = ?ok and l' = ?l2 and s = ?s2 and p = 3 and ts = ts]
      assms(6) by (simp add: loop_subscribed_def loop_availability_def subscribe_end_run)
  from loop_snoc [OF t2 this] have t3: "loop_trace E L 3 c0 (tr0 @ [((s, l), Answer ?ok [Sub ts]),
      ((?s1, ?l1), Inner Silent), ((?s2, ?l1), Answer ?ok [rq])]) (?s3, ?l2)" by simp
  have "loop_step E L 3 (?s3, ?l2) (Answer ?ok []) (?s3, l\<lparr>stage := Ready\<rparr>)"
    by (rule loop_step.available) (simp_all add: loop_available_def)
  from loop_snoc [OF t3 this]
  have "loop_trace E L 3 c0 (tr0 @ [((s, l), Answer ?ok [Sub ts]), ((?s1, ?l1), Inner Silent),
      ((?s2, ?l1), Answer ?ok [rq]), ((?s3, ?l2), Answer ?ok [])]) (?s3, l\<lparr>stage := Ready\<rparr>)" by simp
  moreover have s2: "served_by (Some (Done ?ok)) [] ts ?s2"
    using s assms(7)
    by (auto simp: served_by_def subscribe_end_run register_client_def registered_def locks_def change_state_def fun_eq_iff)
  moreover note served_leave(1) [OF s2]
  moreover have "\<exists>y q. served_by y q ts s" "\<exists>y q. served_by y q ts ?s1" "\<exists>y q. served_by y q ts ?s2" "\<exists>y q. served_by y q ts ?s3"
    using s served_leave [OF s] s2 served_leave(1) [OF s2] by blast+
  ultimately show ?thesis
    by (intro exI [of _ "[((s, l), Answer ?ok [Sub ts]), ((?s1, ?l1), Inner Silent), ((?s2, ?l1), Answer ?ok [rq]),
        ((?s3, ?l2), Answer ?ok [])]"] exI [of _ ?s3]) (simp add: arrivals_def reactions_def requests_def)
qed

text \<open>A session reset, then a press, then the loop waits again.\<close>

lemma example_trace:
  assumes "button_of alist_json ''b1'' (7::nat) = Ret cf"
  obtains tr s l where "loop_trace sim_codes (button_loop alist_json 4 cf) 3 (example_start [b1_topic], loop_start) tr (s, l)"
    and "arrivals 4 tr = [Inl (make_error_code SessionReset), Inr (Publish b1_press)]"
    and "reactions tr = [Inl (make_error_code SessionReset), Inr (Publish b1_press)]"
    and "stage l = Receiving_Result" and "procs s 3 = Some (Queue_Waiting 4)"
proof -
  let ?L = "button_loop alist_json 4 cf" and ?reset = "Inl (make_error_code SessionReset)"
    and ?press = "Inr (Publish b1_press)" and ?c0 = "(example_start [b1_topic], loop_start :: nat entity_loop)"
  have client: "lp_client ?L = 4" by (simp add: button_loop_def loop_for_def)
  have react: "reacts ?L (reaction_of (A_Button ''b1'' 7))" by (rule button_reacts [OF alist.json_laws_axioms assms])
  obtain rq where sub: "lp_subscription ?L = Ret (Some [b1_topic])" "lp_availability ?L = Ret (Some rq)"
    using button_loop_setup [OF alist.json_laws_axioms assms, of 4] by (simp add: b1_topic_def)
  have inv: "loop_inv ?L 3 ?c0"
    using start_inv [of sim_codes ?L 3 "example_start [b1_topic]"] example_start_free by (simp add: client)
  have start: "stage (loop_start :: nat entity_loop) = Ready" by (simp add: loop_start_def)
  obtain tr1 s1 where t1: "loop_trace sim_codes ?L 3 ?c0 ([] @ tr1) (s1, loop_start\<lparr>stage := Discovering\<rparr>)"
    and s1: "served_by None [] [b1_topic] s1" and e1: "arrivals 4 tr1 = [?reset]" "reactions tr1 = [?reset]"
    using served_turn [OF loop_Nil [of sim_codes] inv client example_start_served start, of ?reset
        "loop_start\<lparr>stage := Discovering\<rparr>" "[lp_discovery ?L]"]
    by (auto simp: relevant_def pump_result_def loop_received_def)
  have same: "register_topics [b1_topic] [b1_topic] = [b1_topic]"
    by (simp add: register_topics_def b1_topic_def)
  obtain tr2 s2 where t2: "loop_trace sim_codes ?L 3 ?c0 (([] @ tr1) @ tr2) (s2, loop_start\<lparr>stage := Ready\<rparr>)"
    and s2: "served_by None [] [b1_topic] s2" and e2: "arrivals 4 tr2 = []" "reactions tr2 = []"
    using served_setup [OF t1 client s1 _ sub same] by auto
  have press: "is_press ''b1'' (Publish b1_press)" by (simp add: is_press_def b1_press_def)
  obtain tr3 s3 l3 where t3: "loop_trace sim_codes ?L 3 ?c0 ((([] @ tr1) @ tr2) @ tr3) (s3, l3)"
    and s3: "served_by None [] [b1_topic] s3" and "stage l3 = Ready"
    and e3: "arrivals 4 tr3 = [?press]" "reactions tr3 = [?press]"
    using served_turn [OF t2 inv client s2, of ?press "loop_start\<lparr>stage := Ready, started := [7]\<rparr>" "[]"]
      react press
    by (auto simp: relevant_def pump_result_def loop_received_def reacts_def b1_press_def b1_topic_def loop_start_def)
  have "loop_step sim_codes ?L 3 (s3, l3) (Inner Silent) (recv_begin sim_codes 4 3 s3, l3\<lparr>stage := Receiving_Result\<rparr>)"
    using loop_step.begin_loop [where l = l3 and s = s3 and E = sim_codes and L = ?L and p = 3]
      served_begin(2) [OF s3] served_begin(3) [OF s3] client \<open>stage l3 = Ready\<close> by simp
  from loop_snoc [OF t3 this] e1 e2 e3 served_queue(2) [OF served_begin(1) [OF s3]] show thesis
    by (intro that) (auto simp: arrivals_def reactions_def)
qed

text \<open>A run that has come to wait goes on fairly by waiting for ever.\<close>

lemma loop_trace_steps:
  assumes "loop_trace E L p c0 tr c"
  shows "fst ((tr @ [(c, x)]) ! 0) = c0 \<and>
    (\<forall>n < length tr. loop_step E L p (fst (tr ! n)) (snd (tr ! n)) (fst ((tr @ [(c, x)]) ! Suc n)))"
  using assms
proof (induction arbitrary: x rule: loop_trace.induct)
  case (loop_snoc tr c ev c')
  have "loop_step E L p (fst ((tr @ [(c, ev)]) ! n)) (snd ((tr @ [(c, ev)]) ! n))
      (fst (((tr @ [(c, ev)]) @ [(c', x)]) ! Suc n))" if "n < Suc (length tr)" for n
    using that loop_snoc.IH [of ev] loop_snoc.hyps(2)
    by (cases "n = length tr") (auto simp: nth_append less_Suc_eq)
  with loop_snoc.IH [of ev] show ?case by (auto simp: nth_append)
qed simp

definition run_of :: "('c \<times> 'e) list \<Rightarrow> 'c \<Rightarrow> nat \<Rightarrow> 'c" where
  "run_of tr c n = (if n < length tr then fst (tr ! n) else c)"

definition events_of :: "'e \<Rightarrow> ('c \<times> 'e) list \<Rightarrow> nat \<Rightarrow> 'e" where
  "events_of e tr n = (if n < length tr then snd (tr ! n) else e)"

lemma run_of_steps: "steps_before (run_of tr c) (events_of e tr) (length tr) = tr"
  by (rule nth_equalityI) (simp_all add: steps_before_def run_of_def events_of_def)

lemma waiting_run_fair:
  assumes "loop_trace E L p c0 tr c" and "loop_inv L p c0" and "procs (fst c) p = Some (Queue_Waiting (lp_client L))"
  shows "fair_loop E L p (run_of tr c) (events_of (Env Silent) tr)" and "run_of tr c 0 = c0"
    and "steps_before (run_of tr c) (events_of (Env Silent) tr) (length tr) = tr"
proof -
  note steps = loop_trace_steps [OF assms(1), of "Env Silent"]
  have inv: "loop_inv L p c" by (rule loop_trace_facts(1) [OF assms(1,2)])
  have idle: "loop_step E L p c (Env Silent) c"
  proof -
    obtain s l where c: "c = (s, l)" by (cases c)
    have "shared_step E True s Silent s" by (rule shared_step.elsewhere) simp_all
    moreover have "foreign (lp_client L) p s Silent s"
      using loop_invD(4) [OF inv [unfolded c]] by (simp add: foreign_def)
    ultimately show ?thesis unfolding c by (rule loop_step.env)
  qed
  show "run_of tr c 0 = c0" using steps by (cases tr) (auto simp: run_of_def)
  have "loop_step E L p (run_of tr c n) (events_of (Env Silent) tr n) (run_of tr c (Suc n))" for n
    using steps idle by (cases "Suc n < length tr"; cases "n < length tr")
      (auto simp: run_of_def events_of_def nth_append dest!: spec [of _ n])
  moreover have "\<not> can_go (lp_client L) p (run_of tr c (max n (length tr)))" for n
    using assms(3) by (simp add: run_of_def can_go_def)
  then have "\<exists>m\<ge>n. moves (events_of (Env Silent) tr m) \<or> \<not> can_go (lp_client L) p (run_of tr c m)" for n
    by (meson max.cobounded1)
  ultimately show "fair_loop E L p (run_of tr c) (events_of (Env Silent) tr)" by (simp add: fair_loop_def)
  show "steps_before (run_of tr c) (events_of (Env Silent) tr) (length tr) = tr"
    by (rule run_of_steps)
qed

section \<open>One loop as a system\<close>

definition alone :: "nat \<Rightarrow> 'w shared_strand \<times> 'h entity_loop \<Rightarrow> ('w, 'h) system" where
  "alone p c = (fst c, (\<lambda>_. loop_start)(p := snd c))"

fun alone_event :: "nat \<Rightarrow> loop_event \<Rightarrow> system_event" where
  "alone_event p (Env e) = Others e"
| "alone_event p ev = Own p ev"

lemma view_alone [simp]: "view p (alone p c) = c"
  by (simp add: alone_def)

lemma alone_step:
  assumes "loop_step E L p c ev c'"
  shows "system_step E [p \<mapsto> L] (alone p c) (alone_event p ev) (alone p c')"
proof (cases "moves ev")
  case True
  obtain s l s' l' where c: "c = (s, l)" "c' = (s', l')" by (cases c; cases c')
  have "system_step E [p \<mapsto> L] (s, (\<lambda>_. loop_start)(p := l)) (Own p ev) (s', ((\<lambda>_. loop_start)(p := l))(p := l'))"
    by (rule system_step.own [OF _ _ True]) (use assms c in simp_all)
  with True show ?thesis by (cases ev) (simp_all add: c alone_def)
next
  case False
  then obtain e where ev: "ev = Env e" by (cases ev) simp_all
  from assms show ?thesis
  proof (cases rule: loop_step.cases)
    case (env s e' s' l)
    have "\<forall>q M. [p \<mapsto> L] q = Some M \<longrightarrow> foreign (lp_client M) q s e' s'" using env(5) by simp
    from system_step.others [OF env(4) this] env show ?thesis by (simp add: alone_def del: fun_upd_apply)
  qed (simp_all add: ev)
qed

lemma alone_trace:
  assumes "loop_trace E L p c0 tr c"
  shows "system_trace E [p \<mapsto> L] (alone p c0) (map (\<lambda>(c, ev). (alone p c, alone_event p ev)) tr) (alone p c)"
  using assms
proof (induction rule: loop_trace.induct)
  case loop_Nil
  show ?case by (simp add: system_Nil)
next
  case (loop_snoc tr c ev c')
  from system_snoc [OF loop_snoc.IH alone_step [OF loop_snoc.hyps(2)]]
  show ?case by (simp only: map_append list.map prod.case)
qed

lemma alone_seen:
  "handled p (map (\<lambda>(c, ev). (alone p c, alone_event p ev)) tr) = reactions tr"
  "pumped i (map (\<lambda>(c, ev). (alone p c, alone_event p ev)) tr) = arrivals i tr"
proof -
  have "of_loop p reacted (alone_event p ev) = reacted ev" for ev by (cases ev) simp_all
  moreover have "pumped_by i (alone p c, alone_event p ev) = arrived i (c, ev)" for c :: "'a shared_strand \<times> 'b entity_loop" and ev
    by (cases ev) (simp_all add: alone_def)
  ultimately show "handled p (map (\<lambda>(c, ev). (alone p c, alone_event p ev)) tr) = reactions tr"
    "pumped i (map (\<lambda>(c, ev). (alone p c, alone_event p ev)) tr) = arrivals i tr"
    by (simp_all add: handled_def reactions_def pumped_def arrivals_def case_prod_unfold comp_def)
qed

lemma alone_steps:
  "steps_before (\<lambda>n. alone p (run n)) (\<lambda>n. alone_event p (ev n)) n =
   map (\<lambda>(c, ev). (alone p c, alone_event p ev)) (steps_before run ev n)"
  by (simp add: steps_before_def)

lemma alone_fair:
  assumes "fair_loop E L p run ev"
  shows "fair_system E [p \<mapsto> L] (\<lambda>n. alone p (run n)) (\<lambda>n. alone_event p (ev n))"
proof -
  have "moves e \<Longrightarrow> alone_event p e = Own p e" for e by (cases e) simp_all
  then have "\<exists>m\<ge>n. (\<exists>e. alone_event p (ev m) = Own p e) \<or> \<not> can_go (lp_client L) p (view p (alone p (run m)))" for n
    using assms unfolding fair_loop_def view_alone by metis
  moreover have "system_step E [p \<mapsto> L] (alone p (run n)) (alone_event p (ev n)) (alone p (run (Suc n)))" for n
    using assms by (intro alone_step) (simp add: fair_loop_def)
  ultimately show ?thesis by (simp add: fair_system_def del: fun_upd_apply) simp
qed

section \<open>A button beside a cover\<close>

text \<open>Clients 4 and 6 have subscribed, and the pump runs in coroutine 2.\<close>

definition c1_topic :: topic_subopts where
  "c1_topic = \<lparr>sub_topic = default_component_command_topic Cover_Component ''c1'', sub_qos = at_least_once\<rparr>"

definition two_start :: "sim shared_strand" where
  "two_start = (let ok = make_error_code Success in
     pump_begin True 2 (subscribe_end 6 [c1_topic] ok 7 (enter (Subscribing 6 [c1_topic]) 7 (make_client 6
       (subscribe_end 4 [b1_topic] ok 1 (enter (Subscribing 4 [b1_topic]) 1 (make_client 4
         (shared_fresh idle_sim default_config))))))))"

lemma two_start_simps:
  "clients two_start = [4, 6]"
  "states two_start = [4 \<mapsto> \<lparr>sc_queue = [], sc_topics = [b1_topic]\<rparr>, 6 \<mapsto> \<lparr>sc_queue = [], sc_topics = [c1_topic]\<rparr>]"
  "procs two_start = [1 \<mapsto> Done (make_error_code Success), 7 \<mapsto> Done (make_error_code Success), 2 \<mapsto> Pumping True]"
  by (simp_all add: two_start_def Let_def pump_begin_def subscribe_end_run failed_def make_error_code_def
      shared_fresh_def make_client_def empty_state_def change_state_def register_client_def registered_def locks_def
      register_topics_def remove_expired_clients_def fun_eq_iff)

lemma two_start_reachable: "shared_reachable E True two_start"
  unfolding two_start_def Let_def
  by (intro reachable_step [OF _ shared_step.begin_pump] reachable_step [OF _ shared_step.end_subscribe]
      reachable_step [OF _ shared_step.begin_subscribe] reachable_step [OF _ shared_step.make] reachable_fresh)
    (simp_all add: shared_fresh_def make_client_def subscribe_end_run change_state_def register_client_def
      registered_def locks_def)

lemma begin_waits:
  assumes "registered s i" and "queue_of s i = []"
  shows "recv_begin E i p s = enter (Queue_Waiting i) p s" and "begin_event i s = Silent"
  using assms by (simp_all add: recv_begin_def register_client_def begin_event_def)

text \<open>Both loops receive; then a press for the button comes in, and the button reacts.\<close>

lemma two_trace:
  assumes "Ls 3 = Some L3" and "lp_client L3 = 4" and react: "reacts L3 (reaction_of (A_Button ''b1'' (7::nat)))"
    and "Ls 5 = Some L5" and "lp_client L5 = 6" and "apart_loops Ls" and inv0: "system_inv Ls (two_start, \<lambda>p. loop_start)"
  obtains tr s ls where "system_trace sim_codes Ls (two_start, \<lambda>p. loop_start) tr (s, ls)"
    and "pumped 4 tr = [Inr (Publish b1_press)]" and "handled 3 tr = [Inr (Publish b1_press)]" and "handled 5 tr = []"
proof -
  let ?press = "Inr (Publish b1_press)" and ?l0 = "loop_start :: nat entity_loop" and ?ls0 = "\<lambda>p :: nat. loop_start :: nat entity_loop"
  let ?l1 = "?l0\<lparr>stage := Receiving_Result\<rparr>"
  let ?ls1 = "?ls0(3 := ?l1)" let ?ls2 = "?ls1(5 := ?l1)"
  define s1 where "s1 = enter (Queue_Waiting 4) 3 two_start"
  define s2 where "s2 = enter (Queue_Waiting 6) 5 s1"
  define s3 where "s3 = pump_end True ?press 2 s2"
  define s4 where "s4 = recv_resume sim_codes 4 default_error 3 s3"
  note start = two_start_simps queue_of_def registered_def locks_def s1_def s2_def
  have ready: "stage ?l0 = Ready" by (simp add: loop_start_def)
  have b1: "shared_step sim_codes True two_start Silent s1"
    using shared_step.begin_recv [of two_start 3 4 True sim_codes] begin_waits(1) [of two_start 4 sim_codes 3] begin_waits(2) [of two_start 4] by (simp add: start)
  have "loop_step sim_codes L3 3 (two_start, ?ls0 3) (Inner Silent) (s1, ?l1)"
    using loop_step.begin_loop [where L = L3 and p = 3 and s = two_start and l = ?l0 and E = sim_codes] b1 ready
      begin_waits(1) [of two_start 4 sim_codes 3] begin_waits(2) [of two_start 4] assms(2) by (simp add: start)
  from system_snoc [OF system_Nil system_step.own [where Ls = Ls and ls = "?ls0", OF assms(1) this]]
  have t1: "system_trace sim_codes Ls (two_start, ?ls0) [((two_start, ?ls0), Own 3 (Inner Silent))] (s1, ?ls1)" by simp
  have b2: "shared_step sim_codes True s1 Silent s2"
    using shared_step.begin_recv [of s1 5 6 True sim_codes] begin_waits(1) [of s1 6 sim_codes 5] begin_waits(2) [of s1 6] by (simp add: start)
  have "loop_step sim_codes L5 5 (s1, (?ls1) 5) (Inner Silent) (s2, ?l1)"
    using loop_step.begin_loop [where L = L5 and p = 5 and s = s1 and l = ?l0 and E = sim_codes] b2 ready
      begin_waits(1) [of s1 6 sim_codes 5] begin_waits(2) [of s1 6] assms(5) by (simp add: start)
  from system_snoc [OF t1 system_step.own [where Ls = Ls and ls = "?ls1", OF assms(4) this]]
  have t2: "system_trace sim_codes Ls (two_start, ?ls0) [((two_start, ?ls0), Own 3 (Inner Silent)),
      ((s1, ?ls1), Own 5 (Inner Silent))] (s2, ?ls2)" by simp
  have inv2: "system_inv Ls (s2, ?ls2)" by (rule system_trace_view(1) [OF t2 assms(6) inv0])
  have pump: "procs s2 2 = Some (Pumping True)" by (simp add: start)
  have b3: "shared_step sim_codes True s2 (Arrived ?press) s3" unfolding s3_def by (rule shared_step.end_pump [OF pump])
  have "foreign (lp_client L) p s2 (Arrived ?press) s3" if "Ls p = Some L" for p L
    using inv2 that unfolding s3_def system_inv_def by (auto intro: pump_foreign [OF _ pump])
  with system_snoc [OF t2 system_step.others [OF b3]]
  have t3: "system_trace sim_codes Ls (two_start, ?ls0) [((two_start, ?ls0), Own 3 (Inner Silent)),
      ((s1, ?ls1), Own 5 (Inner Silent)), ((s2, ?ls2), Others (Arrived ?press))]
      (s3, ?ls2)" by simp
  have rel: "relevant s2 4 ?press = [?press]"
    by (simp add: relevant_def topics_of_def start b1_topic_def b1_press_def)
  have "sched_inv s2" using inv2 assms(1) by (auto simp: system_inv_def loop_inv_def)
  from waiting_woken [OF this _ pump, of 3 4 ?press] rel
  have s3: "procs s3 3 = Some (Queue_Woken 4)" "queue_of s3 4 = [?press]" by (simp_all add: s3_def) (simp_all add: start)
  have "loop_step sim_codes L3 3 (s3, (?ls2) 3) (Inner (Took 4 ?press)) (s4, ?l1)"
    using loop_step.resume_loop [where L = L3 and p = 3 and s = s3 and l = ?l1 and E = sim_codes and ec = default_error]
      s3 assms(2) by (simp add: s4_def resume_event_def)
  from system_snoc [OF t3 system_step.own [where Ls = Ls and ls = "?ls2", OF assms(1) this]]
  have t4: "system_trace sim_codes Ls (two_start, ?ls0) [((two_start, ?ls0), Own 3 (Inner Silent)),
      ((s1, ?ls1), Own 5 (Inner Silent)), ((s2, ?ls2), Others (Arrived ?press)),
      ((s3, ?ls2), Own 3 (Inner (Took 4 ?press)))]
      (s4, ?ls2)" by (simp add: fun_upd_twist)
  have s4: "procs s4 3 = Some (Popped ?press)" by (simp add: s4_def resume_next [OF s3(2)])
  obtain l' rqs where got: "loop_received L3 ?press ?l1 = (l', rqs)" by (cases "loop_received L3 ?press ?l1")
  have "loop_step sim_codes L3 3 (s4, (?ls2) 3) (React ?press rqs) (leave 3 s4, l')"
    by (rule loop_step.react [where l = "(?ls2) 3"]) (simp_all add: s4 got)
  from system_snoc [OF t4 system_step.own [where Ls = Ls and ls = "?ls2", OF assms(1) this]] rel show thesis
    by (intro that) (auto simp: pumped_def handled_def)
qed

end
