(* ===== verification/Loop_Claims.thy ===== *)
theory Loop_Claims
  imports Loop_Example
begin

text \<open>
  The properties of a house: any number of buttons, covers, sensors and binary sensors that share one
  connection, each with a client and a run loop of its own, in any interleaving of these loops, the pump
  and all other coroutines.
\<close>

section \<open>Houses\<close>

text \<open>Coroutine \<open>p\<close> runs the loop of appliance \<open>a\<close> on client \<open>i\<close> when \<open>plan p = Some (i, a)\<close>.\<close>

type_synonym 'h plan = "nat \<Rightarrow> (nat \<times> 'h appliance) option"

definition house :: "('o, 'v) json_api \<Rightarrow> 'h plan \<Rightarrow> 'h loops" where
  "house J plan p = (case plan p of None \<Rightarrow> None | Some (i, a) \<Rightarrow>
     (case appliance_loop J i a of Ret L \<Rightarrow> Some L | Exn x \<Rightarrow> None))"

text \<open>No two appliances have the same client, and the clients are ready for their loops.\<close>

definition ready_house :: "ext_codes \<Rightarrow> 'h plan \<Rightarrow> 'w shared_strand \<Rightarrow> bool" where
  "ready_house E plan s \<longleftrightarrow>
     (\<forall>p q i a b. plan p = Some (i, a) \<longrightarrow> plan q = Some (i, b) \<longrightarrow> p = q) \<and>
     (\<forall>p i a. plan p = Some (i, a) \<longrightarrow> free_client E i p s)"

lemma house_loop:
  assumes "json_laws J" and "plan p = Some (i, a)"
  obtains L doc where "house J plan p = Some L" and "lp_client L = i" and "reads_well L" and "reacts L (reaction_of a)"
    and "appliance_doc J a = Ret doc" and "announcement_of L = announcement a doc"
  using json_laws.appliance_loop_facts [OF assms(1), of i a] assms(2) by (auto simp: house_def)

lemma house_plan:
  assumes "json_laws J" and "house J plan p = Some L"
  obtains a where "plan p = Some (lp_client L, a)"
proof (cases "plan p")
  case (Some c)
  obtain i a where c: "c = (i, a)" by (cases c)
  with house_loop [OF assms(1), of plan p i a] Some assms(2) that show thesis by auto
qed (use assms(2) in \<open>simp add: house_def\<close>)

lemma ready_house_system:
  assumes "json_laws J" and "ready_house E plan s"
  shows "ready_system E (house J plan) s"
  unfolding ready_system_def apart_loops_def
proof (intro conjI allI impI)
  fix p q L M
  assume "house J plan p = Some L" and "house J plan q = Some M" and "p \<noteq> q"
  then show "lp_client L \<noteq> lp_client M"
    using house_plan [OF assms(1)] assms(2) unfolding ready_house_def by metis
next
  fix p L
  assume "house J plan p = Some L"
  then show "free_client E (lp_client L) p s"
    using house_plan [OF assms(1)] assms(2) unfolding ready_house_def by metis
qed

section \<open>Properties\<close>

text \<open>
  C3: In a house, in any interleaving, entities do not disturb each other: what the pump gets for the
  client of an entity is what its run loop reacts to, in the same order, followed by what is still
  pending, and the handlers it has started are exactly those that the former ask for (a button one per
  press, a cover that of each command, a sensor none), in their order. No run loop throws, and none ends
  except with a failure.
\<close>

theorem entities_do_not_interfere:
  assumes "json_laws J" and "ready_house E plan s0"
    and "system_trace E (house J plan) (s0, \<lambda>p. loop_start) tr (s, ls)" and "plan p = Some (i, a)"
  shows "queue_of s0 i @ pumped i tr = handled p tr @ pending i p s \<and>
    started (ls p) = concat (map (reaction (reaction_of a)) (handled p tr)) \<and> \<not> fails (stage (ls p))"
proof -
  obtain L where L: "house J plan p = Some L" "lp_client L = i" "reads_well L" "reacts L (reaction_of a)"
    by (rule house_loop [where plan = plan and p = p, OF assms(1,4)])
  from system_from_start [OF ready_house_system [OF assms(1,2)] assms(3) L(1,3,4)] L(2) show ?thesis by simp
qed

text \<open>A button and a cover; the pump gets a press for the button while both receive.\<close>

definition two_plan :: "nat plan" where
  "two_plan = [3 \<mapsto> (4, A_Button ''b1'' 7), 5 \<mapsto> (6, A_Cover ''c1'' ''HALT'' 8 9 10)]"

lemma two_ready: "ready_house E two_plan two_start"
  using two_start_reachable [of E]
  by (auto simp: ready_house_def two_plan_def free_client_def two_start_simps split: if_splits)

theorem entities_do_not_interfere_witness:
  "\<exists>tr s ls. system_trace sim_codes (house alist_json two_plan) (two_start, \<lambda>p. loop_start) tr (s, ls) \<and>
     pumped 4 tr = [Inr (Publish b1_press)] \<and> started (ls 3) = [7] \<and> started (ls 5) = []"
proof -
  let ?H = "house alist_json two_plan" and ?press = "Inr (Publish b1_press)"
  obtain L3 where L3: "?H 3 = Some L3" "lp_client L3 = 4" "reacts L3 (reaction_of (A_Button ''b1'' 7))"
    using house_loop [OF alist.json_laws_axioms, of two_plan 3] by (auto simp: two_plan_def)
  obtain L5 where L5: "?H 5 = Some L5" "lp_client L5 = 6"
    using house_loop [OF alist.json_laws_axioms, of two_plan 5] by (auto simp: two_plan_def)
  note ready = ready_house_system [OF alist.json_laws_axioms two_ready [of sim_codes]] and inv0 = ready_inv [OF ready]
  have two_loops: "apart_loops ?H" using ready by (simp add: ready_system_def)
  obtain tr s ls where tr: "system_trace sim_codes ?H (two_start, \<lambda>p. loop_start) tr (s, ls)"
    and pumped: "pumped 4 tr = [?press]" and handled: "handled 3 tr = [?press]" "handled 5 tr = []"
    by (rule two_trace [OF L3 L5 two_loops inv0])
  have plan: "two_plan 3 = Some (4, A_Button ''b1'' 7)" "two_plan 5 = Some (6, A_Cover ''c1'' ''HALT'' 8 9 10)"
    by (simp_all add: two_plan_def)
  note claim = entities_do_not_interfere [OF alist.json_laws_axioms two_ready tr]
  from claim [OF plan(1)] claim [OF plan(2)] have "started (ls 3) = [7]" "started (ls 5) = []"
    by (simp_all add: handled is_press_def b1_press_def)
  with tr pumped show ?thesis by blast
qed

text \<open>
  C2: In a fair run of a house every entity is served: the handlers that the results ask for which the
  pump has got for the entity by any time \<open>n\<close> have all been started at some later time, in their order.
  There are two ways out, with a cause each: the run loop of the entity has reacted to a failure other than a
  session reset, or a request of its setup has been refused, and it has ended with this error.
\<close>

theorem entities_are_served:
  assumes "json_laws J" and "ready_house E plan s0" and "fair_system E (house J plan) run ev"
    and "run 0 = (s0, \<lambda>p. loop_start)" and "plan p = Some (i, a)"
  shows "\<exists>m\<ge>n. (\<exists>hs. started (snd (run m) p) =
      concat (map (reaction (reaction_of a)) (queue_of s0 i @ pumped i (steps_before run ev n))) @ hs) \<or>
    (\<exists>e. stage (snd (run m) p) = Ended e \<and> ended_by p (steps_before run ev m) e)"
proof -
  obtain L where L: "house J plan p = Some L" "lp_client L = i" "reads_well L" "reacts L (reaction_of a)"
    by (rule house_loop [where plan = plan and p = p, OF assms(1,5)])
  from system_serves [OF ready_house_system [OF assms(1,2)] assms(3,4) L(1,3,4), of n] L(2) show ?thesis by simp
qed

text \<open>A button alone.\<close>

definition one_plan :: "nat plan" where
  "one_plan = [3 \<mapsto> (4, A_Button ''b1'' 7)]"

lemma one_ready: "ready_house E one_plan (example_start [b1_topic])"
  using example_start_free [of E b1_topic] by (simp add: ready_house_def one_plan_def split: if_splits)

lemma one_house:
  assumes "button_of alist_json ''b1'' (7::nat) = Ret cf"
  shows "house alist_json one_plan = [3 \<mapsto> button_loop alist_json 4 cf]"
  by (rule ext) (simp add: house_def one_plan_def assms)

lemma alone_start: "alone p (s, loop_start) = (s, \<lambda>p. loop_start)"
  by (simp add: alone_def fun_eq_iff)

theorem entities_are_served_witness:
  "\<exists>run ev n. fair_system sim_codes (house alist_json one_plan) run ev \<and>
     run 0 = (example_start [b1_topic], \<lambda>p. loop_start) \<and>
     pumped 4 (steps_before run ev n) = [Inl (make_error_code SessionReset), Inr (Publish b1_press)] \<and>
     (\<exists>m\<ge>n. \<exists>hs. started (snd (run m) 3) = 7 # hs)"
proof -
  obtain cf where cf: "button_of alist_json ''b1'' (7::nat) = Ret cf" by (rule alist_button)
  let ?L = "button_loop alist_json 4 cf"
  obtain tr s l where tr: "loop_trace sim_codes ?L 3 (example_start [b1_topic], loop_start) tr (s, l)"
    and arr: "arrivals 4 tr = [Inl (make_error_code SessionReset), Inr (Publish b1_press)]"
    and wait: "procs s 3 = Some (Queue_Waiting 4)" and receiving: "stage l = Receiving_Result"
    by (rule example_trace [OF cf])
  have client: "lp_client ?L = 4" by (simp add: button_loop_def loop_for_def)
  have inv: "loop_inv ?L 3 (example_start [b1_topic], loop_start)"
    using start_inv [of sim_codes ?L 3 "example_start [b1_topic]"] example_start_free by (simp add: client)
  note run = waiting_run_fair [OF tr inv, unfolded client fst_conv, OF wait]
  let ?run = "\<lambda>n. alone 3 (run_of tr (s, l) n)" and ?ev = "\<lambda>n. alone_event 3 (events_of (Env Silent) tr n)"
  have fair: "fair_system sim_codes (house alist_json one_plan) ?run ?ev"
    unfolding one_house [OF cf] by (rule alone_fair [OF run(1)])
  have start: "?run 0 = (example_start [b1_topic], \<lambda>p. loop_start)" by (simp add: run(2) alone_start)
  have pumped: "pumped 4 (steps_before ?run ?ev (length tr)) =
      [Inl (make_error_code SessionReset), Inr (Publish b1_press)]" by (simp add: alone_steps run(3) alone_seen arr)
  have waits: "stage (snd (?run m) 3) = Receiving_Result" if "m \<ge> length tr" for m
    using that receiving by (simp add: run_of_def alone_def)
  have plan: "one_plan 3 = Some (4, A_Button ''b1'' 7)" by (simp add: one_plan_def)
  from entities_are_served [OF alist.json_laws_axioms one_ready fair start plan, of "length tr"] waits
  have "\<exists>m\<ge>length tr. \<exists>hs. started (snd (?run m) 3) = 7 # hs"
    unfolding pumped by (auto simp: is_press_def b1_press_def served_queue(1) [OF example_start_served])
  with fair start pumped show ?thesis by blast
qed

text \<open>
  C11: In a house, in any interleaving, what an entity asks its client for is its whole announcement
  (discovery document, subscription to its commands if it has any, availability) once for every session
  reset it has reacted to, in this order, and nothing else; whenever its loop receives or is about to, the
  announcements are complete.
\<close>

theorem resets_are_announced:
  assumes "json_laws J" and "ready_house E plan s0"
    and "system_trace E (house J plan) (s0, \<lambda>p. loop_start) tr (s, ls)" and "plan p = Some (i, a)"
  shows "\<exists>doc rest. appliance_doc J a = Ret doc \<and>
    asked_by p tr @ rest = concat (replicate (resets (handled p tr)) (announcement a doc)) \<and>
    (stage (ls p) = Ready \<or> stage (ls p) = Receiving_Result \<longrightarrow> rest = [])"
proof -
  obtain L doc where L: "house J plan p = Some L" "lp_client L = i" "reads_well L" "reacts L (reaction_of a)"
    and doc: "appliance_doc J a = Ret doc" "announcement_of L = announcement a doc"
    by (rule house_loop [where plan = plan and p = p, OF assms(1,4)])
  from system_from_start [OF ready_house_system [OF assms(1,2)] assms(3) L(1,3,4)]
  obtain rest where "asked_by p tr @ rest = concat (replicate (resets (handled p tr)) (announcement a doc))"
    and "\<not> over (stage (ls p)) \<longrightarrow> rest = to_ask L (stage (ls p))" by (auto simp: doc(2))
  with doc(1) show ?thesis by (intro exI [of _ doc] exI [of _ rest]) auto
qed

theorem resets_are_announced_witness:
  "\<exists>tr c doc. system_trace sim_codes (house alist_json one_plan) (example_start [b1_topic], \<lambda>p. loop_start) tr c \<and>
     appliance_doc alist_json (A_Button ''b1'' (7::nat)) = Ret doc \<and>
     asked_by 3 tr = announcement (A_Button ''b1'' (7::nat)) doc"
proof -
  obtain cf where cf: "button_of alist_json ''b1'' (7::nat) = Ret cf" by (rule alist_button)
  obtain tr s l where tr: "loop_trace sim_codes (button_loop alist_json 4 cf) 3 (example_start [b1_topic], loop_start) tr (s, l)"
    and re: "reactions tr = [Inl (make_error_code SessionReset), Inr (Publish b1_press)]" and "stage l = Receiving_Result"
    by (rule example_trace [OF cf])
  let ?tr = "map (\<lambda>(c, ev). (alone 3 c, alone_event 3 ev)) tr"
  obtain ls where c: "alone 3 (s, l) = (s, ls)" "stage (ls 3) = Receiving_Result"
    using \<open>stage l = Receiving_Result\<close> by (simp add: alone_def)
  have run: "system_trace sim_codes (house alist_json one_plan) (example_start [b1_topic], \<lambda>p. loop_start) ?tr (s, ls)"
    using alone_trace [OF tr] by (simp only: one_house [OF cf] alone_start c(1))
  have plan: "one_plan 3 = Some (4, A_Button ''b1'' 7)" by (simp add: one_plan_def)
  from resets_are_announced [OF alist.json_laws_axioms one_ready run plan] c(2)
  obtain doc where "appliance_doc alist_json (A_Button ''b1'' (7::nat)) = Ret doc"
    and "asked_by 3 ?tr = announcement (A_Button ''b1'' (7::nat)) doc"
    by (auto simp: alone_seen re resets_def)
  with run show ?thesis by blast
qed

section \<open>Names\<close>








end
