(* ===== verification/Loop_Refines.thy ===== *)
theory Loop_Refines
  imports Loop_Example
begin

text \<open>
  The run loop of the sequential model, run on a shared client, is one of the interleavings of its pieces:
  between its steps the physical client runs, and while it waits for its queue the other coroutines take
  steps of the strand. The two agree on what passes between the entity and its client: results received,
  requests and their answers, in this order.
\<close>

section \<open>State\<close>

text \<open>
  The strand together with the handlers that have been started on it, and with the history of one client:
  what has been received on it, what it has been asked for and what it has answered. No code reads the history.
\<close>

datatype loop_note =
    Got recv_result
  | Asked request
  | Told error_code

record ('w, 'h) hosted_strand = "'w shared_strand" +
  handlers :: "'h list"
  history :: "loop_note list"

definition jot :: "loop_note list \<Rightarrow> ('w, 'h) hosted_strand \<Rightarrow> ('w, 'h) hosted_strand" where
  "jot ns s = s\<lparr>history := history s @ ns\<rparr>"

text \<open>A client with a history: every call is passed on unchanged, and noted.\<close>

definition noted :: "loop_note list \<Rightarrow> ('a \<Rightarrow> loop_note) \<Rightarrow> ('a, ('w, 'h) hosted_strand) coro \<Rightarrow>
    ('a, ('w, 'h) hosted_strand) coro" where
  "noted ns f m = assign (jot ns) (await m (\<lambda>a. assign (jot [f a]) (co_return a)))"

definition noting :: "('w, 'h) hosted_strand client_ops \<Rightarrow> ('w, 'h) hosted_strand client_ops" where
  "noting C =
     \<lparr>c_publish = (\<lambda>t p q r. noted [Asked (Pub t p q r)] Told (c_publish C t p q r)),
      c_subscribe = (\<lambda>ts. noted [Asked (Sub ts)] Told (c_subscribe C ts)),
      c_recv = noted [] Got (c_recv C),
      c_close = c_close C\<rparr>"

text \<open>The same of the steps of a loop.\<close>

fun notes_of :: "loop_event \<Rightarrow> loop_note list" where
  "notes_of (React r rqs) = Got r # map Asked rqs"
| "notes_of (Answer err rqs) = Told err # map Asked rqs"
| "notes_of _ = []"

definition trace_notes :: "('c \<times> loop_event) list \<Rightarrow> loop_note list" where
  "trace_notes tr = concat (map (\<lambda>(c, ev). notes_of ev) tr)"

lemma jot_simps [simp]:
  "clients (jot ns s) = clients s" "states (jot ns s) = states s" "procs (jot ns s) = procs s"
  "handlers (jot ns s) = handlers s" "history (jot ns s) = history s @ ns" "state (jot ns s) = state s"
  "impl (jot ns s) = impl s" "jot [] s = s" "jot ms (jot ns s) = jot (ns @ ms) s"
  by (simp_all add: jot_def)

lemma noted_run:
  "noted ns f m s = Some (Ret a, s') \<longleftrightarrow> (\<exists>u. m (jot ns s) = Some (Ret a, u) \<and> s' = jot [f a] u)"
  by (auto simp: noted_def assign_run await_Some_iff co_return_run)

lemma perform_noting: "perform (noting C) rq = noted [Asked rq] Told (perform C rq)"
  by (cases rq) (simp_all add: perform_def noting_def)

definition spawn_handler :: "'h \<Rightarrow> ('w, 'h) hosted_strand \<Rightarrow> ('w, 'h) hosted_strand" where
  "spawn_handler h s = s\<lparr>handlers := handlers s @ [h]\<rparr>"

text \<open>A coroutine that touches only the handlers.\<close>

definition on_handlers :: "('a, 'h list) coro \<Rightarrow> ('a, ('w, 'h) hosted_strand) coro" where
  "on_handlers m s = (case m (handlers s) of None \<Rightarrow> None | Some (r, hs) \<Rightarrow> Some (r, s\<lparr>handlers := hs\<rparr>))"

lemma on_handlers_simps:
  "on_handlers (co_return a) = co_return a" "on_handlers (raise_exn x) = raise_exn x"
  "on_handlers (eval_res e k) = eval_res e (\<lambda>a. on_handlers (k a))"
  "on_handlers (spawn_if (\<lambda>h hs. hs @ [h]) ho) = spawn_if spawn_handler ho"
  by (auto simp: on_handlers_def co_return_def raise_exn_def eval_res_def spawn_if_def assign_def spawn_handler_def fun_eq_iff
      split: res.split option.split)

lemma packets_on_handlers:
  "on_handlers (button_on_packet J (\<lambda>h hs. hs @ [h]) bt pk) = button_on_packet J spawn_handler bt pk"
  "on_handlers (cover_on_packet J (\<lambda>h hs. hs @ [h]) cv pk) = cover_on_packet J spawn_handler cv pk"
  by (auto simp: button_on_packet_def cover_on_packet_def cover_dispatch_def on_handlers_simps eval_res_def if_distrib [of on_handlers]
      split: packet.split res.split)

section \<open>The environment\<close>

text \<open>Steps of the other coroutines, as the loop of client \<open>i\<close> in coroutine \<open>p\<close> allows them.\<close>

inductive envs :: "ext_codes \<Rightarrow> nat \<Rightarrow> nat \<Rightarrow> ('w, 'z) shared_strand_scheme \<Rightarrow> ('w, 'z) shared_strand_scheme \<Rightarrow> bool"
  for E i p s0 where
  no_env: "envs E i p s0 s0"
| more_env: "envs E i p s0 s \<Longrightarrow> shared_step E True s e s' \<Longrightarrow> foreign i p s e s' \<Longrightarrow> envs E i p s0 s'"

text \<open>The strand is in order, client \<open>i\<close> is alive, and no other coroutine receives on it.\<close>

definition owns :: "nat \<Rightarrow> nat \<Rightarrow> ('w, 'z) shared_strand_scheme \<Rightarrow> bool" where
  "owns i p s \<longleftrightarrow> sched_inv s \<and> solo_inv s \<and> states s i \<noteq> None \<and> (\<forall>q. q \<noteq> p \<longrightarrow> \<not> popping (procs s q) i)"

lemma owns_inv: "loop_inv L p (s, l) \<longleftrightarrow> owns (lp_client L) p s \<and> loop_at (lp_client L) (procs s p) (stage l)"
  by (auto simp: loop_inv_def owns_def)

text \<open>
  The waits of the sequential model: while coroutine \<open>p\<close> waits for the queue of its client the others run,
  until they wake it; they leave the handlers of the loop and the history alone.
\<close>

definition strand_waits ::
  "ext_codes \<Rightarrow> nat \<Rightarrow> nat \<Rightarrow> ('w, ('h, unit) hosted_strand_ext shared_strand_ext) shared_scheme queue_timers \<Rightarrow> bool" where
  "strand_waits E i p Q \<longleftrightarrow> (\<forall>s ec s'. q_wait Q i s = Some (Ret ec, s') \<longrightarrow> procs s p = None \<longrightarrow>
     owns i p (enter (Queue_Waiting i) p s) \<longrightarrow> procs s' p = None \<and> handlers s' = handlers s \<and> history s' = history s \<and>
     envs E i p (enter (Queue_Waiting i) p s) (enter (Queue_Woken i) p s'))"

text \<open>There is a run of the loop, and what it shows is what has been added to the history.\<close>

definition reaches ::
  "ext_codes \<Rightarrow> 'h loop_code \<Rightarrow> nat \<Rightarrow> ('w, 'h) hosted_strand \<times> 'h entity_loop \<Rightarrow>
   ('w, 'h) hosted_strand \<times> 'h entity_loop \<Rightarrow> bool" where
  "reaches E L p c c' \<longleftrightarrow> (\<exists>tr. loop_trace E L p c tr c' \<and> history (fst c') = history (fst c) @ trace_notes tr)"

lemma loop_trace_append:
  assumes "loop_trace E L p c1 tr2 c2" and "loop_trace E L p c0 tr1 c1"
  shows "loop_trace E L p c0 (tr1 @ tr2) c2"
  using assms
proof (induction rule: loop_trace.induct)
  case (loop_snoc tr c ev c')
  from loop_trace.loop_snoc [OF loop_snoc.IH [OF loop_snoc.prems] loop_snoc.hyps(2)] show ?case by simp
qed simp

lemma notes_simps [simp]: "trace_notes [] = []" "trace_notes ((c, ev) # tr) = notes_of ev @ trace_notes tr" "trace_notes (tr @ us) = trace_notes tr @ trace_notes us"
  by (simp_all add: trace_notes_def)

lemma reaches_refl [simp]: "reaches E L p c c"
  unfolding reaches_def using loop_Nil by fastforce

lemma reaches_trans [trans]:
  assumes "reaches E L p c c1" and "reaches E L p c1 c2"
  shows "reaches E L p c c2"
proof -
  from assms obtain tr us where "loop_trace E L p c tr c1" "history (fst c1) = history (fst c) @ trace_notes tr"
    "loop_trace E L p c1 us c2" "history (fst c2) = history (fst c1) @ trace_notes us" unfolding reaches_def by blast
  with loop_trace_append [of E L p c1 us c2 c tr] show ?thesis
    unfolding reaches_def by (intro exI [of _ "tr @ us"]) simp
qed

lemma reaches_step: "loop_step E L p c ev c' \<Longrightarrow> history (fst c') = history (fst c) @ notes_of ev \<Longrightarrow> reaches E L p c c'"
  unfolding reaches_def using loop_snoc [OF loop_Nil] by (intro exI [of _ "[(c, ev)]"]) fastforce

lemma reaches_inv: "reaches E L p c c' \<Longrightarrow> loop_inv L p c \<Longrightarrow> loop_inv L p c'"
  unfolding reaches_def using loop_trace_facts(1) by blast

lemma envs_trace: "envs E (lp_client L) p s0 s \<Longrightarrow> \<exists>tr. loop_trace E L p (s0, l) tr (s, l) \<and> trace_notes tr = []"
proof (induction rule: envs.induct)
  case no_env
  show ?case by (intro exI [of _ "[]"]) (simp add: loop_Nil)
next
  case (more_env s e s')
  then obtain tr where tr: "loop_trace E L p (s0, l) tr (s, l)" "trace_notes tr = []" by blast
  from loop_snoc [OF tr(1) loop_step.env [OF more_env.hyps(2,3)]] tr(2)
  show ?case by (intro exI [of _ "tr @ [((s, l), Env e)]"]) simp
qed

lemma reaches_envs:
  assumes "envs E (lp_client L) p s s'" and "history s' = history s"
  shows "reaches E L p (s, l) (s', l)"
  using envs_trace [OF assms(1), of l] assms(2) by (auto simp: reaches_def)

text \<open>What leaves the members of the connection alone is a step of the physical client, of a handler or of the notes.\<close>

lemma elsewhere_step:
  assumes "loop_inv L p (s, l)" and "clients s' = clients s" and "states s' = states s" and "procs s' = procs s"
  shows "loop_step E L p (s, l) (Env Silent) (s', l)"
proof (rule loop_step.env)
  show "shared_step E True s Silent s'" by (rule shared_step.elsewhere [OF assms(2-4)])
  show "foreign (lp_client L) p s Silent s'"
    using loop_invD(4) [OF assms(1)] assms(4) by (simp add: foreign_def)
qed

lemma reaches_elsewhere:
  assumes "loop_inv L p (s, l)" and "clients s' = clients s" and "states s' = states s" and "procs s' = procs s"
    and "history s' = history s"
  shows "reaches E L p (s, l) (s', l)"
  using reaches_step [OF elsewhere_step [OF assms(1-4)]] assms(5) by simp

text \<open>A step of the loop, and then its notes.\<close>

lemma reaches_noting:
  assumes step: "loop_step E L p (s, l) ev (t, l')" and "loop_inv L p (s, l)" and "history t = history s"
  shows "reaches E L p (s, l) (jot (notes_of ev) t, l')"
proof -
  have "loop_step E L p (t, l') (Env Silent) (jot (notes_of ev) t, l')"
    by (rule elsewhere_step [OF loop_step_inv [OF step assms(2)]]) simp_all
  from loop_snoc [OF loop_snoc [OF loop_Nil step] this] assms(3) show ?thesis
    unfolding reaches_def by (intro exI [of _ "[((s, l), ev), ((t, l'), Env Silent)]"]) simp
qed

section \<open>Pieces and the sequential coroutines\<close>

lemma enter_leave:
  "procs s p = None \<Longrightarrow> leave p (enter l p s) = s"
  "procs (enter l p s) p = Some l"
  "enter l p (enter l' p s) = enter l p s"
  by (simp_all add: enter_def leave_def fun_upd_idem)

lemma enter_commutes:
  "register_client i (enter l p s) = enter l p (register_client i s)"
  "change_state i f (enter l p s) = enter l p (change_state i f s)"
proof -
  have "locks (enter l p s) i = locks s i" by (rule ext) (simp add: locks_def)
  then show "register_client i (enter l p s) = enter l p (register_client i s)"
    by (simp add: register_client_def registered_def) (simp add: enter_def)
qed (simp add: change_state_def enter_def)

lemma inner_more:
  fixes s s' :: "('w, 'z) shared_strand_scheme"
  assumes "client.more s' = client.more s"
  shows "clients s' = clients s" "states s' = states s" "procs s' = procs s" "shared_strand.more s' = shared_strand.more s"
  using assms by (cases s; cases s'; simp)+

lemma inner_hosted:
  fixes s s' :: "('w, 'h) hosted_strand"
  assumes "client.more s' = client.more s"
  shows "clients s' = clients s" "states s' = states s" "procs s' = procs s" "handlers s' = handlers s" "history s' = history s"
  using assms by (cases s; cases s'; simp)+

lemma pieces_history [simp]:
  "history (enter l p s) = history s" "history (leave p s) = history s" "history (register_client i s) = history s"
  "history (change_state i f s) = history s" "history (recv_resume E i ec p s) = history s"
  "history (recv_begin E i p s) = history s" "history (subscribe_end i ts err p s) = history s"
  "history (start_subscribe i p st s) = history s"
proof -
  show *: "history (enter l p s) = history s" "history (leave p s) = history s" "history (register_client i s) = history s"
    "history (change_state i f s) = history s" for l i f and s :: "('a, 'b, 'c) hosted_strand_scheme"
    by (simp_all add: enter_def leave_def register_client_def change_state_def)
  then show resume: "history (recv_resume E i ec p s) = history s" for ec and s :: "('a, 'b, 'c) hosted_strand_scheme"
    by (cases "queue_of s i") (simp_all add: resume_empty resume_next)
  show "history (recv_begin E i p s) = history s" by (simp add: recv_begin_def * resume Let_def)
  show "history (subscribe_end i ts err p s) = history s" by (simp add: subscribe_end_run *)
  show "history (start_subscribe i p st s) = history s" by (simp add: start_subscribe_def * split: loop_stage.split)
qed

lemma jot_enter: "jot ns (enter l p s) = enter l p (jot ns s)"
  by (simp add: jot_def enter_def)

text \<open>Taking a result, and having it: the coroutine of the loop keeps it until the loop reacts.\<close>

lemma take_entered:
  assumes "queue_take E i ec s = Some (Ret r, s')" and "queue_of s i \<noteq> []"
  shows "recv_resume E i ec' p (enter l p s) = enter (Popped r) p s'"
proof -
  obtain x xs where q: "queue_of s i = x # xs" using assms(2) by (auto simp: neq_Nil_conv)
  then have "queue_of (enter l p s) i = x # xs" by simp
  from resume_next [OF this] have "recv_resume E i ec' p (enter l p s) =
      enter (Popped x) p (change_state i (sc_queue_update tl) s)" by (simp add: enter_commutes enter_leave)
  with assms(1) q show ?thesis by (simp add: queue_take_run)
qed

lemma recv_reaches:
  fixes s s' :: "('w, 'h) hosted_strand"
  assumes "loop_inv L p (s, l)" and "stage l = Ready" and "strand_waits (t_codes T) (lp_client L) p Q"
    and "shared_recv T Q (lp_client L) s = Some (Ret r, s')"
  shows "reaches (t_codes T) L p (s, l) (enter (Popped r) p s', l\<lparr>stage := Receiving_Result\<rparr>) \<and>
    procs s' p = None \<and> handlers s' = handlers s \<and> history s' = history s"
proof -
  let ?i = "lp_client L" and ?E = "t_codes T" and ?l = "l\<lparr>stage := Receiving_Result\<rparr>"
  let ?r = "register_client ?i s"
  note inv = loop_invD [OF assms(1)]
  have free: "procs s p = None" using inv(5) assms(2) by simp
  then have "\<not> popping (procs s q) ?i" for q using inv(4) by (cases "q = p") simp_all
  with free inv(3) have begun: "reaches ?E L p (s, l) (recv_begin ?E ?i p s, ?l)"
    by (intro reaches_step [OF loop_step.begin_loop [where L = L]] assms(2) shared_step.begin_recv) auto
  have keep: "handlers ?r = handlers s" "history ?r = history s" by (simp_all add: register_client_def)
  show ?thesis
  proof (cases "queue_of ?r ?i = []")
    case False
    with assms(4) have take: "queue_take ?E ?i default_error ?r = Some (Ret r, s')" by (simp add: recv_in_pieces)
    then obtain x xs where q: "queue_of ?r ?i = x # xs" using False by (auto simp: neq_Nil_conv)
    with take have "recv_begin ?E ?i p s = enter (Popped r) p s'" and "s' = change_state ?i (sc_queue_update tl) ?r"
      by (simp_all add: recv_begin_def resume_next [OF q] queue_take_run)
    with begun free keep show ?thesis by simp (simp add: change_state_def)
  next
    case True
    with assms(4) have "await (q_wait Q ?i) (queue_take ?E ?i) ?r = Some (Ret r, s')" by (simp add: recv_in_pieces)
    then obtain ec s1 where wait: "q_wait Q ?i ?r = Some (Ret ec, s1)" and take: "queue_take ?E ?i ec s1 = Some (Ret r, s')"
      by (rule await_Some_cases) (blast, simp)
    have waits: "recv_begin ?E ?i p s = enter (Queue_Waiting ?i) p ?r" using True by (simp add: recv_begin_def)
    from reaches_inv [OF begun assms(1)] have "owns ?i p (enter (Queue_Waiting ?i) p ?r)" by (simp add: waits owns_inv)
    with assms(3) wait free keep have s1: "procs s1 p = None" "handlers s1 = handlers s" "history s1 = history s"
      "envs ?E ?i p (enter (Queue_Waiting ?i) p ?r) (enter (Queue_Woken ?i) p s1)"
      by (simp_all add: strand_waits_def)
    with begun [unfolded waits] reaches_envs [OF s1(4)]
    have waited: "reaches ?E L p (s, l) (enter (Queue_Woken ?i) p s1, ?l)" using s1(3) keep(2) by (auto intro: reaches_trans)
    have quiet: "history s' = history s1" using take by (auto simp: queue_take_run split: list.splits)
    have "solo_inv (enter (Queue_Woken ?i) p s1)" by (rule loop_invD(2) [OF reaches_inv [OF waited assms(1)]])
    then have "queue_of s1 ?i \<noteq> []" unfolding solo_inv_def by (metis enter_leave(2) queue_of_enter)
    from take_entered [OF take this]
    have "reaches ?E L p (enter (Queue_Woken ?i) p s1, ?l) (enter (Popped r) p s', ?l)"
      using loop_step.resume_loop [where L = L and s = "enter (Queue_Woken ?i) p s1" and l = ?l and p = p and E = ?E and ec = ec] quiet
      by (auto intro: reaches_step)
    moreover have "procs s' p = None \<and> handlers s' = handlers s1"
      using take s1(1) by (auto simp: queue_take_run change_state_def split: list.splits)
    ultimately show ?thesis using waited s1(2,3) keep quiet by (auto intro: reaches_trans)
  qed
qed

section \<open>The setup\<close>

text \<open>The outcome of a setup or of a run loop as a stage.\<close>

definition after_setup :: "error_code \<Rightarrow> loop_stage" where
  "after_setup e = (if failed e then Ended e else Ready)"

definition publishes :: "'h loop_code \<Rightarrow> bool" where
  "publishes L \<longleftrightarrow> (\<exists>t p q r. lp_discovery L = Pub t p q r) \<and>
     (\<forall>rq. lp_availability L = Ret (Some rq) \<longrightarrow> (\<exists>t p q r. rq = Pub t p q r))"

context shared_transport
begin

lemma shared_publish_more:
  "shared_publish T t p q r s = Some (x, s') \<Longrightarrow> client.more s' = client.more s"
  using more.async_publish_steps unfolding shared_publish_def by (rule steps_inD_any)

lemma subscribe_more:
  "async_subscribe T ts s = Some (x, s') \<Longrightarrow> client.more s' = client.more s"
  using more.async_subscribe_steps by (rule steps_inD_any)

lemma perform_publish:
  assumes "perform (shared_client T Q i) (Pub t x q r) s = Some (Ret e, s')"
  shows "client.more s' = client.more s"
  using assms shared_publish_more by (simp add: perform_def shared_client_def)

end

text \<open>Answers, with what is asked next.\<close>

lemma reaches_discovered:
  assumes "stage l = Discovering" and "loop_inv L p (s, l)" and "loop_discovered L e l = (l', rqs)"
  shows "reaches E L p (s, l) (jot (Told e # map Asked rqs) (start_subscribe (lp_client L) p (stage l') s), l')"
  using reaches_noting [OF loop_step.discovered [OF assms(1,3)] assms(2)] by simp

lemma reaches_subscribed:
  assumes "stage l = Subscribing_Topics ts" and "procs s p = Some (Done e)" and "loop_inv L p (s, l)"
    and "loop_subscribed L e l = (l', rqs)"
  shows "reaches E L p (s, l) (jot (Told e # map Asked rqs) (leave p s), l')"
  using reaches_noting [OF loop_step.subscribed [OF assms(1,2,4)] assms(3)] by simp

lemma reaches_available:
  assumes "stage l = Updating_Availability" and "loop_inv L p (s, l)"
  shows "reaches E L p (s, l) (jot [Told e] s, l\<lparr>stage := after_setup e\<rparr>)"
  using reaches_noting [OF loop_step.available [OF assms(1), of e "l\<lparr>stage := after_setup e\<rparr>" "[]"] assms(2)]
  by (simp add: loop_available_def after_setup_def)

lemma publish_reaches:
  fixes s s' :: "('w, 'h) hosted_strand"
  assumes "shared_transport T events" and "perform (noting (shared_client T Q i)) (Pub t x q r) s = Some (Ret e, s')"
    and "loop_inv L p (jot [Asked (Pub t x q r)] s, l)"
  obtains u where "reaches E L p (jot [Asked (Pub t x q r)] s, l) (u, l)" and "s' = jot [Told e] u"
    and "procs u = procs s" and "handlers u = handlers s"
proof -
  from assms(2) obtain u where ask: "perform (shared_client T Q i) (Pub t x q r) (jot [Asked (Pub t x q r)] s) = Some (Ret e, u)"
    and "s' = jot [Told e] u" unfolding perform_noting by (auto simp: noted_run)
  moreover note same = inner_hosted [OF shared_transport.perform_publish [OF assms(1) ask]]
  moreover have "reaches E L p (jot [Asked (Pub t x q r)] s, l) (u, l)"
    by (rule reaches_elsewhere [OF assms(3)]) (use same in simp_all)
  ultimately show thesis using that by simp
qed

lemma availability_reaches:
  fixes s s' :: "('w, 'h) hosted_strand"
  assumes "shared_transport T events" and "publishes L" and "loop_inv L p (jot (map Asked rqs) s, l)"
    and "loop_availability L l0 = (l, rqs)"
    and "eval_res (lp_availability L) (\<lambda>rq. case rq of None \<Rightarrow> co_return (make_error_code Success)
      | Some q \<Rightarrow> perform (noting (shared_client T Q i)) q) s = Some (Ret e, s')"
  shows "\<exists>l'. reaches E L p (jot (map Asked rqs) s, l) (s', l') \<and> stage l' = after_setup e \<and> started l' = started l0 \<and>
    handlers s' = handlers s"
proof (cases "lp_availability L")
  case (Exn x)
  with assms(5) show ?thesis by (simp add: eval_Exn raise_exn_run)
next
  case (Ret rq)
  show ?thesis
  proof (cases rq)
    case None
    with Ret assms(4,5) show ?thesis
      by (intro exI [of _ l]) (auto simp: loop_availability_def eval_Ret co_return_run after_setup_def)
  next
    case (Some q)
    with Ret assms(2) obtain t x c r where q: "q = Pub t x c r" by (auto simp: publishes_def)
    with Ret Some assms(5) have ask: "perform (noting (shared_client T Q i)) (Pub t x c r) s = Some (Ret e, s')"
      by (simp add: eval_Ret)
    have l: "l = l0\<lparr>stage := Updating_Availability\<rparr>" "rqs = [Pub t x c r]"
      using assms(4) Ret Some q by (simp_all add: loop_availability_def)
    from publish_reaches [OF assms(1) ask, of L p l E] assms(3) obtain u where
      to: "reaches E L p (jot (map Asked rqs) s, l) (u, l)" and s': "s' = jot [Told e] u" "handlers u = handlers s"
      unfolding l by auto
    note to
    also have "reaches E L p (u, l) (s', l\<lparr>stage := after_setup e\<rparr>)"
      unfolding s' by (rule reaches_available [OF _ reaches_inv [OF to assms(3)]]) (simp add: l)
    finally show ?thesis using s' by (intro exI [of _ "l\<lparr>stage := after_setup e\<rparr>"]) (simp add: l)
  qed
qed

lemma subscription_reaches:
  fixes s s' :: "('w, 'h) hosted_strand"
  assumes T: "shared_transport T events" and at: "stage l = Subscribing_Topics ts" and free: "procs s p = None"
    and inv: "loop_inv L p (enter (Subscribing (lp_client L) ts) p (jot [Asked (Sub ts)] s), l)"
    and run: "perform (noting (shared_client T Q (lp_client L))) (Sub ts) s = Some (Ret e, s')"
    and next_stage: "loop_subscribed L e l = (l', rqs)"
  shows "reaches E L p (enter (Subscribing (lp_client L) ts) p (jot [Asked (Sub ts)] s), l) (jot (map Asked rqs) s', l')"
    and "handlers s' = handlers s"
proof -
  let ?i = "lp_client L" and ?s = "jot [Asked (Sub ts)] s"
  from run obtain v where sub: "shared_subscribe T ?i ts ?s = Some (Ret e, v)" and s': "s' = jot [Told e] v"
    unfolding perform_noting by (auto simp: noted_run perform_def shared_client_def)
  from sub obtain u where ask: "async_subscribe T ts ?s = Some (Ret e, u)"
    and u: "subscribe_answered ?i ts e u = Some (Ret e, v)"
    unfolding shared_subscribe_def
    by (auto simp: subscribe_answered_def co_return_run assign_run elim!: await_Some_cases split: if_splits)
  note same = inner_hosted [OF shared_transport.subscribe_more [OF T ask]]
  have v: "v = (if failed e then u else register_client ?i (change_state ?i (sc_topics_update (register_topics ts)) u))"
    using u by (auto simp: subscribe_answered_def co_return_run assign_run split: if_splits)
  then have kept: "procs v p = None" and "handlers v = handlers s"
    using free same(3,4) by (simp_all add: register_client_def change_state_def)
  then show "handlers s' = handlers s" by (simp add: s')
  have "reaches E L p (enter (Subscribing ?i ts) p ?s, l) (enter (Subscribing ?i ts) p u, l)"
    by (rule reaches_elsewhere [OF inv]) (use same in simp_all)
  also have "reaches E L p (enter (Subscribing ?i ts) p u, l) (subscribe_end ?i ts e p (enter (Subscribing ?i ts) p u), l)"
    by (rule reaches_step [OF loop_step.answered]) (simp_all add: at)
  also have "subscribe_end ?i ts e p (enter (Subscribing ?i ts) p u) = enter (Done e) p v"
    by (simp add: subscribe_end_run v enter_commutes enter_leave)
  finally have answered: "reaches E L p (enter (Subscribing ?i ts) p ?s, l) (enter (Done e) p v, l)" .
  note answered
  also have "reaches E L p (enter (Done e) p v, l) (jot (Told e # map Asked rqs) (leave p (enter (Done e) p v)), l')"
    by (rule reaches_subscribed [OF at _ reaches_inv [OF answered inv] next_stage]) simp
  also have "leave p (enter (Done e) p v) = v" by (rule enter_leave(1) [OF kept])
  finally show "reaches E L p (enter (Subscribing ?i ts) p ?s, l) (jot (map Asked rqs) s', l')" by (simp add: s')
qed

lemma setup_reaches:
  fixes s s' :: "('w, 'h) hosted_strand"
  assumes T: "shared_transport T events" and L: "publishes L" "loop_of J en L"
      "e_client en = noting (shared_client T Q (lp_client L))"
    and run: "entity_setup J en s = Some (Ret e, s')" and inv: "loop_inv L p (jot [Asked (lp_discovery L)] s, l)"
    and at: "stage l = Discovering"
  shows "\<exists>l'. reaches E L p (jot [Asked (lp_discovery L)] s, l) (s', l') \<and> stage l' = after_setup e \<and>
    started l' = started l \<and> handlers s' = handlers s"
proof -
  let ?C = "noting (shared_client T Q (lp_client L))" and ?i = "lp_client L"
  let ?avail = "eval_res (lp_availability L) (\<lambda>rq. case rq of None \<Rightarrow> co_return (make_error_code Success)
      | Some q \<Rightarrow> perform ?C q)"
  let ?start = "(jot [Asked (lp_discovery L)] s, l)"
  obtain t x c r where disc: "lp_discovery L = Pub t x c r" using L(1) by (auto simp: publishes_def)
  from run obtain e1 s1 where first: "perform ?C (Pub t x c r) s = Some (Ret e1, s1)"
    and rest: "(if failed e1 then co_return e1 else
      await (eval_res (lp_subscription L) (\<lambda>ts. case ts of None \<Rightarrow> co_return default_error | Some us \<Rightarrow> perform ?C (Sub us)))
        (\<lambda>err. if failed err then co_return err else ?avail)) s1 = Some (Ret e, s')"
    unfolding loop_of_setup [OF L(2)] L(3) disc by (rule await_Some_cases) (blast, simp)
  from publish_reaches [OF T first inv [unfolded disc], of E, folded disc] obtain u where
    first_to: "reaches E L p ?start (u, l)" and s1: "s1 = jot [Told e1] u" and u: "procs u = procs s" "handlers u = handlers s"
    by auto
  note inv_u = reaches_inv [OF first_to inv]
  have free: "procs s1 p = None" using loop_invD(5) [OF inv_u] at by (simp add: s1)
  obtain l1 rqs where l1: "loop_discovered L e1 l = (l1, rqs)" by (cases "loop_discovered L e1 l")
  from reaches_trans [OF first_to reaches_discovered [OF at inv_u l1]]
  have to: "reaches E L p ?start (jot (Told e1 # map Asked rqs) (start_subscribe ?i p (stage l1) u), l1)" .
  show ?thesis
  proof (cases "failed e1")
    case True
    with l1 have "l1 = l\<lparr>stage := Ended e1\<rparr>" "rqs = []" by (simp_all add: loop_discovered_def)
    with to rest True u show ?thesis
      by (intro exI [of _ l1]) (auto simp: co_return_run start_subscribe_def after_setup_def s1)
  next
    case ok: False
    show ?thesis
    proof (cases "lp_subscription L")
      case (Exn y)
      with rest ok show ?thesis by (simp add: eval_Exn await_Exn raise_exn_run)
    next
      case (Ret topics)
      show ?thesis
      proof (cases topics)
        case None
        have av: "loop_availability L l = (l1, rqs)" using l1 ok Ret None by (simp add: loop_discovered_def)
        then have "start_subscribe ?i p (stage l1) u = u"
          by (auto simp: loop_availability_def start_subscribe_def split: res.splits option.splits)
        with to have to1: "reaches E L p ?start (jot (map Asked rqs) s1, l1)" by (simp add: s1)
        from rest ok Ret None have "?avail s1 = Some (Ret e, s')" by (simp add: eval_Ret co_return_run await_Ret)
        from availability_reaches [OF T L(1) reaches_inv [OF to1 inv] av this, of E] to1 u(2)
        show ?thesis by (auto simp: s1 intro: reaches_trans)
      next
        case (Some ts)
        have l1': "l1 = l\<lparr>stage := Subscribing_Topics ts\<rparr>" "rqs = [Sub ts]"
          using l1 ok Ret Some by (simp_all add: loop_discovered_def)
        with to have to1: "reaches E L p ?start (enter (Subscribing ?i ts) p (jot [Asked (Sub ts)] s1), l1)"
          by (simp add: start_subscribe_def s1 jot_enter)
        from rest ok Ret Some have "await (perform ?C (Sub ts)) (\<lambda>err. if failed err then co_return err else ?avail) s1 =
            Some (Ret e, s')" by (simp add: eval_Ret)
        then obtain e2 s2 where sub: "perform ?C (Sub ts) s1 = Some (Ret e2, s2)"
          and last: "(if failed e2 then co_return e2 else ?avail) s2 = Some (Ret e, s')"
          by (rule await_Some_cases) (blast, simp)
        obtain l2 more where l2: "loop_subscribed L e2 l1 = (l2, more)" by (cases "loop_subscribed L e2 l1")
        have at1: "stage l1 = Subscribing_Topics ts" by (simp add: l1')
        note answered = subscription_reaches [OF T at1 free reaches_inv [OF to1 inv] sub l2]
        note to2 = reaches_trans [OF to1 answered(1)]
        have kept: "handlers s2 = handlers s" using answered(2) u(2) by (simp add: s1)
        show ?thesis
        proof (cases "failed e2")
          case True
          with l2 have "l2 = l1\<lparr>stage := Ended e2\<rparr>" "more = []" by (simp_all add: loop_subscribed_def)
          with last to2 kept True show ?thesis
            by (intro exI [of _ l2]) (simp add: co_return_run after_setup_def l1')
        next
          case False
          with l2 have av: "loop_availability L l1 = (l2, more)" by (simp add: loop_subscribed_def)
          from last False have "?avail s2 = Some (Ret e, s')" by simp
          from availability_reaches [OF T L(1) reaches_inv [OF to2 inv] av this, of E] to2 kept
          show ?thesis by (auto simp: l1' intro: reaches_trans)
        qed
      qed
    qed
  qed
qed

section \<open>The loop\<close>

text \<open>Loop \<open>L\<close> of coroutine \<open>p\<close> is the code of entity \<open>en\<close>, which runs on its client of the shared connection.\<close>

definition runs_on ::
  "('w, ('h, unit) hosted_strand_ext shared_strand_ext) shared_scheme transport \<Rightarrow> ('w \<Rightarrow> event list) \<Rightarrow>
   ('w, ('h, unit) hosted_strand_ext shared_strand_ext) shared_scheme queue_timers \<Rightarrow> ('o, 'v) json_api \<Rightarrow>
   ('o, ('w, 'h) hosted_strand) entity \<Rightarrow> 'h loop_code \<Rightarrow> nat \<Rightarrow> bool" where
  "runs_on T events Q J en L p \<longleftrightarrow> shared_transport T events \<and> publishes L \<and> loop_of J en L \<and>
     e_client en = noting (shared_client T Q (lp_client L)) \<and> strand_waits (t_codes T) (lp_client L) p Q"

lemma reaches_react:
  assumes "stage l = Receiving_Result" and "procs s p = None" and inv: "loop_inv L p (enter (Popped r) p s, l)"
    and "loop_received L r l = (l', rqs)"
  shows "reaches E L p (enter (Popped r) p s, l) (jot (Got r # map Asked rqs) s, l')"
proof -
  have "reaches E L p (enter (Popped r) p s, l) (jot (notes_of (React r rqs)) (leave p (enter (Popped r) p s)), l')"
    by (rule reaches_noting [OF loop_step.react [OF assms(1) _ assms(4)] inv]) simp_all
  then show ?thesis by (simp add: enter_leave(1) [OF assms(2)])
qed

lemma runs_onD:
  assumes "runs_on T events Q J en L p"
  shows "shared_transport T events" "publishes L" "loop_of J en L" "e_client en = noting (shared_client T Q (lp_client L))"
    "strand_waits (t_codes T) (lp_client L) p Q"
  using assms by (simp_all add: runs_on_def)

text \<open>A receive, up to where the coroutine of the loop has the result.\<close>

lemma noting_recv_reaches:
  fixes s s1 :: "('w, 'h) hosted_strand"
  assumes on: "runs_on T events Q J en L p" and "loop_inv L p (s, l)" and "stage l = Ready"
    and recv: "c_recv (e_client en) s = Some (Ret r, s1)"
  obtains u where "reaches (t_codes T) L p (s, l) (enter (Popped r) p u, l\<lparr>stage := Receiving_Result\<rparr>)"
    and "s1 = jot [Got r] u" and "procs u p = None" and "handlers u = handlers s"
proof -
  from recv obtain u where "shared_recv T Q (lp_client L) s = Some (Ret r, u)" and "s1 = jot [Got r] u"
    by (auto simp: runs_onD(4) [OF on] noting_def noted_run shared_client_def)
  with recv_reaches [OF assms(2,3) runs_onD(5) [OF on]] that show thesis by blast
qed

text \<open>One receive of the entity with its reaction to an error, whether it ends the loop or not.\<close>

lemma handle_err_reaches:
  assumes on: "runs_on T events Q J en L p" and inv: "loop_inv L p (s, l)" and "stage l = Ready"
    and recv: "c_recv (e_client en) s = Some (Ret (Inl e), s1)" and handle: "handle_err J en e s1 = Some (Ret e', s2)"
  shows "\<exists>l'. reaches (t_codes T) L p (s, l) (s2, l') \<and> stage l' = after_setup e' \<and> started l' = started l \<and>
    handlers s2 = handlers s"
proof -
  let ?E = "t_codes T" and ?l = "l\<lparr>stage := Receiving_Result\<rparr>"
  obtain u where got: "reaches ?E L p (s, l) (enter (Popped (Inl e)) p u, ?l)"
    and s1: "s1 = jot [Got (Inl e)] u" and u: "procs u p = None" "handlers u = handlers s"
    by (rule noting_recv_reaches [OF on inv assms(3) recv])
  obtain m rqs where m: "loop_received L (Inl e) ?l = (m, rqs)" by (cases "loop_received L (Inl e) ?l")
  have "reaches ?E L p (enter (Popped (Inl e)) p u, ?l) (jot (Got (Inl e) # map Asked rqs) u, m)"
    by (rule reaches_react [OF _ u(1) reaches_inv [OF got inv] m]) simp
  with got have to: "reaches ?E L p (s, l) (jot (map Asked rqs) s1, m)" by (auto simp: s1 intro: reaches_trans)
  show ?thesis
  proof (cases "e = make_error_code SessionReset")
    case True
    with handle have run: "entity_setup J en s1 = Some (Ret e', s2)" by (simp add: handle_err_def)
    have m': "stage m = Discovering" "started m = started l" "rqs = [lp_discovery L]"
      using True m by (auto simp: loop_received_def)
    then have "loop_inv L p (jot [Asked (lp_discovery L)] s1, m)" using reaches_inv [OF to inv] by simp
    from setup_reaches [OF runs_onD(1-4) [OF on] run this m'(1), of ?E] to m'(2,3) u(2)
    show ?thesis by (auto simp: s1 intro: reaches_trans)
  next
    case False
    with handle have "e' = e" "s2 = s1" by (simp_all add: handle_err_def co_return_run)
    moreover have "rqs = []" "stage m = after_setup e" "started m = started l"
      using m False by (auto simp: loop_received_def after_setup_def split: if_splits)
    ultimately show ?thesis using to u(2) by (intro exI [of _ m]) (simp add: s1)
  qed
qed

lemma entity_recv_reaches:
  assumes "entity_recv J en s = Some (r, s')" and on: "runs_on T events Q J en L p"
    and "loop_inv L p (s, l)" and "stage l = Ready"
  shows "(\<forall>e. r = Ret (Inl e) \<longrightarrow> (\<exists>l'. reaches (t_codes T) L p (s, l) (s', l') \<and> stage l' = Ended e \<and>
      started l' = started l \<and> handlers s' = handlers s)) \<and>
    (\<forall>pk. r = Ret (Inr pk) \<longrightarrow> (\<exists>l' u. reaches (t_codes T) L p (s, l) (enter (Popped (Inr pk)) p u, l') \<and>
      stage l' = Receiving_Result \<and> started l' = started l \<and> procs u p = None \<and> handlers u = handlers s \<and>
      s' = jot [Got (Inr pk)] u))"
  using assms(1,3,4)
proof (induction arbitrary: l rule: entity_recv_induct)
  case (Packet s pk s1)
  obtain u where "reaches (t_codes T) L p (s, l) (enter (Popped (Inr pk)) p u, l\<lparr>stage := Receiving_Result\<rparr>)"
    and "s1 = jot [Got (Inr pk)] u" and "procs u p = None" and "handlers u = handlers s"
    by (rule noting_recv_reaches [OF on Packet(2,3,1)])
  then show ?case by (auto intro!: exI [of _ "l\<lparr>stage := Receiving_Result\<rparr>"])
next
  case (Fail s e s1 e' s2)
  from handle_err_reaches [OF on Fail(4,5,1,2)] Fail(3) show ?case by (auto simp: after_setup_def)
next
  case (Again s e s1 e' s2 r s')
  from handle_err_reaches [OF on Again(5,6,1,2)] Again(3)
  obtain m where to: "reaches (t_codes T) L p (s, l) (s2, m)" and m: "stage m = Ready" "started m = started l"
    and kept: "handlers s2 = handlers s" by (auto simp: after_setup_def)
  from Again.IH [OF reaches_inv [OF to Again(5)] m(1)] m(2) kept reaches_trans [OF to] show ?case by metis
qed simp_all

lemma run_loop_reaches:
  assumes "run_loop J en on_packet s = Some (r, s')" and on: "runs_on T events Q J en L p"
    and packets: "\<And>pk. on_packet pk = on_handlers (lp_packet L pk)"
    and "loop_inv L p (s, l)" and "stage l = Ready" and "started l = handlers s"
  shows "\<forall>e. r = Ret e \<longrightarrow> (\<exists>l'. reaches (t_codes T) L p (s, l) (s', l') \<and> stage l' = Ended e \<and> started l' = handlers s')"
  using assms(1,4,5,6)
proof (induction arbitrary: l rule: run_loop_induct)
  case (Error s e s1)
  from entity_recv_reaches [OF Error(1) on Error(2,3)] Error(4) show ?case by auto
next
  case (Packet s pk s1 u s2 r s')
  from entity_recv_reaches [OF Packet(1) on Packet(4,5)] Packet(6)
  obtain m v where to: "reaches (t_codes T) L p (s, l) (enter (Popped (Inr pk)) p v, m)"
    and m: "stage m = Receiving_Result" "started m = handlers v" and free: "procs v p = None"
    and s1: "s1 = jot [Got (Inr pk)] v" by auto
  from Packet(2) obtain hs where react: "lp_packet L pk (handlers v) = Some (Ret u, hs)" and s2: "s2 = s1\<lparr>handlers := hs\<rparr>"
    unfolding packets on_handlers_def by (auto simp: s1 split: option.splits)
  let ?m = "m\<lparr>stage := Ready, started := hs\<rparr>"
  have "loop_received L (Inr pk) m = (?m, [])" using react m(2) by (simp add: loop_received_def)
  from reaches_trans [OF to reaches_react [OF m(1) free reaches_inv [OF to Packet(4)] this]]
  have there: "reaches (t_codes T) L p (s, l) (s1, ?m)" by (simp add: s1)
  note there
  also have "reaches (t_codes T) L p (s1, ?m) (s2, ?m)"
    by (rule reaches_elsewhere [OF reaches_inv [OF there Packet(4)]]) (simp_all add: s2)
  finally have here: "reaches (t_codes T) L p (s, l) (s2, ?m)" .
  have "stage ?m = Ready" "started ?m = handlers s2" by (simp_all add: s2)
  from Packet.IH [OF reaches_inv [OF here Packet(4)] this] reaches_trans [OF here] show ?case by blast
qed simp_all

lemma loops_publish:
  "publishes (button_loop J i bt)" "publishes (cover_loop J i cv)" "publishes (sensor_loop J i cf)"
  "publishes (binary_sensor_loop J i cf)"
  "lp_client (button_loop J i bt) = i" "lp_client (cover_loop J i cv) = i" "lp_client (sensor_loop J i cf) = i"
  "lp_client (binary_sensor_loop J i cf) = i"
  by (auto simp: publishes_def button_loop_def cover_loop_def sensor_loop_def binary_sensor_loop_def loop_for_def
      availability_request_def bind_res_def map_res_def split: res.splits if_splits)

section \<open>Property\<close>

text \<open>A run from \<open>s\<close> to \<open>s'\<close> that returns \<open>e\<close>, as a run of the pieces with the same handlers and the same history.\<close>

definition in_pieces :: "ext_codes \<Rightarrow> 'h loop_code \<Rightarrow> nat \<Rightarrow> ('w, 'h) hosted_strand \<Rightarrow> error_code \<Rightarrow> ('w, 'h) hosted_strand \<Rightarrow> bool" where
  "in_pieces E L p s e s' \<longleftrightarrow> (\<exists>tr. loop_trace E L p (s, \<lparr>stage = Ready, started = handlers s\<rparr>) tr
      (s', \<lparr>stage = Ended e, started = handlers s'\<rparr>) \<and> history s' = history s @ trace_notes tr)"

lemma run_is_interleaving:
  fixes s s' :: "('w, 'h) hosted_strand"
  assumes "shared_transport T events" and "strand_waits (t_codes T) i p Q" and "owns i p s" and "procs s p = None"
    and run: "run_loop J en on_packet s = Some (Ret e, s')" and "loop_of J en L" and "e_client en = noting (shared_client T Q i)"
    and client: "lp_client L = i" and "publishes L" and on_packet: "\<And>pk. on_packet pk = on_handlers (lp_packet L pk)"
  shows "in_pieces (t_codes T) L p s e s'"
proof -
  have on: "runs_on T events Q J en L p" using assms by (simp add: runs_on_def)
  have "loop_inv L p (s, \<lparr>stage = Ready, started = handlers s\<rparr>)" using assms(3,4) client by (simp add: owns_inv)
  from run_loop_reaches [OF run on on_packet this] obtain l' where
    "reaches (t_codes T) L p (s, \<lparr>stage = Ready, started = handlers s\<rparr>) (s', l')" "stage l' = Ended e" "started l' = handlers s'"
    by auto
  moreover from this have "l' = \<lparr>stage = Ended e, started = handlers s'\<rparr>" by (cases l') simp
  ultimately show ?thesis by (simp add: reaches_def in_pieces_def)
qed

text \<open>
  C6: The run loops of the four entities, as the sequential model has them, on a client of a shared
  connection, are among the interleavings that the properties of a house are about: when \<open>async_run\<close>
  returns \<open>e\<close>, the pieces of the loop have taken the strand from where the run began to where it ended,
  the physical client and, during the waits, the other coroutines taking steps in between, and the loop has
  ended with \<open>e\<close> and started the same handlers. In both the entity has received the same results, has asked
  its client for the same, request by request (after a session reset the discovery document, the
  subscription and the availability), and has got the same answers, all in the same order.
\<close>

theorem runs_are_interleavings:
  fixes s s' :: "('w, 'h) hosted_strand"
  assumes "shared_transport T events" and "strand_waits (t_codes T) i p Q" and "owns i p s" and "procs s p = None"
  shows "(button_run J spawn_handler (noting (shared_client T Q i)) bt s = Some (Ret e, s') \<longrightarrow>
      in_pieces (t_codes T) (button_loop J i bt) p s e s') \<and>
    (cover_run J spawn_handler (noting (shared_client T Q i)) cv s = Some (Ret e, s') \<longrightarrow>
      in_pieces (t_codes T) (cover_loop J i cv) p s e s') \<and>
    (sensor_run J (noting (shared_client T Q i)) cf s = Some (Ret e, s') \<longrightarrow>
      in_pieces (t_codes T) (sensor_loop J i cf) p s e s') \<and>
    (binary_sensor_run J (noting (shared_client T Q i)) cf s = Some (Ret e, s') \<longrightarrow>
      in_pieces (t_codes T) (binary_sensor_loop J i cf) p s e s')"
proof -
  let ?C = "noting (shared_client T Q i)"
  note one = run_is_interleaving [OF assms]
  show ?thesis
  proof (intro conjI impI)
    assume "button_run J spawn_handler ?C bt s = Some (Ret e, s')"
    then show "in_pieces (t_codes T) (button_loop J i bt) p s e s'"
      unfolding button_run_def
      by (rule one [OF _ loops_of(1) _ loops_publish(5,1)]) (simp_all add: button_entity_def button_loop_def loop_for_def
          packets_on_handlers on_handlers_simps)
  next
    assume "cover_run J spawn_handler ?C cv s = Some (Ret e, s')"
    then show "in_pieces (t_codes T) (cover_loop J i cv) p s e s'"
      unfolding cover_run_def
      by (rule one [OF _ loops_of(2) _ loops_publish(6,2)]) (simp_all add: cover_entity_def cover_loop_def loop_for_def
          packets_on_handlers on_handlers_simps)
  next
    assume "sensor_run J ?C cf s = Some (Ret e, s')"
    then show "in_pieces (t_codes T) (sensor_loop J i cf) p s e s'"
      unfolding sensor_run_def
      by (rule one [OF _ loops_of(3) _ loops_publish(7,3)]) (simp_all add: sensor_entity_def sensor_loop_def loop_for_def
          packets_on_handlers on_handlers_simps)
  next
    assume "binary_sensor_run J ?C cf s = Some (Ret e, s')"
    then show "in_pieces (t_codes T) (binary_sensor_loop J i cf) p s e s'"
      unfolding binary_sensor_run_def
      by (rule one [OF _ loops_of(4) _ loops_publish(8,4)]) (simp_all add: binary_sensor_entity_def binary_sensor_loop_def loop_for_def
          packets_on_handlers on_handlers_simps)
  qed
qed

text \<open>
  An example: the button waits three times; the pump gets a session reset, then a press, then an error. Coroutine 2
  is the pump's run loop and coroutine 3 the button.
\<close>

definition next_result :: "(sim, nat) hosted_strand \<Rightarrow> recv_result" where
  "next_result s = (if history s = [] then Inl (make_error_code SessionReset)
     else if handlers s = [] then Inr (Publish b1_press) else Inl (make_error_code InvalidPacket))"

definition press_wait :: "nat \<Rightarrow> (error_code, (sim, nat) hosted_strand) coro" where
  "press_wait i s =
     (let s' = pump_end True (next_result s) 2 (enter (Queue_Waiting i) 3 s)
      in if procs s 2 = Some (Pumping True) \<and> procs s' 3 = Some (Queue_Woken i) \<and> handlers s' = handlers s \<and> history s' = history s
         then Some (Ret operation_aborted, leave 3 s') else None)"

definition press_timers :: "(sim, (nat, unit) hosted_strand_ext shared_strand_ext) shared_scheme queue_timers" where
  "press_timers = \<lparr>q_wait = press_wait, q_cancel = wake_queue\<rparr>"

definition hosted :: "sim \<Rightarrow> nat list \<Rightarrow> loop_note list \<Rightarrow> recv_result list \<Rightarrow> (nat \<Rightarrow> shared_pc option) \<Rightarrow> (sim, nat) hosted_strand" where
  "hosted w hs ns q ps =
     \<lparr>impl = w, config = default_config, state = Connected, attempt = 0,
      max_attempts = DefaultMaxAutoreconnectAttempts, clients = [4],
      states = [4 \<mapsto> \<lparr>sc_queue = q, sc_topics = [b1_topic]\<rparr>], procs = ps, handlers = hs, history = ns\<rparr>"

definition hosted_start :: "(sim, nat) hosted_strand" where
  "hosted_start = hosted idle_sim [] [] [] [2 \<mapsto> Pumping True]"

lemma hosted_start_owns: "owns 4 3 hosted_start"
  by (simp add: owns_def hosted_start_def hosted_def sched_inv_def solo_inv_def shared_inv_def topics_of_def queue_of_def)

lemma press_waits: "strand_waits E i 3 press_timers"
  unfolding strand_waits_def
proof (intro allI impI)
  fix s ec s'
  assume "q_wait press_timers i s = Some (Ret ec, s')" and free: "procs s 3 = None" and owns: "owns i 3 (enter (Queue_Waiting i) 3 s)"
  let ?s = "enter (Queue_Waiting i) 3 s" let ?t = "pump_end True (next_result s) 2 ?s"
  from \<open>q_wait press_timers i s = _\<close> have pump: "procs s 2 = Some (Pumping True)"
    and woken: "procs ?t 3 = Some (Queue_Woken i)" "handlers ?t = handlers s" "history ?t = history s" and s': "s' = leave 3 ?t"
    by (auto simp: press_timers_def press_wait_def Let_def split: if_splits)
  have at: "procs ?s 2 = Some (Pumping True)" using pump by simp
  have "loop_inv (undefined\<lparr>lp_client := i\<rparr> :: nat loop_code) 3 (?s, \<lparr>stage = Receiving_Result, started = []\<rparr>)"
    using owns by (simp add: owns_inv)
  from pump_foreign [OF this at, of "next_result s"] have "foreign i 3 ?s (Arrived (next_result s)) ?t" by simp
  from more_env [OF no_env shared_step.end_pump [OF at] this] have "envs E i 3 ?s ?t" .
  moreover have "enter (Queue_Woken i) 3 s' = ?t"
    using woken(1) by (simp add: s' enter_def leave_def fun_upd_idem)
  ultimately show "procs s' 3 = None \<and> handlers s' = handlers s \<and> history s' = history s \<and> envs E i 3 ?s (enter (Queue_Woken i) 3 s')"
    using woken(2,3) by (simp add: s') (simp add: leave_def)
qed

text \<open>Where the pump is after a result.\<close>

definition pump_after :: "recv_result \<Rightarrow> shared_pc" where
  "pump_after r = (if r = Inl (make_error_code InvalidPacket) then Done (make_error_code InvalidPacket) else Pumping True)"

lemma hosted_simps [simp]:
  "register_client 4 (hosted w hs ns q ps) = hosted w hs ns q ps" "queue_of (hosted w hs ns q ps) 4 = q"
  "jot ms (hosted w hs ns q ps) = hosted w hs (ns @ ms) q ps" "clients (hosted w hs ns q ps) = [4]"
  "states (hosted w hs ns q ps) = [4 \<mapsto> \<lparr>sc_queue = q, sc_topics = [b1_topic]\<rparr>]" "procs (hosted w hs ns q ps) = ps"
  "handlers (hosted w hs ns q ps) = hs" "history (hosted w hs ns q ps) = ns"
  "enter c p (hosted w hs ns q ps) = hosted w hs ns q (ps(p \<mapsto> c))" "leave p (hosted w hs ns q ps) = hosted w hs ns q (ps(p := None))"
  "remove_expired_clients (hosted w hs ns q ps) = hosted w hs ns q ps"
  "change_state 4 (sc_queue_update f) (hosted w hs ns q ps) = hosted w hs ns (f q) ps"
  by (simp_all add: register_client_def registered_def locks_def queue_of_def hosted_def jot_def enter_def leave_def
      remove_expired_clients_def change_state_def)

lemma hosted_push: "queue_push strand_timers 4 r (hosted w hs ns [] [3 \<mapsto> Queue_Waiting 4, 2 \<mapsto> c]) =
    Some (Ret (), hosted w hs ns [r] [3 \<mapsto> Queue_Woken 4, 2 \<mapsto> c])" if "c \<noteq> Queue_Waiting 4"
  using that by (simp add: queue_push_def assign_run co_return_run strand_timers_def wake_queue_def)
    (simp add: hosted_def fun_eq_iff)

lemma press_pumped:
  assumes "r \<in> {Inl (make_error_code SessionReset), Inr (Publish b1_press), Inl (make_error_code InvalidPacket)}"
  shows "pump_end True r 2 (hosted w hs ns [] [3 \<mapsto> Queue_Waiting 4, 2 \<mapsto> Pumping True]) =
     hosted w hs ns [r] [3 \<mapsto> Queue_Woken 4, 2 \<mapsto> pump_after r]"
proof -
  have "sub_topic b1_topic = pk_topic b1_press" by (simp add: b1_topic_def b1_press_def)
  with assms show ?thesis
    by (auto simp: pump_end_def pump_received_def forward_error_def forward_packet_def reading_run await_Ret co_return_run
        hosted_push pump_after_def pump_begin_def failed_def make_error_code_def)
qed

abbreviation button_client :: "(sim, nat) hosted_strand client_ops" where
  "button_client \<equiv> noting (shared_client (sim_transport sim_codes) press_timers 4)"

lemma press_receives:
  assumes "r = next_result (hosted w hs ns [] [2 \<mapsto> Pumping True])"
  shows "c_recv button_client (hosted w hs ns [] [2 \<mapsto> Pumping True]) =
    Some (Ret r, hosted w hs (ns @ [Got r]) [] [2 \<mapsto> pump_after r])"
proof -
  let ?s = "hosted w hs ns [] [2 \<mapsto> Pumping True]"
  have "r \<in> {Inl (make_error_code SessionReset), Inr (Publish b1_press), Inl (make_error_code InvalidPacket)}"
    using assms by (simp add: next_result_def)
  moreover have "[2 \<mapsto> Pumping True, (3 :: nat) \<mapsto> Queue_Waiting 4] = [3 \<mapsto> Queue_Waiting 4, 2 \<mapsto> Pumping True]" by (rule fun_upd_twist) simp
  moreover have "[3 \<mapsto> x, 2 \<mapsto> c](3 := None) = [(2 :: nat) \<mapsto> c]" for x c :: shared_pc by (rule ext) simp
  ultimately have "press_wait 4 ?s = Some (Ret operation_aborted, hosted w hs ns [r] [2 \<mapsto> pump_after r])"
    using press_pumped [of r w hs ns] assms by (simp add: press_wait_def)
  then have "shared_recv (sim_transport sim_codes) press_timers 4 ?s = Some (Ret r, hosted w hs ns [] [2 \<mapsto> pump_after r])"
    by (simp add: recv_in_pieces press_timers_def await_Ret queue_take_run)
  then show ?thesis by (simp add: noting_def shared_client_def noted_run)
qed

text \<open>The requests of a setup succeed.\<close>

definition willing :: "sim \<Rightarrow> bool" where
  "willing w \<longleftrightarrow> sim_publishes w = [] \<and> sim_subscribes w = []"

lemma request_answered:
  assumes "willing w" and "rq = Sub [b1_topic] \<or> (\<exists>t p q r. rq = Pub t p q r)"
  shows "\<exists>w'. willing w' \<and> perform button_client rq (hosted w hs ns [] ps) =
    Some (Ret (make_error_code Success), hosted w' hs (ns @ [Asked rq, Told (make_error_code Success)]) [] ps)"
proof -
  let ?s = "hosted w hs (ns @ [Asked rq]) [] ps" and ?ok = "make_error_code Success"
  have "\<exists>w'. willing w' \<and> async_publish (sim_transport sim_codes) t p q r ?s = Some (Ret ?ok, hosted w' hs (ns @ [Asked rq]) [] ps)" for t p q r
    using assms(1) by (cases "q = at_most_once")
      (auto simp: hosted_def willing_def async_publish_def when_connected_ready sim_defs coro_simps await_def failed_def
        make_error_code_def Let_def)
  moreover have "\<exists>w'. willing w' \<and> async_subscribe (sim_transport sim_codes) [b1_topic] ?s = Some (Ret ?ok, hosted w' hs (ns @ [Asked rq]) [] ps)"
    using assms(1)
    by (auto simp: hosted_def willing_def async_subscribe_def when_connected_ready sim_defs coro_simps await_def failed_def
        make_error_code_def Let_def)
  then obtain w' where w': "willing w'"
    "async_subscribe (sim_transport sim_codes) [b1_topic] ?s = Some (Ret ?ok, hosted w' hs (ns @ [Asked rq]) [] ps)" by blast
  have "change_state 4 (sc_topics_update (register_topics [b1_topic])) (hosted w' hs ns' [] ps) = hosted w' hs ns' [] ps" for ns'
    by (simp add: change_state_def hosted_def register_topics_def)
  with w' have "\<exists>w'. willing w' \<and> shared_subscribe (sim_transport sim_codes) 4 [b1_topic] ?s = Some (Ret ?ok, hosted w' hs (ns @ [Asked rq]) [] ps)"
    by (simp add: shared_subscribe_def await_Ret subscribe_answered_def assign_run co_return_run failed_def make_error_code_def)
      blast
  ultimately have "\<exists>w'. willing w' \<and> perform (shared_client (sim_transport sim_codes) press_timers 4) rq ?s =
      Some (Ret ?ok, hosted w' hs (ns @ [Asked rq]) [] ps)"
    using assms(2) by (auto simp: perform_def shared_client_def shared_publish_def)
  then show ?thesis by (fastforce simp: perform_noting noted_run)
qed

abbreviation pumping_host :: "sim \<Rightarrow> nat list \<Rightarrow> loop_note list \<Rightarrow> (sim, nat) hosted_strand" where
  "pumping_host w hs ns \<equiv> hosted w hs ns [] [2 \<mapsto> Pumping True]"

definition answered_all :: "request list \<Rightarrow> loop_note list" where
  "answered_all rqs = concat (map (\<lambda>rq. [Asked rq, Told (make_error_code Success)]) rqs)"

lemma button_announces:
  assumes "button_of alist_json ''b1'' (7::nat) = Ret cf" and "willing w"
  shows "\<exists>w'. entity_setup alist_json (button_entity alist_json button_client cf) (pumping_host w hs ns) =
    Some (Ret (make_error_code Success), pumping_host w' hs (ns @ answered_all (announcement_of (button_loop alist_json 4 cf))))"
proof -
  let ?C = button_client and ?ok = "make_error_code Success" and ?L = "button_loop alist_json 4 cf"
  define rq where "rq = Pub (default_component_availability_topic Button_Component ''b1'') ''online'' at_least_once True"
  have parts: "lp_subscription ?L = Ret (Some [b1_topic])" "lp_availability ?L = Ret (Some rq)"
    using button_loop_setup [OF alist.json_laws_axioms assms(1), of 4] by (simp_all add: b1_topic_def rq_def)
  have pub: "\<exists>t p q r. rq = Pub t p q r" "\<exists>t p q r. lp_discovery ?L = Pub t p q r"
    by (simp add: rq_def, blast) (simp add: button_loop_def loop_for_def, blast)
  let ?n1 = "ns @ [Asked (lp_discovery ?L), Told ?ok]" let ?n2 = "?n1 @ [Asked (Sub [b1_topic]), Told ?ok]"
  obtain w1 where w1: "willing w1" "perform ?C (lp_discovery ?L) (pumping_host w hs ns) = Some (Ret ?ok, pumping_host w1 hs ?n1)"
    using request_answered [OF assms(2), of "lp_discovery ?L"] pub(2) by blast
  obtain w2 where w2: "willing w2" "perform ?C (Sub [b1_topic]) (pumping_host w1 hs ?n1) = Some (Ret ?ok, pumping_host w2 hs ?n2)"
    using request_answered [OF w1(1), of "Sub [b1_topic]"] by blast
  obtain w3 where w3: "perform ?C rq (pumping_host w2 hs ?n2) = Some (Ret ?ok, pumping_host w3 hs (?n2 @ [Asked rq, Told ?ok]))"
    using request_answered [OF w2(1), of rq] pub(1) by blast
  have "loop_of alist_json (button_entity alist_json ?C cf) ?L" by (rule loops_of(1))
  moreover have "e_client (button_entity alist_json ?C cf) = ?C" by (simp add: button_entity_def)
  moreover have "\<not> failed ?ok" by (simp add: failed_def make_error_code_def)
  moreover have "announcement_of ?L = [lp_discovery ?L, Sub [b1_topic], rq]"
    by (simp add: announcement_of_def subscription_requests_def availability_requests_def parts)
  ultimately show ?thesis
    by (simp add: loop_of_setup await_Ret w1(2) w2(2) [simplified] w3 [simplified] parts eval_Ret answered_all_def) blast
qed

lemma press_run:
  obtains cf doc s' where "button_of alist_json ''b1'' (7::nat) = Ret cf" and "appliance_doc alist_json (A_Button ''b1'' (7::nat)) = Ret doc"
    and "button_run alist_json spawn_handler button_client cf hosted_start = Some (Ret (make_error_code InvalidPacket), s')"
    and "handlers s' = [7]"
    and "history s' = Got (Inl (make_error_code SessionReset)) # answered_all (announcement (A_Button ''b1'' (7::nat)) doc) @
      [Got (Inr (Publish b1_press)), Got (Inl (make_error_code InvalidPacket))]"
proof -
  let ?C = button_client and ?reset = "Inl (make_error_code SessionReset) :: recv_result"
    and ?press = "Inr (Publish b1_press) :: recv_result" and ?bad = "Inl (make_error_code InvalidPacket) :: recv_result"
  obtain cf where cf: "button_of alist_json ''b1'' (7::nat) = Ret cf" by (rule alist_button)
  let ?en = "button_entity alist_json ?C cf"
  obtain doc where doc: "appliance_doc alist_json (A_Button ''b1'' (7::nat)) = Ret doc"
    "announcement_of (button_loop alist_json 4 cf) = announcement (A_Button ''b1'' (7::nat)) doc"
    using json_laws.appliance_loop_facts [OF alist.json_laws_axioms, of 4 "A_Button ''b1'' (7::nat)"] cf by auto
  let ?ns = "Got ?reset # answered_all (announcement (A_Button ''b1'' (7::nat)) doc)"
  have en: "e_client ?en = ?C" by (simp add: button_entity_def)
  have "willing idle_sim" by (simp add: willing_def idle_sim_def)
  from button_announces [OF cf this, of "[]" "[Got ?reset]"] obtain w where
    announced: "entity_setup alist_json ?en (pumping_host idle_sim [] [Got ?reset]) = Some (Ret (make_error_code Success), pumping_host w [] ?ns)"
    by (auto simp: doc(2))
  have codes: "failed (make_error_code InvalidPacket)" "\<not> failed (make_error_code Success)"
    "make_error_code InvalidPacket \<noteq> make_error_code SessionReset" by (simp_all add: failed_def make_error_code_def)
  define s' where "s' = hosted w [7] (?ns @ [Got ?press, Got ?bad]) [] [2 \<mapsto> Done (make_error_code InvalidPacket)]"
  have recv: "c_recv ?C (pumping_host idle_sim [] []) = Some (Ret ?reset, pumping_host idle_sim [] [Got ?reset])"
    "c_recv ?C (pumping_host w [] ?ns) = Some (Ret ?press, pumping_host w [] (?ns @ [Got ?press]))"
    "c_recv ?C (pumping_host w [7] (?ns @ [Got ?press])) = Some (Ret ?bad, s')"
    by (simp_all add: press_receives [OF refl] next_result_def pump_after_def s'_def codes)
  have pressed: "button_on_packet alist_json spawn_handler cf (Publish b1_press) (pumping_host w [] ns) = Some (Ret (), pumping_host w [7] ns)" for ns
    by (simp add: button_on_packet_press [OF alist.json_laws_axioms cf] is_press_def b1_press_def assign_run co_return_run
        spawn_handler_def hosted_def)
  let ?loop = "run_loop alist_json ?en (button_on_packet alist_json spawn_handler cf)"
  have "?loop (pumping_host w [7] (?ns @ [Got ?press])) = Some (Ret (make_error_code InvalidPacket), s')"
    by (subst run_loop_turn) (simp only: en await_def recv, simp add: handle_err_def codes co_return_run await_Ret)
  then have "?loop (pumping_host w [] ?ns) = Some (Ret (make_error_code InvalidPacket), s')"
    by (subst run_loop_turn) (simp only: en await_def recv, simp add: await_Ret pressed)
  then have "?loop (pumping_host idle_sim [] []) = Some (Ret (make_error_code InvalidPacket), s')"
    by (subst run_loop_turn) (simp only: en await_def recv, simp add: handle_err_def announced await_Ret codes)
  then have "button_run alist_json spawn_handler ?C cf hosted_start = Some (Ret (make_error_code InvalidPacket), s')"
    by (simp add: button_run_def hosted_start_def)
  from that [OF cf doc(1) this] show thesis by (simp add: s'_def)
qed

theorem runs_are_interleavings_witness:
  "\<exists>cf doc s' tr. button_of alist_json ''b1'' (7::nat) = Ret cf \<and> appliance_doc alist_json (A_Button ''b1'' (7::nat)) = Ret doc \<and>
     button_run alist_json spawn_handler button_client cf hosted_start = Some (Ret (make_error_code InvalidPacket), s') \<and>
     handlers s' = [7] \<and>
     loop_trace sim_codes (button_loop alist_json 4 cf) 3 (hosted_start, \<lparr>stage = Ready, started = []\<rparr>) tr
       (s', \<lparr>stage = Ended (make_error_code InvalidPacket), started = [7]\<rparr>) \<and>
     trace_notes tr = Got (Inl (make_error_code SessionReset)) #
       answered_all (announcement (A_Button ''b1'' (7::nat)) doc) @
       [Got (Inr (Publish b1_press)), Got (Inl (make_error_code InvalidPacket))]"
proof -
  obtain cf doc s' where run: "button_of alist_json ''b1'' (7::nat) = Ret cf" "appliance_doc alist_json (A_Button ''b1'' (7::nat)) = Ret doc"
    "button_run alist_json spawn_handler button_client cf hosted_start = Some (Ret (make_error_code InvalidPacket), s')"
    "handlers s' = [7]" and history: "history s' = Got (Inl (make_error_code SessionReset)) #
      answered_all (announcement (A_Button ''b1'' (7::nat)) doc) @
      [Got (Inr (Publish b1_press)), Got (Inl (make_error_code InvalidPacket))]" by (rule press_run)
  have start: "procs hosted_start 3 = None" "handlers hosted_start = []" "history hosted_start = []"
    by (simp_all add: hosted_start_def hosted_def)
  have "in_pieces sim_codes (button_loop alist_json 4 cf) 3 hosted_start (make_error_code InvalidPacket) s'"
    using runs_are_interleavings [OF sim_shared.shared_transport_axioms press_waits hosted_start_owns start(1), THEN conjunct1,
        rule_format, OF run(3)] by (simp only: sim_transport_codes)
  with run history start(2,3) show ?thesis unfolding in_pieces_def by auto
qed

end
