(* ===== verification/Linked_System.thy ===== *)
theory Linked_System
  imports Loop_System Client_Progress
begin

text \<open>
  A system of entities together with the physical client below its pump. \<open>Loop_System\<close> leaves open what
  the pump gets; here coroutine \<open>P\<close> runs the pump in both models: \<open>procs\<close> of the connection says that it
  awaits \<open>async_recv\<close> of the client, and \<open>pcs\<close> of the client where in \<open>async_recv\<close> it is. The two models take
  a step together when the receive begins and when it returns, and alone otherwise. What the client answers
  to publishes and subscriptions of the entities stays open.
\<close>

section \<open>What a step of the client shows\<close>

text \<open>The receive of \<open>P\<close> ends with a result, or because the reconnect loop it is in has connected the client.\<close>

datatype client_event =
    Works
  | Receives recv_result
  | Reestablishes

definition client_shows :: "nat \<Rightarrow> ('v, 'y) strand_scheme \<Rightarrow> ('v, 'y) strand_scheme \<Rightarrow> client_event" where
  "client_shows P g g' =
     (case pcs g' P of
        Some (Received r) \<Rightarrow>
          if pcs g P = Some (Received r) then Works
          else if in_loop (pcs g P) \<and> state g' = Connected then Reestablishes else Receives r
      | _ \<Rightarrow> Works)"

text \<open>The result that \<open>P\<close> has received and that the pump has not yet got.\<close>

definition held :: "nat \<Rightarrow> ('v, 'y) strand_scheme \<Rightarrow> recv_result list" where
  "held P g = (case pcs g P of Some (Received r) \<Rightarrow> [r] | _ \<Rightarrow> [])"

fun of_client :: "client_event \<Rightarrow> recv_result list" where
  "of_client Works = []"
| "of_client (Receives r) = [r]"
| "of_client Reestablishes = [Inl (make_error_code SessionReset)]"

lemma strand_step_shows:
  assumes "strand_step E g g'"
  shows "held P g' = held P g @ of_client (client_shows P g g')"
    and "resets (of_client (client_shows P g g')) = (if client_shows P g g' = Reestablishes then 1 else 0)"
  using assms
  by (cases rule: strand_step.cases; auto simp: piece_defs client_shows_def held_def resets_def split: option.splits pc.splits)+

section \<open>Steps\<close>

datatype linked_event =
    Client client_event
  | System system_event

fun pumping :: "shared_pc option \<Rightarrow> bool" where
  "pumping (Some (Pumping again)) = True"
| "pumping _ = False"

text \<open>A step aside of the pump: it neither begins nor ends a receive of the pump, and no other coroutine pumps.\<close>

definition aside :: "nat \<Rightarrow> ('w, 'h) system \<Rightarrow> system_event \<Rightarrow> ('w, 'h) system \<Rightarrow> bool" where
  "aside P c ev c' \<longleftrightarrow> pumping (procs (fst c') P) = pumping (procs (fst c) P) \<and> (\<forall>r. ev \<noteq> Others (Arrived r))"

definition forget :: "('v, 'y) piece" where
  "forget p g = g\<lparr>pcs := (pcs g)(p := None)\<rparr>"

inductive linked_step ::
  "ext_codes \<Rightarrow> 'h loops \<Rightarrow> nat \<Rightarrow> ('w, 'h) system \<times> 'v strand \<Rightarrow> linked_event \<Rightarrow> ('w, 'h) system \<times> 'v strand \<Rightarrow> bool"
  for E Ls P where
  client: "strand_step E g g' \<Longrightarrow> (pcs g P = None \<longrightarrow> pcs g' P = None) \<Longrightarrow>
    linked_step E Ls P (c, g) (Client (client_shows P g g')) (c, g')"
| system: "system_step E Ls c ev c' \<Longrightarrow> aside P c ev c' \<Longrightarrow> linked_step E Ls P (c, g) (System ev) (c', g)"
| pump_begins: "procs s P = None \<Longrightarrow> pcs g P = None \<Longrightarrow>
    system_step E Ls (s, ls) (Others Silent) (pump_begin again P s, ls) \<Longrightarrow>
    linked_step E Ls P ((s, ls), g) (System (Others Silent)) ((pump_begin again P s, ls), goto Receiving P g)"
| pump_ends: "procs s P = Some (Pumping again) \<Longrightarrow> pcs g P = Some (Received r) \<Longrightarrow>
    system_step E Ls (s, ls) (Others (Arrived r)) (pump_end again r P s, ls) \<Longrightarrow>
    linked_step E Ls P ((s, ls), g) (System (Others (Arrived r)))
      ((pump_end again r P s, ls), if pumping (procs (pump_end again r P s) P) then goto Receiving P g else forget P g)"

inductive linked_trace ::
  "ext_codes \<Rightarrow> 'h loops \<Rightarrow> nat \<Rightarrow> ('w, 'h) system \<times> 'v strand \<Rightarrow>
   ((('w, 'h) system \<times> 'v strand) \<times> linked_event) list \<Rightarrow> ('w, 'h) system \<times> 'v strand \<Rightarrow> bool"
  for E Ls P c0 where
  linked_Nil: "linked_trace E Ls P c0 [] c0"
| linked_snoc: "linked_trace E Ls P c0 tr c \<Longrightarrow> linked_step E Ls P c ev c' \<Longrightarrow>
    linked_trace E Ls P c0 (tr @ [(c, ev)]) c'"

section \<open>The system in it\<close>

text \<open>Seen from the entities, a step of the client is a step of another coroutine that leaves them alone.\<close>

fun system_event_of :: "linked_event \<Rightarrow> system_event" where
  "system_event_of (Client x) = Others Silent"
| "system_event_of (System ev) = ev"

definition system_part :: "((('w, 'h) system \<times> 'v strand) \<times> linked_event) list \<Rightarrow> (('w, 'h) system \<times> system_event) list" where
  "system_part tr = map (\<lambda>(c, ev). (fst c, system_event_of ev)) tr"

lemma system_stutters:
  assumes "system_inv Ls c"
  shows "system_step E Ls c (Others Silent) c"
proof -
  obtain s ls where c: "c = (s, ls)" by (cases c)
  have "foreign (lp_client L) p s Silent s" if "Ls p = Some L" for p L
    using assms that loop_invD(4) [of L p s "ls p"] by (auto simp: c system_inv_def foreign_def)
  with shared_step.elsewhere [of s s E True] show ?thesis unfolding c by (intro system_step.others) auto
qed

lemma linked_step_system:
  assumes "linked_step E Ls P c ev c'" and "system_inv Ls (fst c)"
  shows "system_step E Ls (fst c) (system_event_of ev) (fst c')"
  using assms(1) by (cases rule: linked_step.cases) (use assms(2) in \<open>auto intro: system_stutters\<close>)

text \<open>Both models agree on where \<open>P\<close> is.\<close>

fun receiving :: "pc option \<Rightarrow> bool" where
  "receiving (Some Receiving) = True"
| "receiving (Some (Received r)) = True"
| "receiving c = in_loop c"

definition link_inv :: "nat \<Rightarrow> ('w, 'h) system \<times> 'v strand \<Rightarrow> bool" where
  "link_inv P c \<longleftrightarrow> (if pumping (procs (fst (fst c)) P) then receiving (pcs (snd c) P) else pcs (snd c) P = None)"

lemma receiving_step:
  assumes "strand_step E g g'" and "receiving (pcs g P)"
  shows "receiving (pcs g' P)"
  using assms(1)
  by (cases rule: strand_step.cases) (use assms(2) in \<open>auto simp: piece_defs split: option.splits\<close>)

lemma linked_step_link:
  assumes "linked_step E Ls P c ev c'" and "link_inv P c"
  shows "link_inv P c'"
  using assms(1)
proof (cases rule: linked_step.cases)
  case (client g g' c)
  from receiving_step [OF client(4), of P] assms(2) client show ?thesis
    by (auto simp: link_inv_def split: if_splits)
qed (use assms(2) in \<open>auto simp: link_inv_def aside_def pump_begin_def forget_def\<close>)

section \<open>What the pump gets\<close>

fun got_by :: "linked_event \<Rightarrow> recv_result list" where
  "got_by (System (Others (Arrived r))) = [r]"
| "got_by ev = []"

fun obtained_by :: "linked_event \<Rightarrow> recv_result list" where
  "obtained_by (Client x) = of_client x"
| "obtained_by ev = []"

definition got :: "('c \<times> linked_event) list \<Rightarrow> recv_result list" where
  "got tr = concat (map (\<lambda>(c, ev). got_by ev) tr)"

definition obtained :: "('c \<times> linked_event) list \<Rightarrow> recv_result list" where
  "obtained tr = concat (map (\<lambda>(c, ev). obtained_by ev) tr)"

definition reestablished :: "('c \<times> linked_event) list \<Rightarrow> nat" where
  "reestablished tr = length (filter (\<lambda>(c, ev). ev = Client Reestablishes) tr)"

lemma linked_step_held:
  assumes "linked_step E Ls P c ev c'"
  shows "held P (snd c) @ obtained_by ev = got_by ev @ held P (snd c')"
    and "resets (obtained_by ev) = (if ev = Client Reestablishes then 1 else 0)"
proof -
  have "held P (snd c) @ obtained_by ev = got_by ev @ held P (snd c') \<and>
    resets (obtained_by ev) = (if ev = Client Reestablishes then 1 else 0)"
    using assms
  proof (cases rule: linked_step.cases)
    case (client g g' c)
    with strand_step_shows [OF client(4), of P] show ?thesis by simp
  next
    case (system c ev' c' g)
    then have "got_by (System ev') = []" by (cases "System ev'" rule: got_by.cases) (auto simp: aside_def)
    with system show ?thesis by (simp add: resets_def)
  qed (auto simp: held_def resets_def forget_def)
  then show "held P (snd c) @ obtained_by ev = got_by ev @ held P (snd c')"
    "resets (obtained_by ev) = (if ev = Client Reestablishes then 1 else 0)" by simp_all
qed

lemma linked_trace_facts:
  assumes "linked_trace E Ls P c0 tr c" and "apart_loops Ls" and "system_inv Ls (fst c0)"
  shows "system_trace E Ls (fst c0) (system_part tr) (fst c)"
    and "link_inv P c0 \<Longrightarrow> link_inv P c"
    and "held P (snd c0) @ obtained tr = got tr @ held P (snd c)"
    and "resets (obtained tr) = reestablished tr"
  using assms
proof (induction rule: linked_trace.induct)
  case linked_Nil
  { case 1 show ?case by (simp add: system_part_def system_Nil)
  next case 2 then show ?case by simp
  next case 3 show ?case by (simp add: obtained_def got_def)
  next case 4 show ?case by (simp add: obtained_def reestablished_def resets_def)
  }
next
  case (linked_snoc tr c ev c')
  note step = linked_snoc.hyps(2)
  { case 1
    with linked_snoc.IH(1) have tr: "system_trace E Ls (fst c0) (system_part tr) (fst c)" by simp
    from linked_step_system [OF step system_trace_view(1) [OF tr 1]] tr show ?case
      by (simp add: system_part_def) (rule system_snoc)
  next
    case 2
    with linked_snoc.IH(2) step show ?case by (blast intro: linked_step_link)
  next
    case 3
    with linked_snoc.IH(3) linked_step_held(1) [OF step] show ?case
      by (simp add: obtained_def got_def) (metis append_assoc)
  next
    case 4
    with linked_snoc.IH(4) linked_step_held(2) [OF step] show ?case
      by (simp add: obtained_def reestablished_def resets_def)
  }
qed

text \<open>A client that is registered all the time is meant by every result that the pump reports as an error.\<close>

definition stays_registered :: "nat \<Rightarrow> ((('w, 'h) system \<times> 'v strand) \<times> linked_event) list \<Rightarrow> bool" where
  "stays_registered i tr \<longleftrightarrow> (\<forall>(c, ev) \<in> set tr. registered (fst (fst c)) i)"

lemma resets_pumped:
  "resets (pumped i (system_part tr)) \<le> resets (got tr)"
  "stays_registered i tr \<Longrightarrow> resets (pumped i (system_part tr)) = resets (got tr)"
proof -
  have one: "resets (pumped_by i (fst c, system_event_of ev)) \<le> resets (got_by ev) \<and>
      (registered (fst (fst c)) i \<longrightarrow> resets (pumped_by i (fst c, system_event_of ev)) = resets (got_by ev))"
    for c :: "('w, 'h) system \<times> 'v strand" and ev
    by (cases c; cases ev rule: got_by.cases)
      (auto simp: resets_def relevant_def registered_def locks_def list_ex_iff split: sum.splits packet.splits)
  show "resets (pumped i (system_part tr)) \<le> resets (got tr)"
  proof (induction tr)
    case (Cons x tr)
    with one [of "fst x" "snd x"] show ?case
      by (auto simp: pumped_def got_def system_part_def resets_def split: prod.splits)
  qed (simp add: pumped_def got_def system_part_def)
  show "stays_registered i tr \<Longrightarrow> resets (pumped i (system_part tr)) = resets (got tr)"
  proof (induction tr)
    case (Cons x tr)
    with one [of "fst x" "snd x"] show ?case
      by (auto simp: pumped_def got_def system_part_def resets_def stays_registered_def split: prod.splits)
  qed (simp add: pumped_def got_def system_part_def)
qed

section \<open>Fair runs\<close>

text \<open>
  Every loop that can go on does, the pump takes what its receive has returned, and the coroutine that
  reconnects is resumed again and again.
\<close>

definition fair_linked ::
  "ext_codes \<Rightarrow> 'h loops \<Rightarrow> nat \<Rightarrow> (nat \<Rightarrow> ('w, 'h) system \<times> 'v strand) \<Rightarrow> (nat \<Rightarrow> linked_event) \<Rightarrow> bool" where
  "fair_linked E Ls P run ev \<longleftrightarrow>
     (\<forall>n. linked_step E Ls P (run n) (ev n) (run (Suc n))) \<and>
     (\<forall>p L n. Ls p = Some L \<longrightarrow>
       (\<exists>m\<ge>n. (\<exists>e. ev m = System (Own p e)) \<or> \<not> can_go (lp_client L) p (view p (fst (run m))))) \<and>
     (\<forall>n. \<exists>m\<ge>n. held P (snd (run m)) = []) \<and>
     (\<forall>n. in_loop (pcs (snd (run n)) P) \<longrightarrow> (\<exists>m\<ge>n. pcs (snd (run (Suc m))) P \<noteq> pcs (snd (run m)) P))"

text \<open>While \<open>P\<close> reconnects, no other coroutine connects the client.\<close>

definition reconnects_alone :: "nat \<Rightarrow> (nat \<Rightarrow> 's \<times> 'v strand) \<Rightarrow> bool" where
  "reconnects_alone P run \<longleftrightarrow> (\<forall>n. in_loop (pcs (snd (run n)) P) \<longrightarrow> in_loop (pcs (snd (run (Suc n))) P) \<longrightarrow>
     \<not> connects (snd (run n)) (snd (run (Suc n))))"

lemma fair_linked_prefix:
  assumes "\<forall>n. linked_step E Ls P (run n) (ev n) (run (Suc n))"
  shows "linked_trace E Ls P (run 0) (steps_before run ev n) (run n)"
proof (induction n)
  case 0
  show ?case by (simp add: steps_before_def linked_Nil)
next
  case (Suc n)
  from linked_snoc [OF Suc assms [rule_format]] show ?case by (simp add: steps_before_def)
qed

lemma steps_system: "steps_before (\<lambda>n. fst (run n)) (\<lambda>n. system_event_of (ev n)) n = system_part (steps_before run ev n)"
  by (simp add: steps_before_def system_part_def)

lemma fair_linked_system:
  assumes fair: "fair_linked E Ls P run ev" and "apart_loops Ls" and "system_inv Ls (fst (run 0))"
  shows "fair_system E Ls (\<lambda>n. fst (run n)) (\<lambda>n. system_event_of (ev n))"
proof -
  have step: "\<forall>n. linked_step E Ls P (run n) (ev n) (run (Suc n))" using fair by (simp add: fair_linked_def)
  have inv: "system_inv Ls (fst (run n))" for n
    using system_trace_view(1) [OF linked_trace_facts(1) [OF fair_linked_prefix [OF step] assms(2,3)] assms(2,3)] .
  have "system_step E Ls (fst (run n)) (system_event_of (ev n)) (fst (run (Suc n)))" for n
    by (rule linked_step_system [OF step [rule_format] inv])
  moreover have "\<exists>m\<ge>n. (\<exists>e. system_event_of (ev m) = Own p e) \<or> \<not> can_go (lp_client L) p (view p (fst (run m)))"
    if "Ls p = Some L" for p L n
    using fair that unfolding fair_linked_def by (metis system_event_of.simps(2))
  ultimately show ?thesis by (simp add: fair_system_def)
qed

section \<open>Lost connections\<close>

text \<open>In the loop the client takes its own steps; a result that is held is taken by the pump.\<close>

lemma linked_step_loop:
  assumes "linked_step E Ls P c ev c'" and "in_loop (pcs (snd c) P)"
  shows "strand_step E (snd c) (snd c') \<or> snd c' = snd c"
  using assms(1) by (cases rule: linked_step.cases) (use assms(2) in auto)

lemma linked_step_taken:
  assumes "linked_step E Ls P c ev c'" and "held P (snd c) = [r]" and "held P (snd c') \<noteq> [r]"
  shows "ev = System (Others (Arrived r))"
  using assms(1)
proof (cases rule: linked_step.cases)
  case (client g g' c)
  have "length (held P g') \<le> 1" by (simp add: held_def split: option.split pc.split)
  with strand_step_shows(1) [OF client(4), of P] assms(2,3) client show ?thesis by auto
qed (use assms(2,3) in \<open>auto simp: held_def\<close>)

lemma switches:
  assumes "k \<le> m" and "Q k" and "\<not> Q m"
  obtains j where "k \<le> j" and "Q j" and "\<not> Q (Suc j)"
proof -
  have "\<exists>j\<ge>k. Q j \<and> \<not> Q (Suc j)" using assms by (induction m rule: dec_induct) auto
  with that show thesis by blast
qed

text \<open>What the loop of \<open>P\<close> returns is a failure, and it reaches the pump.\<close>

lemma lost_connection_arrives:
  assumes fair: "fair_linked E Ls P run ev" and "reconnects_alone P run" and "in_loop (pcs (snd (run k)) P)"
  shows "\<exists>m\<ge>k. \<exists>e. ev m = System (Others (Arrived (Inl e))) \<and> failed e"
proof -
  have step: "linked_step E Ls P (run n) (ev n) (run (Suc n))" for n using fair by (simp add: fair_linked_def)
  have "\<exists>m>k. \<exists>x. pcs (snd (run m)) P = Some (Received x)"
    by (rule loop_returns [where run = "\<lambda>n. snd (run n)" and E = E])
      (use linked_step_loop [OF step] assms in \<open>auto simp: fair_linked_def reconnects_alone_def\<close>)
  then obtain m x where "m > k" "pcs (snd (run m)) P = Some (Received x)" by blast
  then have "k \<le> m" "\<not> in_loop (pcs (snd (run m)) P)" by simp_all
  from switches [where Q = "\<lambda>n. in_loop (pcs (snd (run n)) P)", OF this(1) assms(3) this(2)] obtain j where
    j: "k \<le> j" "in_loop (pcs (snd (run j)) P)" "\<not> in_loop (pcs (snd (run (Suc j))) P)" by blast
  then have moved: "strand_step E (snd (run j)) (snd (run (Suc j)))" using linked_step_loop [OF step j(2)] by auto
  from Client_Progress.loop_step [OF this j(2)] j obtain x where x: "pcs (snd (run (Suc j))) P = Some (Received x)" by auto
  from loop_result [OF moved j(2) x] obtain e where e: "x = Inl e" "failed e" by blast
  have now: "held P (snd (run (Suc j))) = [Inl e]" by (simp add: held_def x e)
  obtain n where "Suc j \<le> n" "held P (snd (run n)) = []" using fair unfolding fair_linked_def by blast
  with now switches [where Q = "\<lambda>n. held P (snd (run n)) = [Inl e]", of "Suc j" n] obtain i where
    i: "Suc j \<le> i" "held P (snd (run i)) = [Inl e]" "held P (snd (run (Suc i))) \<noteq> [Inl e]" by auto
  from linked_step_taken [OF step i(2,3)] i(1) j(1) e(2) show ?thesis by (meson Suc_leD le_trans)
qed

text \<open>
  A lost connection is noticed: when the pump is in the reconnect loop, every loop whose client stays
  registered ends later with a failure or has, once more, asked for all of its announcement.
\<close>

lemma resets_append: "resets (xs @ ys) = resets xs + resets ys"
  by (simp add: resets_def)

lemma handled_grow: "n \<le> m \<Longrightarrow> \<exists>xs. handled p (steps_before run ev m) = handled p (steps_before run ev n) @ xs"
  by (induction m rule: dec_induct) (auto simp: steps_before_def handled_def)

lemma pumped_grow: "n \<le> m \<Longrightarrow> \<exists>xs. pumped i (steps_before run ev m) = pumped i (steps_before run ev n) @ xs"
  by (induction m rule: dec_induct) (auto simp: steps_before_def pumped_def)

lemma reset_announced:
  assumes ready: "ready_system E Ls s0" and fair: "fair_system E Ls run ev" and start: "run 0 = (s0, \<lambda>p. loop_start)"
    and L: "Ls p = Some L" "reads_well L" "reacts L f" and n: "resets (handled p (steps_before run ev n)) > d"
  shows "\<exists>m\<ge>n. (\<exists>e. stage (snd (run m) p) = Ended e \<and> ended_by p (steps_before run ev m) e) \<or>
    (\<exists>j>d. asked_by p (steps_before run ev m) = concat (replicate j (announcement_of L)))"
proof -
  have apart: "apart_loops Ls" using ready by (simp add: ready_system_def)
  have inv: "system_inv Ls (run 0)" unfolding start by (rule ready_inv [OF ready])
  have "loop_inv L p (view p (run 0))" using inv L(1) by (simp add: system_inv_def)
  from setup_ends [OF fair_system_view [OF fair apart inv L(1)] this, of n] obtain m where
    m: "m \<ge> n" "\<not> in_setup (stage (snd (run m) p))" by (metis prod.collapse snd_conv view.simps)
  note at = system_at [OF ready fair start L, of m]
  show ?thesis
  proof (cases "over (stage (snd (run m) p))")
    case True
    with at(3) m(1) show ?thesis by blast
  next
    case False
    with m(2) have "to_ask L (stage (snd (run m) p)) = []" by (cases "stage (snd (run m) p)") simp_all
    with at(4) False have "asked_by p (steps_before run ev m) =
        concat (replicate (resets (handled p (steps_before run ev m))) (announcement_of L))" by simp
    moreover obtain xs where "handled p (steps_before run ev m) = handled p (steps_before run ev n) @ xs"
      using handled_grow [OF m(1)] by blast
    then have "resets (handled p (steps_before run ev m)) > d" using n by (simp add: resets_append)
    ultimately show ?thesis using m(1) by blast
  qed
qed

lemma error_noticed:
  assumes ready: "ready_system E Ls s0" and fair: "fair_system E Ls run ev" and start: "run 0 = (s0, \<lambda>p. loop_start)"
    and L: "Ls p = Some L" "reads_well L" "reacts L f" and "n \<ge> k" and "ev n = Others (Arrived (Inl e))" and "failed e"
    and "registered (fst (run n)) (lp_client L)"
  shows "\<exists>m\<ge>k. (\<exists>e. stage (snd (run m) p) = Ended e \<and> ended_by p (steps_before run ev m) e) \<or>
    (\<exists>j>resets (handled p (steps_before run ev k)). asked_by p (steps_before run ev m) = concat (replicate j (announcement_of L)))"
proof -
  let ?i = "lp_client L"
  have apart: "apart_loops Ls" using ready by (simp add: ready_system_def)
  have inv: "system_inv Ls (run 0)" unfolding start by (rule ready_inv [OF ready])
  have "pumped_by ?i (run n, ev n) = [Inl e]"
    using assms(8,10) by (cases "run n") (auto simp: relevant_def registered_def locks_def list_ex_iff)
  then have pumped: "pumped ?i (steps_before run ev (Suc n)) = pumped ?i (steps_before run ev n) @ [Inl e]"
    by (simp add: steps_before_def pumped_def)
  obtain m where m: "m \<ge> Suc n" and "over (stage (snd (run m) p)) \<or> (\<exists>xs. handled p (steps_before run ev m) =
      queue_of s0 ?i @ pumped ?i (steps_before run ev (Suc n)) @ xs)"
    using system_handles [OF ready fair start L(1)] by blast
  then consider "over (stage (snd (run m) p))" | xs where "handled p (steps_before run ev m) =
      queue_of s0 ?i @ pumped ?i (steps_before run ev n) @ Inl e # xs" unfolding pumped by auto
  then show ?thesis
  proof cases
    case 1
    with system_at(3) [OF ready fair start L] m \<open>n \<ge> k\<close> show ?thesis by (meson Suc_leD le_trans)
  next
    case (2 xs)
    show ?thesis
    proof (cases "e = make_error_code SessionReset")
      case True
      obtain ys where "pumped ?i (steps_before run ev n) = pumped ?i (steps_before run ev k) @ ys"
        using pumped_grow [OF \<open>n \<ge> k\<close>] by blast
      with 2 system_at(1) [OF ready fair start L, of k] have "handled p (steps_before run ev m) =
          handled p (steps_before run ev k) @ pending ?i p (fst (run k)) @ ys @ Inl e # xs" by (metis append_assoc)
      then have "resets (handled p (steps_before run ev m)) > resets (handled p (steps_before run ev k))"
        using True by (simp add: resets_append) (simp add: resets_def)
      from reset_announced [OF ready fair start L this] m \<open>n \<ge> k\<close> show ?thesis by (meson Suc_leD le_trans)
    next
      case False
      from system_trace_view(2) [OF fair_system_prefix [OF fair] apart inv L(1), of m]
      have "over (stage (snd (view p (run m))))"
        by (rule loop_trace_failure) (use 2 \<open>failed e\<close> False in \<open>simp_all add: seen_handled\<close>)
      then have "over (stage (snd (run m) p))" by (cases "run m") simp
      with system_at(3) [OF ready fair start L] m \<open>n \<ge> k\<close> show ?thesis by (meson Suc_leD le_trans)
    qed
  qed
qed

lemma lost_connection_noticed:
  assumes ready: "ready_system E Ls s0" and fair: "fair_linked E Ls P run ev" and start: "fst (run 0) = (s0, \<lambda>p. loop_start)"
    and "reconnects_alone P run" and L: "Ls p = Some L" "reads_well L" "reacts L f"
    and "in_loop (pcs (snd (run k)) P)" and reg: "\<forall>m\<ge>k. registered (fst (fst (run m))) (lp_client L)"
  shows "\<exists>m\<ge>k. (\<exists>e. stage (snd (fst (run m)) p) = Ended e \<and> ended_by p (system_part (steps_before run ev m)) e) \<or>
    (\<exists>j>resets (handled p (system_part (steps_before run ev k))).
      asked_by p (system_part (steps_before run ev m)) = concat (replicate j (announcement_of L)))"
proof -
  obtain n e where n: "n \<ge> k" "ev n = System (Others (Arrived (Inl e)))" "failed e"
    using lost_connection_arrives [OF fair assms(4,8)] by blast
  have apart: "apart_loops Ls" using ready by (simp add: ready_system_def)
  have "system_inv Ls (fst (run 0))" unfolding start by (rule ready_inv [OF ready])
  note fair_s = fair_linked_system [OF fair apart this]
  have "system_event_of (ev n) = Others (Arrived (Inl e))" by (simp add: n(2))
  from error_noticed [OF ready fair_s start L n(1) this n(3) reg [rule_format, OF n(1)]]
  show ?thesis unfolding steps_system .
qed

end
