(* ===== verification/Linked_Claims.thy ===== *)
theory Linked_Claims
  imports Linked_System Loop_Claims
begin

text \<open>
  From the network to the entities: the properties of a house whose pump receives from the physical client
  and its reconnect loop, with an example in which the connection is lost and comes back.
\<close>

section \<open>An example run\<close>

text \<open>Steps of a loop on its own are steps of the linked system aside of the pump in coroutine 2.\<close>

lemma alone_aside:
  assumes "loop_step E L 3 c ev c'" and "moves ev" and "served_by x q ts (fst c)" and "served_by y q' ts' (fst c')"
  shows "linked_step E [3 \<mapsto> L] 2 (alone 3 c, g) (System (alone_event 3 ev)) (alone 3 c', g)"
proof (rule linked_step.system [OF alone_step [OF assms(1)]])
  have "alone_event 3 ev \<noteq> Others (Arrived r)" for r using assms(2) by (cases ev) simp_all
  then show "aside 2 (alone 3 c) (alone_event 3 ev) (alone 3 c')"
    using assms(3,4) by (simp add: aside_def alone_def served_by_def)
qed

lemma alone_asides:
  assumes "loop_trace E L 3 c0 tr c" and "\<forall>x \<in> set tr. moves (snd x) \<and> (\<exists>y q. served_by y q ts (fst (fst x)))"
    and "served_by y q ts (fst c)" and "linked_trace E [3 \<mapsto> L] 2 b0 tr0 (alone 3 c0, g)"
  shows "linked_trace E [3 \<mapsto> L] 2 b0 (tr0 @ map (\<lambda>(c, ev). ((alone 3 c, g), System (alone_event 3 ev))) tr) (alone 3 c, g)"
  using assms
proof (induction arbitrary: y q rule: loop_trace.induct)
  case (loop_snoc tr c ev c')
  then obtain x q' where at: "moves ev" "served_by x q' ts (fst c)" by auto
  from loop_snoc.IH [OF _ at(2) loop_snoc.prems(3)] loop_snoc.prems(1) have "linked_trace E [3 \<mapsto> L] 2 b0 (tr0 @ map (\<lambda>(c, ev). ((alone 3 c, g), System (alone_event 3 ev))) tr) (alone 3 c, g)"
    by (simp del: fun_upd_apply)
  from linked_snoc [OF this alone_aside [OF loop_snoc.hyps(2) at loop_snoc.prems(2)]] show ?case by (simp del: fun_upd_apply)
qed simp

text \<open>The connection is lost and comes back while the loop waits; the pump then hands out the session reset.\<close>

lemma linked_reset:
  assumes s: "served_by (Some (Queue_Waiting 4)) [] ts s" and "sched_inv s" and L: "lp_client L = 4"
    and "linked_trace sim_codes [3 \<mapsto> L] 2 b0 tr0 (alone 3 (s, l), back_run 0)"
  shows "linked_trace sim_codes [3 \<mapsto> L] 2 b0
    (tr0 @ [((alone 3 (s, l), back_run 0), Client Works), ((alone 3 (s, l), back_run 1), Client Works),
      ((alone 3 (s, l), back_run 2), Client Reestablishes),
      ((alone 3 (s, l), back_run 3), System (Others (Arrived (Inl (make_error_code SessionReset)))))])
    (alone 3 (pump_end True (Inl (make_error_code SessionReset)) 2 s, l), goto Receiving 2 (back_run 3))"
    (is "linked_trace _ _ _ _ _ (alone 3 (?s', l), _)")
proof -
  let ?C = "alone 3 (s, l)" and ?r = "Inl (make_error_code SessionReset) :: recv_result"
  have back_at: "pcs (back_run 3) 2 = Some (Received ?r)" "state (back_run 3) = Connected" "state (back_run 0) = Reconnecting"
    by (simp_all add: numeral_eq_Suc piece_defs run_connected_def net_ok_def net_eof_def strand_init_def
        failed_def max_delay_def DefaultMaxAutoreconnectAttempts_def)
  have seen: "client_shows 2 (back_run 0) (back_run 1) = Works" "client_shows 2 (back_run 1) (back_run 2) = Works"
    "client_shows 2 (back_run 2) (back_run 3) = Reestablishes"
    unfolding client_shows_def back_run_start(1-3) back_at by simp_all
  have "linked_step sim_codes [3 \<mapsto> L] 2 (?C, back_run n) (Client (client_shows 2 (back_run n) (back_run (Suc n)))) (?C, back_run (Suc n))"
    if "pcs (back_run n) 2 \<noteq> None" for n
    by (rule linked_step.client [OF back_run_steps]) (use that in blast)
  from this [of 0] this [of 1] this [of 2] have steps:
    "linked_step sim_codes [3 \<mapsto> L] 2 (?C, back_run 0) (Client Works) (?C, back_run 1)"
    "linked_step sim_codes [3 \<mapsto> L] 2 (?C, back_run 1) (Client Works) (?C, back_run 2)"
    "linked_step sim_codes [3 \<mapsto> L] 2 (?C, back_run 2) (Client Reestablishes) (?C, back_run 3)"
    using back_run_start(1-3) seen by (simp_all del: back_run.simps add: numeral_eq_Suc)
  have rel: "relevant s 4 ?r = [?r]" "\<not> failed (pump_result ?r)"
    using s by (simp_all add: relevant_def served_by_def pump_result_def)
  note pumped = served_pump [OF s assms(2) rel]
  have at: "procs s 2 = Some (Pumping True)" "procs ?s' 2 = Some (Pumping True)"
    using s pumped(1) by (simp_all add: served_by_def)
  have "system_step sim_codes [3 \<mapsto> L] ?C (Others (Arrived ?r)) (alone 3 (?s', l))"
    using alone_step [OF pumped(2) [OF L, where l = l and E = sim_codes]] by simp
  then have "linked_step sim_codes [3 \<mapsto> L] 2 (?C, back_run 3) (System (Others (Arrived ?r)))
      (alone 3 (?s', l), if pumping (procs ?s' 2) then goto Receiving 2 (back_run 3) else forget 2 (back_run 3))"
    unfolding alone_def fst_conv snd_conv by (rule linked_step.pump_ends [OF at(1) back_at(1)])
  then have "linked_step sim_codes [3 \<mapsto> L] 2 (?C, back_run 3) (System (Others (Arrived ?r)))
      (alone 3 (?s', l), goto Receiving 2 (back_run 3))" by (simp add: at(2))
  from linked_snoc [OF linked_snoc [OF linked_snoc [OF linked_snoc [OF assms(4) steps(1)] steps(2)] steps(3)] this]
  show ?thesis by simp
qed

text \<open>The client is registered, and a reconnect under way is the only one.\<close>

definition calm :: "('w, 'h) system \<times> 'v strand \<Rightarrow> bool" where
  "calm c \<longleftrightarrow> registered (fst (fst c)) 4 \<and> (in_loop (pcs (snd c) 2) \<longrightarrow> state (snd c) = Reconnecting)"

lemma calm_served:
  "served_by y q ts s \<Longrightarrow> in_loop (pcs g 2) \<longrightarrow> state g = Reconnecting \<Longrightarrow> calm (alone 3 (s, l), g)"
  by (simp add: calm_def alone_def served_by_def registered_def locks_def)

text \<open>After the reset the button announces itself and waits again.\<close>

lemma served_announces:
  assumes s: "served_by (Some (Queue_Woken 4)) [Inl (make_error_code SessionReset)] ts s" and L: "lp_client L = 4"
    and "stage l = Receiving_Result" and sub: "lp_subscription L = Ret (Some ts)" "lp_availability L = Ret (Some rq)"
    and same: "register_topics ts ts = ts"
  shows "\<exists>tr s'. loop_trace E L 3 (s, l) tr (s', l) \<and> served_by (Some (Queue_Waiting 4)) [] ts s' \<and>
    (\<forall>x \<in> set tr. moves (snd x) \<and> (\<exists>y q. served_by y q ts (fst (fst x))))"
proof -
  let ?r = "Inl (make_error_code SessionReset) :: recv_result" and ?d = "l\<lparr>stage := Discovering\<rparr>"
  let ?s1 = "recv_resume E 4 default_error 3 s" let ?s2 = "leave 3 ?s1"
  have s1: "served_by (Some (Popped ?r)) [] ts ?s1" by (rule served_resume(1) [OF s])
  have "loop_step E L 3 (s, l) (Inner (Took 4 ?r)) (?s1, l)"
    using loop_step.resume_loop [where l = l and s = s and E = E and L = L and p = 3 and ec = default_error]
      served_resume(2) [OF s] served_queue(2) [OF s] L assms(3) by simp
  from loop_snoc [OF loop_Nil this] have t1: "loop_trace E L 3 (s, l) [((s, l), Inner (Took 4 ?r))] (?s1, l)" by simp
  have "loop_step E L 3 (?s1, l) (React ?r [lp_discovery L]) (?s2, ?d)"
    using loop_step.react [where l = l and s = ?s1 and E = E and L = L and p = 3 and r = ?r and l' = ?d]
      served_queue(2) [OF s1] assms(3) by (simp add: loop_received_def)
  from loop_snoc [OF t1 this] have t2: "loop_trace E L 3 (s, l)
      [((s, l), Inner (Took 4 ?r)), ((?s1, l), React ?r [lp_discovery L])] (?s2, ?d)" by simp
  have s2: "served_by None [] ts ?s2" by (rule served_leave(1) [OF s1])
  obtain tr s3 where t3: "loop_trace E L 3 (s, l) ([((s, l), Inner (Took 4 ?r)), ((?s1, l), React ?r [lp_discovery L])] @ tr)
      (s3, l\<lparr>stage := Ready\<rparr>)" and s3: "served_by None [] ts s3"
    and own: "\<forall>x \<in> set tr. moves (snd x) \<and> (\<exists>y q. served_by y q ts (fst (fst x)))"
    using served_setup [OF t2 L s2 _ sub same] by auto
  have again: "l\<lparr>stage := Receiving_Result\<rparr> = l" using assms(3) by (cases l) simp
  have "loop_step E L 3 (s3, l\<lparr>stage := Ready\<rparr>) (Inner Silent) (recv_begin E 4 3 s3, l)"
    using loop_step.begin_loop [where l = "l\<lparr>stage := Ready\<rparr>" and s = s3 and E = E and L = L and p = 3]
      served_begin(2,3) [OF s3] L again by simp
  from loop_snoc [OF t3 this] served_begin(1) [OF s3] own s s1 s3 show ?thesis
    by (intro exI [of _ "([((s, l), Inner (Took 4 ?r)), ((?s1, l), React ?r [lp_discovery L])] @ tr) @
        [((s3, l\<lparr>stage := Ready\<rparr>), Inner Silent)]"] exI [of _ "recv_begin E 4 3 s3"]) auto
qed

lemma linked_example:
  assumes "button_of alist_json ''b1'' (7::nat) = Ret cf"
  obtains tr s l g where
    "linked_trace sim_codes [3 \<mapsto> button_loop alist_json 4 cf] 2 (alone 3 (example_start [b1_topic], loop_start), back_run 0) tr (alone 3 (s, l), g)"
    and "procs s 3 = Some (Queue_Waiting 4)" and "queue_of s 4 = []" and "stage l = Receiving_Result"
    and "pcs g 2 = Some Receiving" and "reestablished tr = 1"
    and "\<forall>x \<in> set tr. calm (fst x)" and "calm (alone 3 (s, l), g)"
proof -
  let ?L = "button_loop alist_json 4 cf" and ?s0 = "example_start [b1_topic]" and ?r = "Inl (make_error_code SessionReset) :: recv_result"
  let ?s1 = "recv_begin sim_codes 4 3 ?s0" and ?l = "loop_start\<lparr>stage := Receiving_Result\<rparr> :: nat entity_loop"
  let ?s2 = "pump_end True ?r 2 ?s1" and ?g = "goto Receiving 2 (back_run 3)" and ?c0 = "(?s0, loop_start :: nat entity_loop)"
  note s0 = example_start_served [of b1_topic]
  note s1 = served_begin(1) [OF s0, of sim_codes]
  have client: "lp_client ?L = 4" by (simp add: button_loop_def loop_for_def)
  obtain rq where sub: "lp_subscription ?L = Ret (Some [b1_topic])" "lp_availability ?L = Ret (Some rq)"
    using button_loop_setup [OF alist.json_laws_axioms assms, of 4] by (simp add: b1_topic_def)
  have same: "register_topics [b1_topic] [b1_topic] = [b1_topic]" by (simp add: register_topics_def b1_topic_def)
  have step: "loop_step sim_codes ?L 3 ?c0 (Inner Silent) (?s1, ?l)"
    using loop_step.begin_loop [where l = "loop_start :: nat entity_loop" and s = ?s0 and E = sim_codes and L = ?L and p = 3]
      served_begin(2,3) [OF s0] client by (simp add: loop_start_def)
  have "linked_step sim_codes [3 \<mapsto> ?L] 2 (alone 3 ?c0, back_run 0) (System (Own 3 (Inner Silent))) (alone 3 (?s1, ?l), back_run 0)"
    using alone_aside [OF step, of None "[]" "[b1_topic]" "Some (Queue_Waiting 4)" "[]" "[b1_topic]" "back_run 0"] s0 s1
    by (simp del: back_run.simps fun_upd_apply)
  from linked_snoc [OF linked_Nil this]
  have t1: "linked_trace sim_codes [3 \<mapsto> ?L] 2 (alone 3 ?c0, back_run 0)
      [((alone 3 ?c0, back_run 0), System (Own 3 (Inner Silent)))] (alone 3 (?s1, ?l), back_run 0)" by simp
  have inv: "loop_inv ?L 3 ?c0"
    using start_inv [of sim_codes ?L 3 ?s0] example_start_free by (simp add: client)
  have sched: "sched_inv ?s1" by (rule loop_invD(1) [OF loop_step_inv [OF step inv]])
  note t2 = linked_reset [OF s1 sched client t1]
  have "relevant ?s1 4 ?r = [?r]" "\<not> failed (pump_result ?r)"
    using s1 by (simp_all add: relevant_def served_by_def pump_result_def)
  note s2 = served_pump(1) [OF s1 sched this]
  obtain tr s where tr: "loop_trace sim_codes ?L 3 (?s2, ?l) tr (s, ?l)" and s: "served_by (Some (Queue_Waiting 4)) [] [b1_topic] s"
    and own: "\<forall>x \<in> set tr. moves (snd x) \<and> (\<exists>y q. served_by y q [b1_topic] (fst (fst x)))"
    using served_announces [OF s2 client _ sub same, of ?l sim_codes] by auto
  note t3 = alone_asides [OF tr own _ t2, unfolded fst_conv, OF s]
  have g: "pcs ?g 2 = Some Receiving" "\<not> in_loop (pcs ?g 2)" by (simp_all del: back_run.simps)
  have states: "state (back_run 0) = Reconnecting" "state (back_run 1) = Reconnecting" "state (back_run 2) = Reconnecting"
    "\<not> in_loop (pcs (back_run 3) 2)"
    using back_run_start(4,5) back_run_ended(1) [of 3] by (simp_all add: run_defs)
  have calms: "calm (alone 3 ?c0, back_run 0)" "calm (alone 3 (?s1, ?l), back_run 0)" "calm (alone 3 (?s1, ?l), back_run 1)"
    "calm (alone 3 (?s1, ?l), back_run 2)" "calm (alone 3 (?s1, ?l), back_run 3)"
    by (rule calm_served [OF s0] calm_served [OF s1]; use states in blast)+
  have own_calm: "\<forall>x \<in> set tr. calm (alone 3 (fst x), ?g)"
  proof
    fix x assume "x \<in> set tr"
    with own obtain y q where "served_by y q [b1_topic] (fst (fst x))" by blast
    from calm_served [OF this, of ?g "snd (fst x)"] g(2) show "calm (alone 3 (fst x), ?g)" by simp
  qed
  have none: "filter (\<lambda>(c, ev). ev = Client Reestablishes) (map (\<lambda>(c, ev). ((alone 3 c, ?g), System (alone_event 3 ev))) tr) = []"
    by (auto simp: filter_empty_conv)
  show thesis
  proof (rule that [OF t3])
    show "procs s 3 = Some (Queue_Waiting 4)" "queue_of s 4 = []" using served_queue [OF s] by simp_all
    show "calm (alone 3 (s, ?l), ?g)" by (rule calm_served [OF s]) (use g(2) in blast)
    show "pcs ?g 2 = Some Receiving" by (rule g(1))
  qed (use calms own_calm in \<open>auto simp: reestablished_def none simp del: back_run.simps\<close>)
qed

text \<open>From then on the button waits, and the run stays as it is.\<close>

lemma linked_trace_steps:
  assumes "linked_trace E Ls P c0 tr c"
  shows "fst ((tr @ [(c, x)]) ! 0) = c0 \<and>
    (\<forall>n < length tr. linked_step E Ls P (fst (tr ! n)) (snd (tr ! n)) (fst ((tr @ [(c, x)]) ! Suc n)))"
  using assms
proof (induction arbitrary: x rule: linked_trace.induct)
  case (linked_snoc tr c ev c')
  have "linked_step E Ls P (fst ((tr @ [(c, ev)]) ! n)) (snd ((tr @ [(c, ev)]) ! n))
      (fst (((tr @ [(c, ev)]) @ [(c', x)]) ! Suc n))" if "n < Suc (length tr)" for n
    using that linked_snoc.IH [of ev] linked_snoc.hyps(2)
    by (cases "n = length tr") (auto simp: nth_append less_Suc_eq)
  with linked_snoc.IH [of ev] show ?case by (auto simp: nth_append)
qed simp

lemma linked_run_fair:
  assumes "linked_trace E [p \<mapsto> L] P c0 tr c" and "system_inv [p \<mapsto> L] (fst c0)"
    and "\<not> can_go (lp_client L) p (view p (fst c))" and "pcs (snd c) P = Some Receiving"
  shows "fair_linked E [p \<mapsto> L] P (run_of tr c) (events_of (System (Others Silent)) tr)" and "run_of tr c 0 = c0"
proof -
  let ?run = "run_of tr c" and ?ev = "events_of (System (Others Silent)) tr"
  note steps = linked_trace_steps [OF assms(1), of "System (Others Silent)"]
  have apart: "apart_loops [p \<mapsto> L]" by (simp add: apart_loops_def)
  have "system_inv [p \<mapsto> L] (fst c)"
    by (rule system_trace_view(1) [OF linked_trace_facts(1) [OF assms(1) apart assms(2)] apart assms(2)])
  from linked_step.system [OF system_stutters [OF this], where P = P and g = "snd c"]
  have idle: "linked_step E [p \<mapsto> L] P c (System (Others Silent)) c" by (simp add: aside_def)
  show "?run 0 = c0" using steps by (cases tr) (auto simp: run_of_def)
  have step: "linked_step E [p \<mapsto> L] P (?run n) (?ev n) (?run (Suc n))" for n
    using steps idle by (cases "Suc n < length tr"; cases "n < length tr")
      (auto simp: run_of_def events_of_def nth_append dest!: spec [of _ n])
  have last: "?run (max n (length tr)) = c" "max n (length tr) \<ge> n" for n by (simp_all add: run_of_def)
  moreover have "held P (snd c) = []" using assms(4) by (simp add: held_def)
  ultimately have "\<exists>m\<ge>n. \<not> can_go (lp_client L) p (view p (fst (?run m)))" "\<exists>m\<ge>n. held P (snd (?run m)) = []" for n
    using assms(3) by metis+
  moreover have "\<exists>m\<ge>n. pcs (snd (?run (Suc m))) P \<noteq> pcs (snd (?run m)) P" if "in_loop (pcs (snd (?run n)) P)" for n
  proof -
    have "\<not> in_loop (pcs (snd (?run (max n (length tr)))) P)" by (simp add: last(1) assms(4))
    from switches [where Q = "\<lambda>n. in_loop (pcs (snd (?run n)) P)", OF last(2) that this] show ?thesis by metis
  qed
  ultimately show "fair_linked E [p \<mapsto> L] P ?run ?ev" using step by (simp add: fair_linked_def) blast
qed

section \<open>Properties\<close>

text \<open>
  C4: From the network to the announcements: in a house whose pump receives from the physical client, in any
  interleaving, an entity announces itself (discovery document, subscription, availability, complete and in
  this order) at most once for every time the reconnect loop has connected the client again, and for no other
  reason. If its client has been registered all the time and nothing is under way, it is exactly once.
\<close>

theorem reconnects_are_announced:
  assumes "json_laws J" and "ready_house E plan s0"
    and "linked_trace E (house J plan) P ((s0, \<lambda>p. loop_start), g0) tr ((s, ls), g)"
    and "held P g0 = []" and "queue_of s0 i = []" and "plan p = Some (i, a)"
  shows "\<exists>doc n rest. appliance_doc J a = Ret doc \<and> n \<le> reestablished tr \<and>
    asked_by p (system_part tr) @ rest = concat (replicate n (announcement a doc)) \<and>
    (stays_registered i tr \<and> pending i p s = [] \<and> held P g = [] \<longrightarrow> n = reestablished tr) \<and>
    (stage (ls p) = Ready \<or> stage (ls p) = Receiving_Result \<longrightarrow> rest = [])"
proof -
  obtain L doc where L: "house J plan p = Some L" "lp_client L = i" "reads_well L" "reacts L (reaction_of a)"
    and doc: "appliance_doc J a = Ret doc" "announcement_of L = announcement a doc"
    by (rule house_loop [where plan = plan and p = p, OF assms(1,6)])
  note ready = ready_house_system [OF assms(1,2)]
  have apart: "apart_loops (house J plan)" using ready by (simp add: ready_system_def)
  note facts = linked_trace_facts [OF assms(3) apart, unfolded fst_conv snd_conv, OF ready_inv [OF ready]]
  let ?n = "resets (handled p (system_part tr))"
  from system_from_start [OF ready facts(1) L(1,3,4)] L(2) assms(5) obtain rest where
    pumped: "pumped i (system_part tr) = handled p (system_part tr) @ pending i p s" and
    rest: "asked_by p (system_part tr) @ rest = concat (replicate ?n (announcement a doc))"
      "\<not> over (stage (ls p)) \<longrightarrow> rest = to_ask L (stage (ls p))" by (auto simp: doc(2))
  have "reestablished tr = resets (got tr) + resets (held P g)"
    using facts(3,4) assms(4) by (metis append_Nil resets_append)
  moreover have "resets (pumped i (system_part tr)) = ?n + resets (pending i p s)" by (simp add: pumped resets_append)
  ultimately have "?n \<le> reestablished tr"
    and "stays_registered i tr \<and> pending i p s = [] \<and> held P g = [] \<longrightarrow> ?n = reestablished tr"
    using resets_pumped [of i tr] by (auto simp: resets_def)
  with rest doc(1) show ?thesis by (intro exI [of _ doc] exI [of _ ?n] exI [of _ rest]) auto
qed

theorem reconnects_are_announced_witness:
  "\<exists>tr c doc. linked_trace sim_codes (house alist_json one_plan) 2 ((example_start [b1_topic], \<lambda>p. loop_start), back_run 0) tr c \<and>
     reestablished tr = 1 \<and> appliance_doc alist_json (A_Button ''b1'' (7::nat)) = Ret doc \<and>
     asked_by 3 (system_part tr) = announcement (A_Button ''b1'' (7::nat)) doc"
proof -
  obtain cf where cf: "button_of alist_json ''b1'' (7::nat) = Ret cf" by (rule alist_button)
  obtain tr s l g where tr: "linked_trace sim_codes [3 \<mapsto> button_loop alist_json 4 cf] 2
      (alone 3 (example_start [b1_topic], loop_start), back_run 0) tr (alone 3 (s, l), g)"
    and at: "procs s 3 = Some (Queue_Waiting 4)" "queue_of s 4 = []" "stage l = Receiving_Result" "pcs g 2 = Some Receiving"
    and one: "reestablished tr = 1" and calm: "\<forall>x \<in> set tr. calm (fst x)"
    by (rule linked_example [OF cf])
  obtain ls where c: "alone 3 (s, l) = (s, ls)" "stage (ls 3) = Receiving_Result" using at(3) by (simp add: alone_def)
  note run = tr [unfolded alone_start c(1) one_house [OF cf, symmetric]]
  have held: "held 2 (back_run 0) = []" "held 2 g = []" using back_run_start(1) at(4) by (simp_all add: held_def)
  have plan: "one_plan 3 = Some (4, A_Button ''b1'' 7)" by (simp add: one_plan_def)
  have quiet: "queue_of (example_start [b1_topic]) 4 = []" "pending 4 3 s = []"
    using served_queue(1) [OF example_start_served] at(1,2) by (simp_all add: pending_def)
  have "stays_registered 4 tr" using calm by (auto simp: stays_registered_def calm_def)
  with reconnects_are_announced [OF alist.json_laws_axioms one_ready run held(1) quiet(1) plan] held(2) quiet(2) c(2) one
  obtain doc where "appliance_doc alist_json (A_Button ''b1'' (7::nat)) = Ret doc"
    and "asked_by 3 (system_part tr) = announcement (A_Button ''b1'' (7::nat)) doc" by auto
  with run one show ?thesis by blast
qed

text \<open>
  C5: A lost connection is noticed: when in a fair run of a house the pump is in the reconnect loop, which no
  other connect disturbs, then every entity whose client stays registered has later announced itself in full more often than
  it had been asked to before, or its run loop has ended, because of a failure other than a session reset which
  it has reacted to or with which a request of its setup has been refused.
\<close>

theorem lost_connections_are_noticed:
  assumes "json_laws J" and "ready_house E plan s0" and "fair_linked E (house J plan) P run ev"
    and "fst (run 0) = (s0, \<lambda>p. loop_start)" and "reconnects_alone P run" and "in_loop (pcs (snd (run k)) P)"
    and "plan p = Some (i, a)" and "\<forall>m\<ge>k. registered (fst (fst (run m))) i"
  shows "\<exists>m\<ge>k. (\<exists>e. stage (snd (fst (run m)) p) = Ended e \<and> ended_by p (system_part (steps_before run ev m)) e) \<or>
    (\<exists>doc n. appliance_doc J a = Ret doc \<and> n > resets (handled p (system_part (steps_before run ev k))) \<and>
      asked_by p (system_part (steps_before run ev m)) = concat (replicate n (announcement a doc)))"
proof -
  obtain L doc where L: "house J plan p = Some L" "lp_client L = i" "reads_well L" "reacts L (reaction_of a)"
    and doc: "appliance_doc J a = Ret doc" "announcement_of L = announcement a doc"
    by (rule house_loop [where plan = plan and p = p, OF assms(1,7)])
  from lost_connection_noticed [OF ready_house_system [OF assms(1,2)] assms(3-5) L(1,3,4) assms(6)] assms(8) L(2)
  show ?thesis using doc by auto
qed

theorem lost_connections_are_noticed_witness:
  "\<exists>(run :: nat \<Rightarrow> (sim, nat) system \<times> sim strand) ev. fair_linked sim_codes (house alist_json one_plan) 2 run ev \<and> fst (run 0) = (example_start [b1_topic], \<lambda>p. loop_start) \<and>
     in_loop (pcs (snd (run 0)) 2) \<and>
     (\<exists>m doc n. n > 0 \<and>
       asked_by 3 (system_part (steps_before run ev m)) = concat (replicate n (announcement (A_Button ''b1'' (7::nat)) doc)))"
proof -
  obtain cf where cf: "button_of alist_json ''b1'' (7::nat) = Ret cf" by (rule alist_button)
  let ?L = "button_loop alist_json 4 cf"
  obtain tr s l g where tr: "linked_trace sim_codes [3 \<mapsto> ?L] 2 (alone 3 (example_start [b1_topic], loop_start), back_run 0) tr (alone 3 (s, l), g)"
    and wait: "procs s 3 = Some (Queue_Waiting 4)" "stage l = Receiving_Result" and g: "pcs g 2 = Some Receiving"
    and calm: "\<forall>x \<in> set tr. calm (fst x)" "calm (alone 3 (s, l), g)"
    by (rule linked_example [OF cf])
  have client: "lp_client ?L = 4" by (simp add: button_loop_def loop_for_def)
  note ready = ready_house_system [OF alist.json_laws_axioms one_ready, unfolded one_house [OF cf]]
  have "\<not> can_go (lp_client ?L) 3 (view 3 (fst (alone 3 (s, l), g)))" using wait by (simp add: can_go_def client)
  note run = linked_run_fair [OF tr, unfolded fst_conv snd_conv alone_start, OF ready_inv [OF ready] this [unfolded fst_conv] g]
  let ?run = "run_of tr (alone 3 (s, l), g)"
  have all: "calm (?run n)" for n using calm by (simp add: run_of_def)
  have alone: "reconnects_alone 2 ?run" using all by (auto simp: reconnects_alone_def connects_def calm_def)
  have reg: "\<forall>m\<ge>0. registered (fst (fst (?run m))) 4" using all by (simp add: calm_def)
  have start: "fst (?run 0) = (example_start [b1_topic], \<lambda>p. loop_start)" "in_loop (pcs (snd (?run 0)) 2)"
    using run(2) back_run_start(1) by (simp_all add: alone_start)
  have plan: "one_plan 3 = Some (4, A_Button ''b1'' 7)" by (simp add: one_plan_def)
  note fair = run(1) [folded one_house [OF cf]]
  have apart: "apart_loops [3 \<mapsto> ?L]" using ready by (simp add: ready_system_def)
  have "system_inv [3 \<mapsto> ?L] (fst (?run 0))" unfolding start by (rule ready_inv [OF ready])
  note persists = over_persists [OF fair_linked_system [OF run(1) apart this] apart this, of 3 ?L]
  have going: "\<not> over (stage (snd (fst (?run m)) 3))" for m
  proof -
    have "stage (snd (fst (?run (max m (length tr)))) 3) = Receiving_Result" using wait(2) by (simp add: run_of_def alone_def)
    with persists [of m "max m (length tr)"] show ?thesis by auto
  qed
  then have "stage (snd (fst (?run m)) 3) \<noteq> Ended e" for m e by (metis over.simps(1))
  with lost_connections_are_noticed [OF alist.json_laws_axioms one_ready fair start(1) alone start(2) plan reg] obtain m where
    "(\<exists>doc n. n > 0 \<and>
      asked_by 3 (system_part (steps_before ?run (events_of (System (Others Silent)) tr) m)) =
        concat (replicate n (announcement (A_Button ''b1'' (7::nat)) doc)))" by (blast dest: le_less_trans [OF le0])
  with fair start show ?thesis
    by blast
qed

end
