(* ===== verification/Spec2Isabelle.thy ===== *)
theory Spec2Isabelle
  imports Errors Topics Logging Client_Progress Button Cover Sensors Entity_Types Shared_Limits Loop_Claims Loop_Refines Linked_Claims
begin

text \<open>
  Verification of hacpp, a header-only C++ library of Home Assistant MQTT entities
  (\<open>lib/include/hacpp\<close>). A program connects an \<open>AsyncMqttClient\<close>, or shares one between several
  \<open>SharedAsyncMqttClient\<close>s, and gives each client to an entity (\<open>Button\<close>, \<open>Cover\<close>, \<open>Sensor\<close>,
  \<open>BinarySensor\<close>). An entity announces itself (discovery document, subscription, availability) and
  runs a receive loop, which repeats the announcement after every session reset.

  What is modelled, and where:

  \<^item> \<open>Prelude\<close>: named collections of simplification rules, splitting of strings, growing lists.
  \<^item> \<open>Errors\<close> (\<open>error.h\<close>): error codes with their categories, and \<open>map_err\<close>.
  \<^item> \<open>Topics\<close> (\<open>hacpp.h\<close>): the default topics of an entity.
  \<^item> \<open>Coro\<close>: coroutines. A coroutine is a function from the state to \<open>None\<close> (it is never resumed
    again) or to its result, a value or an exception, and the state it leaves.
  \<^item> \<open>Mqtt_Client\<close> (\<open>async_mqtt_client.h\<close>): the members of \<open>AsyncMqttClient\<close>, the record \<open>client\<close>,
    and one definition per member coroutine; the third-party MQTT client and the Asio timers are the
    record \<open>transport\<close>, a parameter. \<open>Transport_Laws\<close> states what is relied on of it (a
    locale for transports that log what they do, and one for transports during whose suspensions
    no other coroutine interferes) and gives a simulated broker that satisfies both. \<open>Reconnect\<close>
    relates the reconnect loop to a reconnect protocol, \<open>Client_Invariant\<close> has the invariant of
    the client and the properties of its operations, \<open>Rely\<close> lifts any reflexive and transitive
    relation from the third-party operations to those of the client. \<open>Client_Sched\<close> cuts the same
    coroutines at their suspension points and lets any number of them interleave: the step
    relation, its invariant, and the proof that the sequential model is one of the interleavings.
    \<open>Client_Progress\<close> has a measure of the reconnect loop and shows that in a fair run it ends.
  \<^item> \<open>Entity_Cfg\<close> and \<open>Entity_Base\<close> (\<open>entity.h\<close>): the JSON configuration over any JSON object
    type that satisfies the locale \<open>json_laws\<close>, and the base class \<open>Entity\<close> over any client.
    \<open>Entity_Run\<close> (\<open>factory.h\<close>): factories, the receive loop that the entities share, and the
    contract \<open>client_contract\<close> between an entity and its client. \<open>Direct_Client\<close> shows that an
    \<open>AsyncMqttClient\<close> keeps it. \<open>Inbox\<close> has a second contract, on delivered packets and started
    handlers, and the runs on the simulated broker that the witnesses use.
  \<^item> \<open>Button\<close>, \<open>Cover\<close>, \<open>Sensors\<close> (\<open>button.h\<close>, \<open>cover.h\<close>, \<open>sensor.h\<close>, \<open>binary_sensor.h\<close>): the entities,
    their factories and what they announce, publish and start. \<open>Never_Throws\<close> has the contract of
    clients that throw no exception, \<open>Factory_Types\<close> a type system for programs over the factory of a
    cover, \<open>Entity_Types\<close> the same for the other three factories.
  \<^item> \<open>Shared_Client\<close> (\<open>shared_mqtt_client.h\<close>): the shared connection, its pump, its clients and
    their queues. \<open>Shared_Pump\<close> computes what the pump hands out, \<open>Shared_Props\<close> proves the
    invariant of the operations and the behaviour of the run loop, \<open>Shared_Claims\<close> has the
    properties, \<open>Shared_Entities\<close> those of entities on a shared connection. \<open>Shared_Sched\<close> runs the same
    bodies piecewise and interleaved: a queue timer is the set of coroutines suspended on it, the step
    relation \<open>shared_step\<close> leaves the results of the physical client open and shows what is received,
    taken and dropped, and \<open>shared_trace\<close> collects it. Its lemmas are the invariant, that a woken
    receive finds something when receives on a client do not overlap, and what one step does to a
    queue; \<open>Shared_Runs\<close> has the properties of whole runs and \<open>Shared_Limits\<close> what a shared connection
    does not do: a wait is ended by nothing but a result, and overlapping receives rob each other.
  \<^item> \<open>Shared_Loop\<close> puts entity and shared connection together: the run loop of an entity
    (\<open>Entity::async_recv\<close>, \<open>handle_err\<close>, \<open>async_setup\<close> and the visitor of \<open>async_run\<close>) is cut where its
    coroutine may be suspended, in the receive and in the three requests of a setup, and \<open>loop_step\<close>
    interleaves its pieces with \<open>shared_step\<close>, the steps of the pump and of all other coroutines.
    \<open>loop_code\<close> holds what differs between entities; \<open>Entity_Loops\<close> gives it for the four entities, proves
    that each asks for what the coroutines of its entity ask for, and computes announcement and
    reactions. \<open>Loop_Runs\<close> follows one loop through fair runs, by a rank, \<open>Loop_System\<close> any number of loops on
    one connection: seen from one loop, the others are part of the strand. \<open>Loop_Example\<close> has the
    example runs, \<open>Loop_Claims\<close> the properties of a house of entities, from the pump to the handlers, and
    that entities with different names share no topic.
    \<open>Loop_Refines\<close> proves that the run loops as whole coroutines, on a shared client, are among these
    interleavings, when the waits for a queue are steps of the other coroutines: a client with a history
    (\<open>noting\<close>) writes down what the coroutine receives, asks and is answered, \<open>trace_notes\<close> reads the same from the
    steps, and the two are equal.
  \<^item> \<open>Linked_System\<close> puts the physical client below: the coroutine that runs the pump is one coroutine of
    \<open>Client_Sched\<close> and of the system of entities, and the two models take a step together when its
    \<open>async_recv\<close> begins and when it returns. What the client answers to the publishes and subscriptions of
    the entities stays open. \<open>Linked_Claims\<close> has the properties from the network to the entities: they announce
    themselves once for every reconnect, and in a fair run every lost connection gets through to them.
  \<^item> \<open>Logging\<close> (\<open>logger.h\<close>): the choice of the logger over spdlog as a parameter.

  Correspondence. A \<open>co_await\<close> is \<open>await\<close>, \<open>co_return\<close> is \<open>co_return\<close>, assignments to members are
  \<open>assign\<close>, reads \<open>reading\<close>; an expression that may throw is an \<open>eval_res\<close>. \<open>while (true)\<close> loops are
  \<open>partial_function (option)\<close>, so a run that never ends is \<open>None\<close>: the reconnect loop is proved to
  end, the receive loops are meant not to, and what they do is also stated turn by turn. There is
  no fuel. In the interleaved models a coroutine is a number with a program counter, and fairness is
  a hypothesis on infinite runs: a coroutine that can run on does so at some time. In \<open>loop_step\<close> the
  fairness of the loop covers the physical client too, which answers a request at some time, with any
  error code; and a piece may be interrupted at places where the code runs on, so that the
  properties hold of more interleavings than the executor has. Records keep the members of the classes; an executor and a handler are abstract, and
  starting a handler is the parameter \<open>spawn\<close>.

  Simplifications. In the interleaved client the packet id is acquired in the same suspension as the sending, and
  the pause before a reconnect does not throw (its timer is a local one that nobody cancels); the sequential
  model has both. Options of a subscription other than the quality of service are left out, they are handed on
  unread. Arguments of one call are evaluated in one fixed order, where the code leaves the order open; only
  which exception is raised first depends on it. Counters of attempts are unbounded integers; they stay below
  \<open>max_attempts\<close> plus one.

  Not modelled: the calls that log messages, \<open>detail::str\<close>, which only they use, the third-party code
  behind the records \<open>transport\<close>, \<open>json_api\<close>, \<open>queue_timers\<close> and \<open>spdlog_api\<close>, the state of
  moved-from objects, the accessors of executors, and the constants that no code of the library reads (the
  states a program may report for a cover, the name of the error category).
\<close>

text \<open>
  C36: The run loop of an entity never ends with a success: what \<open>async_run\<close> returns, for each of
  the four entities and any client, is a failure.
\<close>

theorem runs_end_with_failure:
  "(button_run J spawn C bt s = Some (Ret e, s') \<longrightarrow> failed e) \<and>
   (cover_run J spawn C cv s = Some (Ret e, s') \<longrightarrow> failed e) \<and>
   (sensor_run J C cf s = Some (Ret e, s') \<longrightarrow> failed e) \<and>
   (binary_sensor_run J C cf s = Some (Ret e, s') \<longrightarrow> failed e)"
  unfolding button_run_def cover_run_def sensor_run_def binary_sensor_run_def
  by (intro conjI impI; erule run_loop_ret_failed)

theorem runs_end_with_failure_witness:
  "\<exists>cf e s'. sensor_of alist_json ''temp'' = Ret cf \<and>
     sensor_run alist_json sim_client_ops cf (sim_started (sim_delivering [])) = Some (Ret e, s') \<and> failed e"
proof -
  obtain cf where cf: "sensor_of alist_json ''temp'' = Ret cf"
    by (rule sensor_exists [OF alist.json_laws_axioms])
  have "\<exists>s'. sensor_run alist_json sim_client_ops cf (sim_started (sim_delivering [])) =
      Some (Ret (make_error_code InvalidPacket), s')"
    using run_loop_delivering [of "sensor_entity alist_json sim_client_ops cf" sim_codes "\<lambda>p. co_return ()"
        "\<lambda>p s. s" "sim_started (sim_delivering [])" "[]" alist_json]
    by (auto simp: sensor_run_def sensor_entity_def sim_client_ops_def co_return_run sim_started_def
        sim_delivering_def)
  then obtain s' where run: "sensor_run alist_json sim_client_ops cf (sim_started (sim_delivering [])) =
      Some (Ret (make_error_code InvalidPacket), s')" by blast
  from runs_end_with_failure [of alist_json _ sim_client_ops _ _ "make_error_code InvalidPacket" s' _ cf]
    run cf
  show ?thesis by blast
qed

end
